(* ===== verification/Prelude.thy ===== *)
theory Prelude
  imports Main "HOL-Library.Word" "HOL-Library.Multiset"
begin

text \<open>
  Shared vocabulary of the development: the ways a C++ operation of the program can fail,
  sequencing of fallible operations, the registries (unordered maps whose first entry wins),
  the atomic countdowns used to join asynchronous work, and transition systems with an
  invariant and a measure. The interfaces are locales; the components interpret them on
  their own definitions.
\<close>

section \<open>Results of C++ operations\<close>

text \<open>
  An operation that can fail returns a sum: \<open>Inl\<close> carries what ended it. The first group
  are the defined ends of a C++ program (a thrown exception, \<open>std::terminate\<close>, a
  \<open>LOG(FATAL)\<close> that aborts); the second group is undefined behaviour, which the models
  make visible as a value of its own.
\<close>

datatype cxx_error =
    Thrown string \<comment> \<open>a \<open>std::exception\<close> leaves the function\<close>
  | Thrown_Other string \<comment> \<open>an object that is no \<open>std::exception\<close> is thrown out of it\<close>
  | Terminate \<comment> \<open>an exception leaves a \<open>noexcept\<close> function\<close>
  | Fatal_Abort \<comment> \<open>\<open>LOG(FATAL)\<close> with a logging library that aborts\<close>
  | Null_Deref \<comment> \<open>a null pointer is dereferenced\<close>
  | Bad_Ptr \<comment> \<open>a pointer or index outside the objects that exist\<close>
  | Uninitialised \<comment> \<open>an object is read before it got a value\<close>
  | Div_By_Zero
  | Unrepresentable \<comment> \<open>\<open>atoi\<close> of a number that is no \<open>int\<close>\<close>
  | No_Return \<comment> \<open>a loop never ends\<close>

type_synonym 'a res = "cxx_error + 'a"

definition bind_res :: "'a res \<Rightarrow> ('a \<Rightarrow> 'b res) \<Rightarrow> 'b res" where
  "bind_res m f = (case m of Inl e \<Rightarrow> Inl e | Inr a \<Rightarrow> f a)"

definition no_throw :: "'a res \<Rightarrow> 'a res" where
  \<comment> \<open>a \<open>noexcept\<close> function, or the function of a thread\<close>
  "no_throw m =
     (case m of Inl (Thrown _) \<Rightarrow> Inl Terminate | Inl (Thrown_Other _) \<Rightarrow> Inl Terminate | _ \<Rightarrow> m)"

definition log_fatal :: "bool \<Rightarrow> 'a \<Rightarrow> 'a res" where
  \<comment> \<open>\<open>LOG(FATAL)\<close> followed by a return of \<open>a\<close>; whether it aborts depends on the logging
      library the build links (a parameter)\<close>
  "log_fatal fatal a = (if fatal then Inl Fatal_Abort else Inr a)"

fun fold_res :: "('a \<Rightarrow> 's \<Rightarrow> 's res) \<Rightarrow> 'a list \<Rightarrow> 's \<Rightarrow> 's res" where
  "fold_res f [] s = Inr s"
| "fold_res f (x # xs) s = bind_res (f x s) (fold_res f xs)"

lemma bind_res_simps [simp]:
  "bind_res (Inl e) f = Inl e"
  "bind_res (Inr a) f = f a"
  by (simp_all add: bind_res_def)

text \<open>
  \<open>res_simps\<close> reads a successful result backwards, \<open>case_splits\<close> are the splits of the tests, tuples and
  options that the operations branch on.
\<close>

named_theorems res_simps \<open>what a successful result says of the operations it was made of\<close>

lemmas case_splits = if_splits prod.splits option.splits

lemma bind_res_eq_Inr [res_simps]:
  "bind_res m f = Inr b \<longleftrightarrow> (\<exists>a. m = Inr a \<and> f a = Inr b)"
  by (cases m) auto

lemma bind_res_InrE:
  assumes "bind_res m f = Inr b"
  obtains a where "m = Inr a" and "f a = Inr b"
  using assms by (auto simp: res_simps)

lemma log_fatal_Inr [res_simps]: "log_fatal fatal a = Inr b \<longleftrightarrow> \<not> fatal \<and> b = a"
  by (auto simp: log_fatal_def)

lemma bind_res_eq_Inl:
  "bind_res m f = Inl e \<longleftrightarrow> m = Inl e \<or> (\<exists>a. m = Inr a \<and> f a = Inl e)"
  by (cases m) auto

lemma no_throw_Inr [res_simps]: "no_throw m = Inr x \<longleftrightarrow> m = Inr x"
  by (auto simp: no_throw_def split: sum.splits cxx_error.splits)

lemma fold_res_append:
  "fold_res f (xs @ ys) s = bind_res (fold_res f xs s) (fold_res f ys)"
proof (induction xs arbitrary: s)
  case (Cons x xs)
  then show ?case by (cases "f x s") auto
qed simp

lemma fold_res_inv:
  assumes "fold_res f xs s = Inr t" and "P s"
    and "\<And>x u v. x \<in> set xs \<Longrightarrow> P u \<Longrightarrow> f x u = Inr v \<Longrightarrow> P v"
  shows "P t"
  using assms
proof (induction xs arbitrary: s)
  case (Cons x xs)
  then obtain u where u: "f x s = Inr u" "fold_res f xs u = Inr t"
    by (auto simp: res_simps)
  have "P u" using Cons.prems(2,3) u(1) by (meson list.set_intros(1))
  moreover have "\<And>y v w. y \<in> set xs \<Longrightarrow> P v \<Longrightarrow> f y v = Inr w \<Longrightarrow> P w"
    using Cons.prems(3) by (meson list.set_intros(2))
  ultimately show ?case using Cons.IH [OF u(2)] by blast
qed simp

text \<open>
  A loop that can be left early (\<open>break\<close>, or \<open>return\<close> inside of it): the body says whether to
  go on, the loop whether it came to its end.
\<close>

fun loop_res :: "('a \<Rightarrow> 's \<Rightarrow> (bool \<times> 's) res) \<Rightarrow> 'a list \<Rightarrow> 's \<Rightarrow> (bool \<times> 's) res" where
  "loop_res f [] s = Inr (True, s)"
| "loop_res f (x # xs) s =
     bind_res (f x s) (\<lambda>(go, t). if go then loop_res f xs t else Inr (False, t))"

lemma loop_res_inv:
  assumes "loop_res f xs s = Inr (go, t)" and "P s"
    and "\<And>x u g v. x \<in> set xs \<Longrightarrow> P u \<Longrightarrow> f x u = Inr (g, v) \<Longrightarrow> P v"
  shows "P t"
  using assms
proof (induction xs arbitrary: s)
  case (Cons x xs)
  then obtain g u where u: "f x s = Inr (g, u)"
    "(if g then loop_res f xs u else Inr (False, u)) = Inr (go, t)"
    by (auto simp: res_simps)
  have "P u" using Cons.prems(2,3) u(1) by (meson list.set_intros(1))
  moreover have "\<And>y v g w. y \<in> set xs \<Longrightarrow> P v \<Longrightarrow> f y v = Inr (g, w) \<Longrightarrow> P w"
    using Cons.prems(3) by (meson list.set_intros(2))
  ultimately show ?case using Cons.IH [of u] u(2) by (cases g) auto
qed simp

text \<open>What each completed round of a loop establishes and the later ones keep holds at its end.\<close>

lemma loop_res_all:
  assumes "loop_res f xs s = Inr (True, t)"
    and est: "\<And>x u v. x \<in> set xs \<Longrightarrow> f x u = Inr (True, v) \<Longrightarrow> Q x v"
    and keep: "\<And>x y u v g. Q x u \<Longrightarrow> f y u = Inr (g, v) \<Longrightarrow> Q x v"
    and "x \<in> set xs"
  shows "Q x t"
  using assms(1,4) est
proof (induction xs arbitrary: s)
  case (Cons y ys)
  then obtain u where u: "f y s = Inr (True, u)" "loop_res f ys u = Inr (True, t)"
    by (auto simp: res_simps split: if_splits)
  show ?case
  proof (cases "x \<in> set ys")
    case True
    then show ?thesis using Cons.IH [OF u(2)] Cons.prems(3) by simp
  next
    case False
    then have "Q x u" using Cons.prems u(1) by auto
    then show ?thesis by (rule loop_res_inv [OF u(2)]) (rule keep)
  qed
qed simp

section \<open>Machine integers\<close>

text \<open>
  \<open>int\<close> is 32 bits wide. \<open>int32\<close> is the conversion of any integral value to \<open>int\<close> (and the
  wrap-around of the atomic operations on it); \<open>size_of_int\<close> the conversion of an \<open>int\<close> to
  the 64-bit \<open>size_t\<close>, which the mixed comparisons and divisions of the code perform.
\<close>

definition int32 :: "int \<Rightarrow> int" where
  "int32 x = (x + 2 ^ 31) mod 2 ^ 32 - 2 ^ 31"

definition size_of_int :: "int \<Rightarrow> nat" where
  "size_of_int x = nat (x mod 2 ^ 64)"

lemma int32_id [simp]: "- (2 ^ 31) \<le> x \<Longrightarrow> x < 2 ^ 31 \<Longrightarrow> int32 x = x"
  by (simp add: int32_def)

lemma int32_range: "- (2 ^ 31) \<le> int32 x" "int32 x < 2 ^ 31"
  by (simp_all add: int32_def)

lemma size_of_int_nonneg [simp]: "0 \<le> x \<Longrightarrow> x < 2 ^ 64 \<Longrightarrow> size_of_int x = nat x"
  by (simp add: size_of_int_def)

section \<open>Registries: the first entry for a key wins\<close>

text \<open>
  The program keeps its factories, clients, channels, node configurations, graphs and
  callbacks in \<open>std::unordered_map\<close>s that are filled in one of two ways: \<open>insert\<close>, or
  \<open>find\<close> followed by an assignment when the key is absent. Both keep an entry that is
  already there.
\<close>

locale registry =
  fixes look :: "'m \<Rightarrow> 'k \<Rightarrow> 'v option"
    and ins :: "'k \<Rightarrow> 'v \<Rightarrow> 'm \<Rightarrow> 'm"
  assumes look_ins:
    "look (ins k v m) k' = (if k' = k \<and> look m k = None then Some v else look m k')"
begin

lemma first_wins: "look m k = Some v \<Longrightarrow> look (ins k w m) k = Some v"
  by (simp add: look_ins)

lemma other_key: "k' \<noteq> k \<Longrightarrow> look (ins k v m) k' = look m k'"
  by (simp add: look_ins)

lemma fresh_key: "look m k = None \<Longrightarrow> look (ins k v m) k = Some v"
  by (simp add: look_ins)

lemma look_fold:
  "look (fold (\<lambda>(k, v). ins k v) kvs m) k =
     (case look m k of Some v \<Rightarrow> Some v | None \<Rightarrow> map_of kvs k)"
proof (induction kvs arbitrary: m)
  case Nil
  then show ?case by (simp split: option.splits)
next
  case (Cons kv kvs)
  obtain k1 v1 where "kv = (k1, v1)" by force
  with Cons show ?case by (auto simp: look_ins split: option.splits)
qed

definition entered :: "('k \<Rightarrow> 'v \<Rightarrow> bool) \<Rightarrow> 'k set \<Rightarrow> 'm \<Rightarrow> 'm \<Rightarrow> bool" where
  \<comment> \<open>the keys of \<open>K\<close> that were free have got a value as described by \<open>P\<close>\<close>
  "entered P K m m' \<longleftrightarrow>
     (\<forall>k. case look m k of
            Some v \<Rightarrow> look m' k = Some v
          | None \<Rightarrow> if k \<in> K then \<exists>v. P k v \<and> look m' k = Some v else look m' k = None)"

lemma entered_ins:
  assumes "entered P K (ins k v m) m'" and "P k v"
  shows "entered P (insert k K) m m'"
  unfolding entered_def
proof
  fix x
  have "case look (ins k v m) x of Some w \<Rightarrow> look m' x = Some w
      | None \<Rightarrow> if x \<in> K then \<exists>w. P x w \<and> look m' x = Some w else look m' x = None"
    using assms(1) by (simp add: entered_def)
  then show "case look m x of Some w \<Rightarrow> look m' x = Some w
      | None \<Rightarrow> if x \<in> insert k K then \<exists>w. P x w \<and> look m' x = Some w else look m' x = None"
    using assms(2) by (cases "look m x") (auto simp: look_ins split: if_splits)
qed

lemma loop_ins:
  assumes "loop_res f ks m = Inr (True, m')"
    and "\<And>k u v. k \<in> set ks \<Longrightarrow> f k u = Inr (True, v) \<Longrightarrow> \<exists>x. P k x \<and> v = ins k x u"
  shows "entered P (set ks) m m'"
  using assms
proof (induction ks arbitrary: m)
  case Nil
  then show ?case by (simp add: entered_def split: option.splits)
next
  case (Cons k ks)
  then obtain u where u: "f k m = Inr (True, u)" "loop_res f ks u = Inr (True, m')"
    by (auto simp: res_simps split: if_splits)
  obtain x where "P k x" "u = ins k x m" using Cons.prems(2) [OF _ u(1)] by auto
  moreover have "entered P (set ks) u m'" using Cons.IH [OF u(2)] Cons.prems(2) by simp
  ultimately show ?case using entered_ins by simp
qed

lemma fold_ins:
  assumes "fold_res f ks m = Inr m'"
    and "\<And>k u v. k \<in> set ks \<Longrightarrow> f k u = Inr v \<Longrightarrow> \<exists>x. P k x \<and> v = ins k x u"
  shows "entered P (set ks) m m'"
  using assms
proof (induction ks arbitrary: m)
  case Nil
  then show ?case by (simp add: entered_def split: option.splits)
next
  case (Cons k ks)
  then obtain u where u: "f k m = Inr u" "fold_res f ks u = Inr m'"
    by (auto simp: res_simps)
  obtain x where "P k x" "u = ins k x m" using Cons.prems(2) [OF _ u(1)] by auto
  moreover have "entered P (set ks) u m'" using Cons.IH [OF u(2)] Cons.prems(2) by simp
  ultimately show ?case using entered_ins by simp
qed

end

definition umap_insert :: "'k \<Rightarrow> 'v \<Rightarrow> ('k \<rightharpoonup> 'v) \<Rightarrow> ('k \<rightharpoonup> 'v)" where
  "umap_insert k v m = (case m k of None \<Rightarrow> m(k \<mapsto> v) | Some _ \<Rightarrow> m)"

interpretation umap: registry "\<lambda>m. m" umap_insert
  by unfold_locales (auto simp: umap_insert_def split: option.splits)

section \<open>Atomic countdowns\<close>

text \<open>
  \<open>std::atomic<int>\<close> counters that a group of finishing activities decrements: the one that
  reads 1 goes on alone. The laws say what \<open>fetch_sub(1)\<close> returns and stores.
\<close>

locale countdown =
  fixes val :: "'c \<Rightarrow> int"
    and dec :: "'c \<Rightarrow> int \<times> 'c"
  assumes dec_old: "fst (dec c) = val c"
    and dec_new: "0 < val c \<Longrightarrow> val (snd (dec c)) = val c - 1"
begin

lemma val_after:
  "int k \<le> val c \<Longrightarrow> val (((\<lambda>c. snd (dec c)) ^^ k) c) = val c - int k"
proof (induction k)
  case (Suc k)
  then show ?case by (simp add: dec_new)
qed simp

lemma fires_at_last:
  assumes "0 < n" and "val c = int n" and "k < n"
  shows "fst (dec (((\<lambda>c. snd (dec c)) ^^ k) c)) = 1 \<longleftrightarrow> Suc k = n"
  using assms val_after [of k c] by (auto simp: dec_old)

end

type_synonym atomic_int = "32 word"

definition fetch_sub1 :: "atomic_int \<Rightarrow> int \<times> atomic_int" where
  "fetch_sub1 c = (sint c, c - 1)"

lemma fetch_sub1_fst [simp]: "fst (fetch_sub1 c) = sint c"
  by (simp add: fetch_sub1_def)

lemma fetch_sub1_snd [simp]: "snd (fetch_sub1 c) = c - 1"
  by (simp add: fetch_sub1_def)

lemma sint_of_nat32: "n < 2 ^ 31 \<Longrightarrow> sint (of_nat n :: atomic_int) = int n"
  by (simp add: sint_uint unsigned_of_nat take_bit_nat_eq_self signed_take_bit_int_eq_self)

lemma sint_dec32: "0 < sint (c :: atomic_int) \<Longrightarrow> sint (c - 1) = sint c - 1"
  using sint_lt [of c] by (simp add: sint_word_diff signed_take_bit_int_eq_self)

interpretation atomic_int: countdown sint fetch_sub1
  by unfold_locales (simp_all add: sint_dec32)

section \<open>Transition systems\<close>

text \<open>
  A step relation with an invariant, and one whose steps decrease a measure: every run then
  ends, after at most as many steps as the measure of the start.
\<close>

locale invariant_system =
  fixes step :: "'s \<Rightarrow> 's \<Rightarrow> bool"
    and inv :: "'s \<Rightarrow> bool"
  assumes step_inv: "inv s \<Longrightarrow> step s t \<Longrightarrow> inv t"
begin

lemma steps_inv: "step\<^sup>*\<^sup>* s t \<Longrightarrow> inv s \<Longrightarrow> inv t"
  by (induction rule: rtranclp_induct) (auto intro: step_inv)

lemma relpow_inv: "(step ^^ n) s t \<Longrightarrow> inv s \<Longrightarrow> inv t"
  by (meson relpowp_imp_rtranclp steps_inv)

end

locale terminating_system = invariant_system +
  fixes mu :: "'s \<Rightarrow> nat"
  assumes step_mu: "inv s \<Longrightarrow> step s t \<Longrightarrow> mu t < mu s"
begin

lemma run_bound: "(step ^^ n) s t \<Longrightarrow> inv s \<Longrightarrow> n + mu t \<le> mu s"
proof (induction n arbitrary: t)
  case (Suc n)
  from Suc.prems(1) obtain u where u: "(step ^^ n) s u" "step u t" by auto
  with Suc.prems(2) have "mu t < mu u" by (blast intro: step_mu relpow_inv)
  with Suc.IH [OF u(1) Suc.prems(2)] show ?case by simp
qed auto

lemma ends: "inv s \<Longrightarrow> \<exists>t. step\<^sup>*\<^sup>* s t \<and> (\<forall>u. \<not> step t u)"
proof (induction "mu s" arbitrary: s rule: less_induct)
  case less
  show ?case
  proof (cases "\<exists>u. step s u")
    case True
    then obtain u where u: "step s u" by blast
    with less show ?thesis
      by (meson converse_rtranclp_into_rtranclp step_inv step_mu)
  qed blast
qed

lemma no_infinite_run: "inv (f 0) \<Longrightarrow> \<exists>i. \<not> step (f i) (f (Suc i))"
proof (rule ccontr)
  assume i0: "inv (f 0)" and "\<nexists>i. \<not> step (f i) (f (Suc i))"
  then have st: "step (f i) (f (Suc i))" for i by blast
  have "(step ^^ n) (f 0) (f n)" for n
    by (induction n) (auto intro: st)
  from run_bound [OF this [of "Suc (mu (f 0))"] i0] show False by simp
qed

end

text \<open>
  A concrete system implements an abstract one: each of its steps is some steps of the abstraction,
  and what every abstract run keeps holds of the abstraction of every concrete state.
\<close>

locale simulation = invariant_system conc inv
  for conc :: "'c \<Rightarrow> 'c \<Rightarrow> bool" and inv :: "'c \<Rightarrow> bool" +
  fixes abst :: "'a \<Rightarrow> 'a \<Rightarrow> bool" and view :: "'c \<Rightarrow> 'a"
  assumes step_sim: "inv s \<Longrightarrow> conc s t \<Longrightarrow> abst\<^sup>*\<^sup>* (view s) (view t)"
begin

lemma runs_sim: "conc\<^sup>*\<^sup>* s t \<Longrightarrow> inv s \<Longrightarrow> abst\<^sup>*\<^sup>* (view s) (view t)"
proof (induction rule: rtranclp_induct)
  case (step t u)
  then show ?case using step_sim [OF steps_inv [OF step.hyps(1) step.prems] step.hyps(2)]
    by (meson rtranclp_trans)
qed simp

lemma view_inv:
  assumes "conc\<^sup>*\<^sup>* s t" and "inv s" and "I (view s)" and "\<And>a b. I a \<Longrightarrow> abst a b \<Longrightarrow> I b"
  shows "I (view t)"
  using runs_sim [OF assms(1,2)] assms(3) by (induction rule: rtranclp_induct) (auto intro: assms(4))

end

text \<open>Implementations compose.\<close>

locale simulation_chain = lower: simulation conc inv mid view + upper: simulation mid inv' abst view'
  for conc :: "'c \<Rightarrow> 'c \<Rightarrow> bool" and inv :: "'c \<Rightarrow> bool" and mid :: "'m \<Rightarrow> 'm \<Rightarrow> bool" and view :: "'c \<Rightarrow> 'm"
    and inv' :: "'m \<Rightarrow> bool" and abst :: "'a \<Rightarrow> 'a \<Rightarrow> bool" and view' :: "'m \<Rightarrow> 'a" +
  assumes view_ok: "inv s \<Longrightarrow> inv' (view s)"

sublocale simulation_chain \<subseteq> chain: simulation conc inv abst "\<lambda>s. view' (view s)"
  by unfold_locales (meson lower.step_sim upper.runs_sim view_ok)

section \<open>Lists\<close>

lemma nth_split: "i < length xs \<Longrightarrow> xs = take i xs @ xs ! i # drop (Suc i) xs"
  by (simp add: id_take_nth_drop)

lemma count_list_take_Suc:
  "i < length xs \<Longrightarrow>
   count_list (take (Suc i) xs) q = count_list (take i xs) q + (if xs ! i = q then 1 else 0)"
  by (simp add: take_Suc_conv_app_nth)

lemma count_list_take_le: "count_list (take i xs) q \<le> count_list xs q"
  by (metis append_take_drop_id count_list_append le_add1)

lemma sum_list_list_update:
  fixes f :: "'a \<Rightarrow> 'b :: comm_monoid_add"
  assumes "i < length xs"
  shows "sum_list (map f (xs[i := x])) + f (xs ! i) = sum_list (map f xs) + f x"
  using assms
proof (induction xs arbitrary: i)
  case (Cons a xs)
  then show ?case by (cases i) (auto simp: ac_simps)
qed simp

lemma sum_point:
  \<comment> \<open>two functions that differ at one point\<close>
  fixes f g :: "'a \<Rightarrow> nat"
  assumes "finite A" and "a \<in> A" and "\<forall>x\<in>A. x \<noteq> a \<longrightarrow> f x = g x"
  shows "sum f A + g a = sum g A + f a"
proof -
  have "sum f (A - {a}) = sum g (A - {a})" using assms(3) by (intro sum.cong) auto
  then show ?thesis using assms(1,2) by (simp add: sum.remove)
qed

end
