(* ===== verification/Graph.thy ===== *)
theory Graph
  imports Prelude
begin

text \<open>
  \<open>frame/graph.h\<close>: nodes, edges, the breadth-first collection of a graph's nodes and the
  cycle check. The nodes of one graph live in a list; a \<open>Node*\<close> is an index into it (in the
  order of allocation), and a pointer that may be null is an option.
\<close>

section \<open>Nodes\<close>

type_synonym ptr = nat

record node =
  name :: string
  node_id :: int
  input_num_4_check :: int
  input_num :: int
  out_nodes :: "ptr list"
  service_context_factory :: string \<comment> \<open>the class whose factory made the node\<close>

definition deref :: "node list \<Rightarrow> ptr \<Rightarrow> node res" where
  "deref h p = (if p < length h then Inr (h ! p) else Inl Bad_Ptr)"

definition upd_node :: "ptr \<Rightarrow> (node \<Rightarrow> node) \<Rightarrow> node list \<Rightarrow> node list" where
  "upd_node p f h = (if p < length h then h[p := f (h ! p)] else h)"

definition incr_input_num :: "ptr \<Rightarrow> node list \<Rightarrow> node list" where
  "incr_input_num p = upd_node p (\<lambda>n. n\<lparr>input_num := input_num n + 1\<rparr>)"

definition add_output :: "ptr \<Rightarrow> ptr \<Rightarrow> node list \<Rightarrow> node list" where
  "add_output p q h =
     (let h1 = upd_node p (\<lambda>n. n\<lparr>out_nodes := out_nodes n @ [q]\<rparr>) h;
          h2 = upd_node q (\<lambda>n. n\<lparr>input_num_4_check := input_num_4_check n + 1\<rparr>) h1
      in incr_input_num q h2)"

section \<open>Graphs\<close>

record graph =
  max_node_id :: int
  root_node :: "ptr option"
  all_nodes :: "ptr list"
  graph_name :: string

definition new_graph :: graph where
  "new_graph = \<lparr>max_node_id = 0, root_node = None, all_nodes = [],
     graph_name = ''graph_default_name''\<rparr>"

text \<open>
  The loop of \<open>Graph::init\<close>: \<open>seen\<close> is the \<open>std::set\<close>, \<open>all\<close> the vector \<open>all_nodes\<close>. The
  queue may hold a null pointer (the root is not checked before it is pushed), which is
  dereferenced as soon as it is taken out.
\<close>

lemma card_unseen:
  "(p :: nat) < n \<Longrightarrow> p \<notin> S \<Longrightarrow> card ({..<n} - insert p S) < card ({..<n} - S)"
  by (rule psubset_card_mono) auto

function bfs :: "node list \<Rightarrow> ptr option list \<Rightarrow> ptr set \<Rightarrow> ptr list \<Rightarrow> ptr list res" where
  "bfs h [] seen all = Inr all"
| "bfs h (None # q) seen all = Inl Null_Deref"
| "bfs h (Some p # q) seen all =
     (if p \<in> seen then bfs h q seen all
      else case deref h p of
        Inl e \<Rightarrow> Inl e
      | Inr n \<Rightarrow> bfs h (q @ map Some (out_nodes n)) (insert p seen) (all @ [p]))"
  by pat_completeness auto
termination
  by (relation "measures [\<lambda>(h, q, seen, all). card ({..<length h} - seen),
                          \<lambda>(h, q, seen, all). length q]")
    (auto simp: deref_def card_unseen simp del: card_Diff_insert
      split: if_splits)

text \<open>
  \<open>Graph::check\<close>. The inner loop over the outputs of one node decrements their check
  counters and returns the nodes to append to \<open>zero_input_node\<close>.
\<close>

fun check_outputs :: "ptr list \<Rightarrow> node list \<Rightarrow> (node list \<times> ptr list) res" where
  "check_outputs [] h = Inr (h, [])"
| "check_outputs (n # ns) h =
     (case deref h n of
        Inl e \<Rightarrow> Inl e
      | Inr d \<Rightarrow>
          (case check_outputs ns (h[n := d\<lparr>input_num_4_check := input_num_4_check d - 1\<rparr>]) of
             Inl e \<Rightarrow> Inl e
           | Inr (h', zs) \<Rightarrow>
               Inr (h', if input_num_4_check d - 1 = 0 then n # zs else zs)))"

definition positive :: "node list \<Rightarrow> nat" where
  "positive h = length (filter (\<lambda>n. 0 < input_num_4_check n) h)"

lemma positive_list_update:
  assumes "p < length h"
  shows "positive (h[p := d]) + (if 0 < input_num_4_check (h ! p) then 1 else 0) =
         positive h + (if 0 < input_num_4_check d then 1 else 0)"
proof -
  have pos: "positive h = sum_list (map (\<lambda>n. if 0 < input_num_4_check n then 1 else 0) h)" for h
    unfolding positive_def by (induction h) auto
  show ?thesis
    using sum_list_list_update
      [OF assms, of "\<lambda>n. if 0 < input_num_4_check n then 1 else 0" d]
    by (simp add: pos)
qed

lemma check_outputs_positive:
  "check_outputs ns h = Inr (h', zs) \<Longrightarrow> positive h' + length zs \<le> positive h"
proof (induction ns arbitrary: h h' zs)
  case (Cons n ns)
  let ?d = "(h ! n)\<lparr>input_num_4_check := input_num_4_check (h ! n) - 1\<rparr>"
  from Cons.prems have n: "n < length h" by (auto simp: deref_def split: if_splits)
  with Cons.prems obtain zs' where zs': "check_outputs ns (h[n := ?d]) = Inr (h', zs')"
    and zs: "zs = (if input_num_4_check (h ! n) - 1 = 0 then n # zs' else zs')"
    by (auto simp: deref_def split: sum.splits)
  have "positive h' + length zs' \<le> positive (h[n := ?d])" using Cons.IH [OF zs'] .
  with positive_list_update [OF n, of ?d] zs show ?case by (auto split: if_splits)
qed simp

text \<open>
  The loop over \<open>zero_input_node\<close>; \<open>flags\<close> is \<open>del_flag_map\<close>. A node is appended only when
  its counter reaches zero from above, so the loop ends on every heap.
\<close>

function check_loop ::
    "node list \<Rightarrow> ptr list \<Rightarrow> (ptr \<rightharpoonup> bool) \<Rightarrow> (node list \<times> (ptr \<rightharpoonup> bool)) res" where
  "check_loop h [] flags = Inr (h, flags)"
| "check_loop h (r # zs) flags =
     (case deref h r of
        Inl e \<Rightarrow> Inl e
      | Inr d \<Rightarrow>
          (case check_outputs (out_nodes d) h of
             Inl e \<Rightarrow> Inl e
           | Inr (h', ready) \<Rightarrow> check_loop h' (zs @ ready) (flags(r \<mapsto> True))))"
  by pat_completeness auto
termination
  by (relation "measure (\<lambda>(h, zs, flags). positive h + length zs)")
    (auto dest!: check_outputs_positive)

definition check :: "bool \<Rightarrow> graph \<Rightarrow> node list \<Rightarrow> (bool \<times> node list) res" where
  "check fatal g h =
     (let flags = map_of (map (\<lambda>n. (n, False)) (all_nodes g))
      in case root_node g of
           None \<Rightarrow> log_fatal fatal (False, h)
         | Some r \<Rightarrow>
             bind_res (deref h r) (\<lambda>d.
               if input_num_4_check d = 0
               then bind_res (check_loop h [r] flags) (\<lambda>(h', flags').
                 \<comment> \<open>only nodes of \<open>all_nodes\<close> were entered with the value false\<close>
                 if list_ex (\<lambda>n. flags' n = Some False) (all_nodes g)
                 then log_fatal fatal (False, h')
                 else Inr (True, h'))
               else log_fatal fatal (False, h)))"

definition init :: "bool \<Rightarrow> ptr option \<Rightarrow> string \<Rightarrow> graph \<Rightarrow> node list \<Rightarrow>
    (int \<times> graph \<times> node list) res" where
  "init fatal root gname g h =
     (let g1 = (if gname \<noteq> [] then g\<lparr>graph_name := gname\<rparr> else g);
          g2 = g1\<lparr>root_node := root\<rparr>
      in bind_res (bfs h [root] {} []) (\<lambda>all.
         let g3 = g2\<lparr>all_nodes := all\<rparr>
         in bind_res (check fatal g3 h) (\<lambda>(valid, h').
            Inr (if valid then 0 else -1, g3, h'))))"

end
