(* ===== verification/GraphSpec.thy ===== *)
theory GraphSpec
  imports Graph
begin

text \<open>
  What \<open>Graph::init\<close> and \<open>Graph::check\<close> compute, stated on the edge relation: the nodes
  reachable from the root, and the nodes that fire when every node waits for all its
  inputs. The lemmas about partially notified inputs serve both the check and the
  execution of a graph.
\<close>

section \<open>Edges, in-degrees and firing\<close>

definition edges :: "node list \<Rightarrow> (ptr \<times> ptr) set" where
  "edges h = {(p, q). p < length h \<and> q \<in> set (out_nodes (h ! p))}"

definition indeg :: "node list \<Rightarrow> ptr \<Rightarrow> nat" where
  "indeg h q = (\<Sum>p<length h. count_list (out_nodes (h ! p)) q)"

definition closed_heap :: "node list \<Rightarrow> bool" where
  "closed_heap h \<longleftrightarrow> (\<forall>p<length h. set (out_nodes (h ! p)) \<subseteq> {..<length h})"

definition counts_ok :: "node list \<Rightarrow> bool" where
  "counts_ok h \<longleftrightarrow> (\<forall>q<length h. input_num (h ! q) = int (indeg h q))"

definition check_fresh :: "node list \<Rightarrow> bool" where
  "check_fresh h \<longleftrightarrow> (\<forall>q<length h. input_num_4_check (h ! q) = int (indeg h q))"

definition reach :: "node list \<Rightarrow> ptr \<Rightarrow> ptr set" where
  "reach h r = {p. (r, p) \<in> (edges h)\<^sup>*}"

inductive fires :: "node list \<Rightarrow> ptr \<Rightarrow> ptr \<Rightarrow> bool" for h r where
  root: "r < length h \<Longrightarrow> fires h r r"
| inputs: "0 < indeg h q \<Longrightarrow> q < length h \<Longrightarrow>
     (\<And>p. (p, q) \<in> edges h \<Longrightarrow> fires h r p) \<Longrightarrow> fires h r q"

text \<open>\<open>notified h cur q\<close>: how many inputs of \<open>q\<close> arrived when each \<open>p\<close> has notified its
  first \<open>cur p\<close> outputs.\<close>

definition notified :: "node list \<Rightarrow> (ptr \<Rightarrow> nat) \<Rightarrow> ptr \<Rightarrow> nat" where
  "notified h cur q = (\<Sum>p<length h. count_list (take (cur p) (out_nodes (h ! p))) q)"

lemma edgesI: "p < length h \<Longrightarrow> q \<in> set (out_nodes (h ! p)) \<Longrightarrow> (p, q) \<in> edges h"
  by (simp add: edges_def)

lemma edges_bound:
  "closed_heap h \<Longrightarrow> (p, q) \<in> edges h \<Longrightarrow> p < length h \<and> q < length h"
  by (auto simp: edges_def closed_heap_def)

lemma finite_edges: "finite (edges h)"
proof (rule finite_subset)
  show "edges h \<subseteq> (SIGMA p:{..<length h}. set (out_nodes (h ! p)))"
    by (auto simp: edges_def)
qed auto

lemma indeg_pos: "0 < indeg h q \<longleftrightarrow> (\<exists>p. (p, q) \<in> edges h)"
proof -
  have "indeg h q = 0 \<longleftrightarrow> (\<forall>p<length h. q \<notin> set (out_nodes (h ! p)))"
    by (simp add: indeg_def count_list_0_iff lessThan_def)
  then show ?thesis by (auto simp: edges_def)
qed

lemma indeg_0: "indeg h q = 0 \<longleftrightarrow> (\<forall>p. (p, q) \<notin> edges h)"
  using indeg_pos [of h q] by auto

lemma notified_le: "notified h cur q \<le> indeg h q"
  unfolding notified_def indeg_def by (rule sum_mono) (rule count_list_take_le)

lemma notified_0 [simp]: "notified h (\<lambda>_. 0) q = 0"
  by (simp add: notified_def)

lemma notified_update:
  assumes "p < length h"
  shows "notified h (cur(p := k)) q + count_list (take (cur p) (out_nodes (h ! p))) q =
         notified h cur q + count_list (take k (out_nodes (h ! p))) q"
proof -
  let ?f = "\<lambda>cur x. count_list (take (cur x) (out_nodes (h ! x))) q"
  have split: "notified h c q = ?f c p + sum (?f c) ({..<length h} - {p})" for c
    using assms unfolding notified_def by (simp add: sum.remove)
  have "sum (?f (cur(p := k))) ({..<length h} - {p}) = sum (?f cur) ({..<length h} - {p})"
    by (rule sum.cong) auto
  then show ?thesis using split [of cur] split [of "cur(p := k)"] by simp
qed

lemma notified_Suc:
  assumes "p < length h" and "cur p < length (out_nodes (h ! p))"
  shows "notified h (cur(p := Suc (cur p))) q =
         notified h cur q + (if out_nodes (h ! p) ! cur p = q then 1 else 0)"
  using notified_update [OF assms(1), of cur "Suc (cur p)" q]
    count_list_take_Suc [OF assms(2), of q] by linarith

lemma notified_full:
  assumes "notified h cur q = indeg h q" and "p < length h"
  shows "count_list (take (cur p) (out_nodes (h ! p))) q = count_list (out_nodes (h ! p)) q"
proof (rule ccontr)
  assume ne: "\<not> ?thesis"
  have "notified h cur q < indeg h q"
    unfolding notified_def indeg_def
  proof (rule sum_strict_mono_ex1)
    show "\<exists>a\<in>{..<length h}. count_list (take (cur a) (out_nodes (h ! a))) q
        < count_list (out_nodes (h ! a)) q"
      using assms(2) ne count_list_take_le by (metis lessThan_iff nat_less_le)
  qed (auto simp: count_list_take_le)
  with assms(1) show False by simp
qed

lemma notified_full_edge:
  assumes "notified h cur q = indeg h q" and "(p, q) \<in> edges h"
  shows "0 < cur p"
proof -
  from assms(2) have p: "p < length h" "q \<in> set (out_nodes (h ! p))"
    by (auto simp: edges_def)
  with notified_full [OF assms(1) p(1)] show ?thesis
    by (metis count_list_0_iff count_list.simps(1) gr0I take0)
qed

lemma notified_all_preds:
  assumes "\<And>p. (p, q) \<in> edges h \<Longrightarrow> cur p = length (out_nodes (h ! p))"
  shows "notified h cur q = indeg h q"
  unfolding notified_def indeg_def
proof (rule sum.cong)
  fix p assume p: "p \<in> {..<length h}"
  show "count_list (take (cur p) (out_nodes (h ! p))) q = count_list (out_nodes (h ! p)) q"
  proof (cases "q \<in> set (out_nodes (h ! p))")
    case True
    with p assms show ?thesis by (simp add: edgesI)
  next
    case False
    moreover from False have "q \<notin> set (take (cur p) (out_nodes (h ! p)))"
      by (blast dest: in_set_takeD)
    ultimately show ?thesis by simp
  qed
qed simp

section \<open>Heaps that differ in the check counters only\<close>

definition same_nodes :: "node list \<Rightarrow> node list \<Rightarrow> bool" where
  "same_nodes h h' \<longleftrightarrow> length h' = length h \<and>
     (\<forall>p<length h. \<exists>c. h' ! p = (h ! p)\<lparr>input_num_4_check := c\<rparr>)"

lemma same_nodes_refl [simp]: "same_nodes h h"
  unfolding same_nodes_def by (metis node.surjective node.update_convs(3))

lemma same_nodes_len: "same_nodes h h' \<Longrightarrow> length h' = length h"
  by (simp add: same_nodes_def)

lemma same_nodes_fields:
  assumes "same_nodes h h'" and "p < length h"
  shows "out_nodes (h' ! p) = out_nodes (h ! p)" and "input_num (h' ! p) = input_num (h ! p)"
    and "node_id (h' ! p) = node_id (h ! p)" and "name (h' ! p) = name (h ! p)"
    and "service_context_factory (h' ! p) = service_context_factory (h ! p)"
  using assms by (auto simp: same_nodes_def)

lemma same_nodes_trans: "same_nodes h h' \<Longrightarrow> same_nodes h' h'' \<Longrightarrow> same_nodes h h''"
  by (fastforce simp: same_nodes_def)

lemma same_nodes_edges: "same_nodes h h' \<Longrightarrow> edges h' = edges h"
  by (auto simp: edges_def same_nodes_len same_nodes_fields)

lemma same_nodes_indeg: "same_nodes h h' \<Longrightarrow> indeg h' q = indeg h q"
  by (simp add: indeg_def same_nodes_len same_nodes_fields)

lemma same_nodes_closed: "same_nodes h h' \<Longrightarrow> closed_heap h' = closed_heap h"
  by (simp add: closed_heap_def same_nodes_len same_nodes_fields)

lemma same_nodes_counts: "same_nodes h h' \<Longrightarrow> counts_ok h' = counts_ok h"
  by (simp add: counts_ok_def same_nodes_len same_nodes_fields same_nodes_indeg)

lemma same_nodes_update:
  "same_nodes h (h[n := (h ! n)\<lparr>input_num_4_check := c\<rparr>])"
proof -
  have "\<exists>c'. h[n := (h ! n)\<lparr>input_num_4_check := c\<rparr>] ! p = (h ! p)\<lparr>input_num_4_check := c'\<rparr>"
    if "p < length h" for p
  proof (cases "p = n")
    case True
    with that show ?thesis by auto
  next
    case False
    with that have "h[n := (h ! n)\<lparr>input_num_4_check := c\<rparr>] ! p =
        (h ! p)\<lparr>input_num_4_check := input_num_4_check (h ! p)\<rparr>" by simp
    then show ?thesis by blast
  qed
  then show ?thesis by (simp add: same_nodes_def)
qed

section \<open>The cycle check\<close>

lemma check_outputs_spec:
  assumes "set ns \<subseteq> {..<length h}"
  obtains h' zs where "check_outputs ns h = Inr (h', zs)" and "same_nodes h h'"
    and "\<And>q. q < length h \<Longrightarrow>
      input_num_4_check (h' ! q) = input_num_4_check (h ! q) - int (count_list ns q)"
    and "distinct zs"
    and "\<And>q. q \<in> set zs \<longleftrightarrow> q < length h \<and> 1 \<le> input_num_4_check (h ! q) \<and>
      input_num_4_check (h ! q) \<le> int (count_list ns q)"
  using assms
proof (induction ns arbitrary: h thesis)
  case Nil
  show ?case by (rule Nil.prems(1) [of h "[]"]) auto
next
  case (Cons n ns)
  let ?d = "(h ! n)\<lparr>input_num_4_check := input_num_4_check (h ! n) - 1\<rparr>"
  let ?h1 = "h[n := ?d]"
  let ?hit = "input_num_4_check (h ! n) - 1 = 0"
  from Cons.prems(2) have n: "n < length h" and ns: "set ns \<subseteq> {..<length ?h1}" by auto
  from Cons.IH [OF _ ns] obtain h' zs where h': "check_outputs ns ?h1 = Inr (h', zs)"
    and same: "same_nodes ?h1 h'"
    and cnt: "\<And>q. q < length h \<Longrightarrow>
      input_num_4_check (h' ! q) = input_num_4_check (?h1 ! q) - int (count_list ns q)"
    and dist: "distinct zs"
    and zs: "\<And>q. q \<in> set zs \<longleftrightarrow> q < length h \<and> 1 \<le> input_num_4_check (?h1 ! q) \<and>
      input_num_4_check (?h1 ! q) \<le> int (count_list ns q)" by (metis length_list_update)
  have "same_nodes h ?h1" by (rule same_nodes_update)
  then have "same_nodes h h'" using same by (rule same_nodes_trans)
  moreover have "check_outputs (n # ns) h = Inr (h', if ?hit then n # zs else zs)"
    using n h' by (simp add: deref_def)
  moreover have "distinct (if ?hit then n # zs else zs)" using dist zs n by auto
  ultimately show ?case
    using n by (intro Cons.prems(1) [of h' "if ?hit then n # zs else zs"])
      (auto simp: cnt zs nth_list_update)
qed

definition spent :: "node list \<Rightarrow> ptr \<Rightarrow> node list \<Rightarrow> bool" where
  \<comment> \<open>the check counters once every node that fires has been deleted\<close>
  "spent h r h' \<longleftrightarrow> (\<forall>q<length h. input_num_4_check (h' ! q) = int (indeg h q) -
     int (notified h (\<lambda>p. if fires h r p then length (out_nodes (h ! p)) else 0) q))"

text \<open>
  The loop, from any point: \<open>D\<close> are the nodes already deleted, \<open>zs\<close> those that are ready. It deletes exactly
  the nodes that fire.
\<close>

definition deleting :: "node list \<Rightarrow> ptr \<Rightarrow> node list \<Rightarrow> ptr list \<Rightarrow> ptr set \<Rightarrow> bool" where
  "deleting h0 r h zs D \<longleftrightarrow> closed_heap h0 \<and> indeg h0 r = 0 \<and> r < length h0 \<and> same_nodes h0 h \<and>
     set zs \<union> D \<subseteq> {q. q < length h0 \<and> fires h0 r q} \<and> distinct zs \<and> set zs \<inter> D = {} \<and>
     (\<forall>q<length h0. input_num_4_check (h ! q) = int (indeg h0 q) -
        int (notified h0 (\<lambda>p. if p \<in> D then length (out_nodes (h0 ! p)) else 0) q)) \<and>
     (\<forall>q<length h0. q \<in> D \<union> set zs \<longleftrightarrow> q = r \<or> (0 < indeg h0 q \<and> input_num_4_check (h ! q) = 0))"

lemma deletingD:
  assumes "deleting h0 r h zs D"
  shows "closed_heap h0" and "indeg h0 r = 0" and "r < length h0" and "same_nodes h0 h"
    and "set zs \<union> D \<subseteq> {q. q < length h0 \<and> fires h0 r q}" and "distinct zs" and "set zs \<inter> D = {}"
    and "q < length h0 \<Longrightarrow> input_num_4_check (h ! q) = int (indeg h0 q) -
      int (notified h0 (\<lambda>p. if p \<in> D then length (out_nodes (h0 ! p)) else 0) q)"
    and "q < length h0 \<Longrightarrow> q \<in> D \<union> set zs \<longleftrightarrow> q = r \<or> (0 < indeg h0 q \<and> input_num_4_check (h ! q) = 0)"
  using assms unfolding deleting_def by blast+

lemma deleting_over:
  assumes del: "deleting h0 r h [] D"
  shows "D = {q. fires h0 r q}" and "spent h0 r h"
proof -
  note d = deletingD [OF del]
  have "q \<in> D" if "fires h0 r q" for q
    using that
  proof (induction rule: fires.induct)
    case root
    then show ?case using d(9) [of r] by simp
  next
    case (inputs q)
    then have "notified h0 (\<lambda>p. if p \<in> D then length (out_nodes (h0 ! p)) else 0) q = indeg h0 q"
      by (intro notified_all_preds) auto
    with inputs d(8,9) [of q] show ?case by simp
  qed
  with d(5) show D: "D = {q. fires h0 r q}" by auto
  show "spent h0 r h" using d(8) by (simp add: spent_def D)
qed

text \<open>Deleting a ready node makes its last-notified outputs ready.\<close>

lemma deleting_counts:
  assumes del: "deleting h0 r h (r' # zs) D" and cnt: "\<forall>q<length h.
      input_num_4_check (h1 ! q) = input_num_4_check (h ! q) - int (count_list (out_nodes (h0 ! r')) q)"
    and rd: "\<forall>q. q \<in> set ready \<longleftrightarrow> q < length h \<and> 1 \<le> input_num_4_check (h ! q) \<and>
      input_num_4_check (h ! q) \<le> int (count_list (out_nodes (h0 ! r')) q)"
    and q: "q < length h0"
  shows "input_num_4_check (h1 ! q) = int (indeg h0 q) -
      int (notified h0 (\<lambda>p. if p \<in> insert r' D then length (out_nodes (h0 ! p)) else 0) q)"
    and "q \<in> set ready \<longleftrightarrow> input_num_4_check (h1 ! q) = 0 \<and> 1 \<le> input_num_4_check (h ! q)"
    and "0 \<le> input_num_4_check (h1 ! q)" and "0 \<le> input_num_4_check (h ! q)"
    and "input_num_4_check (h1 ! q) \<le> input_num_4_check (h ! q)" and "input_num_4_check (h ! q) \<le> int (indeg h0 q)"
proof -
  let ?cur = "\<lambda>D p. if p \<in> D then length (out_nodes (h0 ! p)) else 0"
  note d = deletingD [OF del]
  have len: "length h = length h0" using d(4) by (rule same_nodes_len)
  have r': "r' < length h0" "r' \<notin> D" using d(5,7) by auto
  have "?cur (insert r' D) = (?cur D)(r' := length (out_nodes (h0 ! r')))" by auto
  then have "notified h0 (?cur (insert r' D)) q = notified h0 (?cur D) q + count_list (out_nodes (h0 ! r')) q"
    using notified_update [OF r'(1), of "?cur D" "length (out_nodes (h0 ! r'))" q] r'(2) by simp
  then show c: "input_num_4_check (h1 ! q) = int (indeg h0 q) - int (notified h0 (?cur (insert r' D)) q)"
    using q len cnt d(8) by simp
  show nn: "0 \<le> input_num_4_check (h1 ! q)" unfolding c using notified_le [of h0 "?cur (insert r' D)" q] by simp
  show "0 \<le> input_num_4_check (h ! q)" "input_num_4_check (h ! q) \<le> int (indeg h0 q)"
    unfolding d(8) [OF q] using notified_le [of h0 "?cur D" q] by simp_all
  show "input_num_4_check (h1 ! q) \<le> input_num_4_check (h ! q)" using cnt q len by simp
  show "q \<in> set ready \<longleftrightarrow> input_num_4_check (h1 ! q) = 0 \<and> 1 \<le> input_num_4_check (h ! q)"
    using nn cnt q len rd by auto
qed

lemma deleting_step:
  assumes del: "deleting h0 r h (r' # zs) D"
  obtains h1 ready where "check_outputs (out_nodes (h ! r')) h = Inr (h1, ready)"
    and "deleting h0 r h1 (zs @ ready) (insert r' D)"
proof -
  note d = deletingD [OF del]
  let ?D = "insert r' D"
  let ?cur = "\<lambda>D p. if p \<in> D then length (out_nodes (h0 ! p)) else 0"
  have r': "r' < length h0" "r' \<notin> D" "r' \<notin> set zs" using d(5-7) by auto
  have len: "length h = length h0" using d(4) by (rule same_nodes_len)
  have outs: "out_nodes (h ! r') = out_nodes (h0 ! r')" using d(4) r'(1) by (rule same_nodes_fields)
  have "set (out_nodes (h0 ! r')) \<subseteq> {..<length h}" using d(1) r'(1) len by (simp add: closed_heap_def)
  then obtain h1 ready where h1: "check_outputs (out_nodes (h0 ! r')) h = Inr (h1, ready)" "same_nodes h h1"
    and cnt: "\<forall>q<length h.
      input_num_4_check (h1 ! q) = input_num_4_check (h ! q) - int (count_list (out_nodes (h0 ! r')) q)"
    and dist: "distinct ready"
    and rd: "\<forall>q. q \<in> set ready \<longleftrightarrow> q < length h \<and> 1 \<le> input_num_4_check (h ! q) \<and>
      input_num_4_check (h ! q) \<le> int (count_list (out_nodes (h0 ! r')) q)"
    using check_outputs_spec [of "out_nodes (h0 ! r')" h] by metis
  note c = deleting_counts [OF del cnt rd]
  have bound: "q < length h0" if "q \<in> set ready" for q using rd that len by simp
  have fire: "fires h0 r q" if "q \<in> set ready" for q
  proof (rule fires.inputs)
    note q = bound [OF that]
    show "q < length h0" by (rule q)
    show "0 < indeg h0 q" using c(2,6) [OF q] that by simp
    have "notified h0 (?cur ?D) q = indeg h0 q" using c(1,2) [OF q] that by simp
    then have "p \<in> ?D" if "(p, q) \<in> edges h0" for p
      using notified_full_edge [of h0 "?cur ?D" q p] that by (simp split: if_splits)
    then show "fires h0 r p" if "(p, q) \<in> edges h0" for p using that d(5) by auto
  qed
  have out: "q \<notin> D \<union> set (r' # zs)" if "q \<in> set ready" for q
    using c(2) [OF bound [OF that]] that d(9) [OF bound [OF that]] d(2) d(8) [OF bound [OF that]] by auto
  have "q \<in> ?D \<union> set (zs @ ready) \<longleftrightarrow> q = r \<or> (0 < indeg h0 q \<and> input_num_4_check (h1 ! q) = 0)"
    if "q < length h0" for q using d(9) [OF that] c(2-6) [OF that] by auto
  moreover have "same_nodes h0 h1" using d(4) h1(2) by (rule same_nodes_trans)
  moreover have "set (zs @ ready) \<union> ?D \<subseteq> {q. q < length h0 \<and> fires h0 r q}" using d(5) fire bound by auto
  ultimately have "deleting h0 r h1 (zs @ ready) ?D"
    unfolding deleting_def using d(1-3,6,7) c(1) dist out r' by auto
  then show ?thesis using that h1(1) outs by simp
qed

lemma check_loop_spec:
  assumes "deleting h0 r h zs D"
  shows "\<exists>h'. same_nodes h0 h' \<and> spent h0 r h' \<and> check_loop h zs flags =
    Inr (h', \<lambda>q. if fires h0 r q \<and> q \<notin> D then Some True else flags q)"
  using assms
proof (induction h zs flags arbitrary: D rule: check_loop.induct)
  case (1 h flags)
  note over = deleting_over [OF 1]
  have "(\<lambda>q. if fires h0 r q \<and> q \<notin> D then Some True else flags q) = flags"
    by (auto simp: fun_eq_iff over(1))
  then show ?case using over(2) deletingD(4) [OF 1] by auto
next
  case (2 h r' zs flags D)
  note d = deletingD [OF "2.prems"]
  have r': "r' < length h" "fires h0 r r'" "r' \<notin> D" using d(5,7) same_nodes_len [OF d(4)] by auto
  then have der: "deref h r' = Inr (h ! r')" by (simp add: deref_def)
  obtain h1 ready where h1: "check_outputs (out_nodes (h ! r')) h = Inr (h1, ready)"
    "deleting h0 r h1 (zs @ ready) (insert r' D)" by (rule deleting_step [OF "2.prems"])
  from "2.IH" [OF der h1(1) refl h1(2)] obtain h' where h': "same_nodes h0 h'" "spent h0 r h'"
    "check_loop h1 (zs @ ready) (flags(r' \<mapsto> True)) =
      Inr (h', \<lambda>q. if fires h0 r q \<and> q \<notin> insert r' D then Some True else (flags(r' \<mapsto> True)) q)" by blast
  moreover have "(\<lambda>q. if fires h0 r q \<and> q \<notin> insert r' D then Some True else (flags(r' \<mapsto> True)) q) =
      (\<lambda>q. if fires h0 r q \<and> q \<notin> D then Some True else flags q)"
    using r' by (auto simp: fun_eq_iff)
  ultimately show ?case using der h1(1) by (intro exI [of _ h']) simp
qed

section \<open>The breadth-first collection\<close>

lemma absorb_into_right:
  "T \<subseteq> S' \<union> A \<Longrightarrow> A \<subseteq> B \<Longrightarrow> p \<in> B \<Longrightarrow> S' = insert p S \<Longrightarrow> T \<subseteq> S \<union> B"
  by blast

definition collects :: "node list \<Rightarrow> ptr option list \<Rightarrow> ptr list \<Rightarrow> ptr list \<Rightarrow> bool" where
  \<comment> \<open>\<open>all'\<close> is \<open>all\<close> and what the queue \<open>q\<close> reaches\<close>
  "collects h q all all' \<longleftrightarrow> distinct all' \<and>
    set all \<union> {p. Some p \<in> set q} \<subseteq> set all' \<and> edges h `` set all' \<subseteq> set all' \<and>
    set all' \<subseteq> set all \<union> (edges h)\<^sup>* `` {p. Some p \<in> set q}"

lemma collects_seen:
  assumes "p \<in> set all" and "collects h q all all'"
  shows "collects h (Some p # q) all all'"
proof -
  have "(edges h)\<^sup>* `` {x. Some x \<in> set q} \<subseteq> (edges h)\<^sup>* `` {x. Some x \<in> set (Some p # q)}"
    by (rule Image_mono) auto
  with assms show ?thesis unfolding collects_def by auto
qed

lemma collects_visit:
  assumes p: "p < length h" and c: "collects h (q @ map Some (out_nodes (h ! p))) (all @ [p]) all'"
  shows "collects h (Some p # q) all all'"
proof -
  let ?q = "q @ map Some (out_nodes (h ! p))"
  have outs: "set (out_nodes (h ! p)) = edges h `` {p}" using p by (auto simp: edges_def)
  have "set all' \<subseteq> set (all @ [p]) \<union> (edges h)\<^sup>* `` {p. Some p \<in> set ?q}" using c by (simp add: collects_def)
  moreover have "(edges h)\<^sup>* `` {p. Some p \<in> set ?q} \<subseteq> (edges h)\<^sup>* `` {x. Some x \<in> set (Some p # q)}"
    using outs by (auto intro: converse_rtrancl_into_rtrancl)
  moreover have "p \<in> (edges h)\<^sup>* `` {x. Some x \<in> set (Some p # q)}" by auto
  moreover have "set (all @ [p]) = insert p (set all)" by simp
  ultimately have "set all' \<subseteq> set all \<union> (edges h)\<^sup>* `` {x. Some x \<in> set (Some p # q)}"
    by (rule absorb_into_right)
  with c show ?thesis unfolding collects_def by auto
qed

lemma bfs_spec:
  assumes "closed_heap h" and "set q \<subseteq> Some ` {..<length h}" and "seen = set all"
    and "distinct all" and "edges h `` set all \<subseteq> set all \<union> {p. Some p \<in> set q}"
  shows "\<exists>all'. bfs h q seen all = Inr all' \<and> collects h q all all'"
  using assms
proof (induction h q seen all rule: bfs.induct)
  case (1 h seen all)
  then show ?case by (auto simp: collects_def)
next
  case (2 h q seen all)
  then show ?case by auto
next
  case (3 h p q seen all)
  show ?case
  proof (cases "p \<in> seen")
    case True
    have "set q \<subseteq> Some ` {..<length h}" "edges h `` set all \<subseteq> set all \<union> {p. Some p \<in> set q}"
      using True "3.prems" by auto
    from "3.IH"(1) [OF True "3.prems"(1) this(1) "3.prems"(3,4) this(2)] True "3.prems"(3)
    show ?thesis by (auto intro: collects_seen)
  next
    case False
    let ?q = "q @ map Some (out_nodes (h ! p))" and ?all = "all @ [p]"
    from "3.prems" have p: "p < length h" by auto
    have "\<exists>all'. bfs h ?q (insert p seen) ?all = Inr all' \<and> collects h ?q ?all all'"
    proof (rule "3.IH"(2) [OF False])
      show "deref h p = Inr (h ! p)" using p by (simp add: deref_def)
      show "set ?q \<subseteq> Some ` {..<length h}"
        using "3.prems"(1,2) p by (auto simp: closed_heap_def)
      show "edges h `` set ?all \<subseteq> set ?all \<union> {p. Some p \<in> set ?q}"
        using "3.prems"(5) p by (auto simp: edges_def)
    qed (use "3.prems" False in auto)
    with False p show ?thesis by (auto simp: deref_def intro: collects_visit)
  qed
qed

lemma bfs_reach:
  assumes "closed_heap h" and "r < length h"
  obtains all where "bfs h [Some r] {} [] = Inr all" and "distinct all" and "set all = reach h r"
proof -
  from bfs_spec [OF assms(1), of "[Some r]" "{}" "[]"] assms(2)
  obtain all where all: "bfs h [Some r] {} [] = Inr all" "distinct all" "r \<in> set all"
    "edges h `` set all \<subseteq> set all" "set all \<subseteq> (edges h)\<^sup>* `` {r}" by (auto simp: collects_def)
  have "p \<in> set all" if "(r, p) \<in> (edges h)\<^sup>*" for p
    using that all(3,4) by (induction rule: rtrancl_induct) auto
  with all(5) have "set all = reach h r" by (auto simp: reach_def)
  with all(1,2) show ?thesis by (rule that)
qed

section \<open>Which graphs fire completely\<close>

lemma fires_bound: "fires h r q \<Longrightarrow> q < length h"
  by (induction rule: fires.induct)

lemma fires_reach: "fires h r q \<Longrightarrow> q \<in> reach h r"
proof (induction rule: fires.induct)
  case (inputs q)
  then obtain p where "(p, q) \<in> edges h" by (auto simp: indeg_pos)
  with inputs show ?case by (auto simp: reach_def intro: rtrancl_into_rtrancl)
qed (simp add: reach_def)

lemma fires_pred:
  assumes "fires h r q" and "indeg h r = 0" and "(p, q) \<in> edges h"
  shows "fires h r p"
  using assms by (cases rule: fires.cases) (auto simp: indeg_0)

lemma fires_acyclic:
  assumes "fires h r q" and "indeg h r = 0"
  shows "(q, q) \<notin> (edges h)\<^sup>+"
  using assms(1)
proof (induction rule: fires.induct)
  case root
  show ?case using assms(2) by (auto simp: indeg_0 dest!: tranclD2)
next
  case (inputs q)
  show ?case
  proof
    assume "(q, q) \<in> (edges h)\<^sup>+"
    then obtain p where p: "(q, p) \<in> (edges h)\<^sup>*" "(p, q) \<in> edges h" by (auto dest: tranclD2)
    then have "(p, p) \<in> (edges h)\<^sup>+" by (meson rtrancl_into_trancl2)
    with inputs.IH [OF p(2)] show False by contradiction
  qed
qed

definition dag_from :: "node list \<Rightarrow> ptr \<Rightarrow> bool" where
  "dag_from h r \<longleftrightarrow> indeg h r = 0 \<and> acyclic (edges h \<inter> reach h r \<times> reach h r) \<and>
     (\<forall>p q. (p, q) \<in> edges h \<longrightarrow> q \<in> reach h r \<longrightarrow> p \<in> reach h r)"

lemma dag_fires:
  assumes dag: "dag_from h r" and cl: "closed_heap h" and r: "r < length h"
    and "q \<in> reach h r"
  shows "fires h r q"
proof -
  let ?E = "edges h \<inter> reach h r \<times> reach h r"
  have "wf ?E"
    by (rule finite_acyclic_wf) (use dag finite_edges in \<open>auto simp: dag_from_def\<close>)
  from this assms(4) show ?thesis
  proof (induction q rule: wf_induct_rule)
    case (less q)
    show ?case
    proof (cases "q = r")
      case True
      with r show ?thesis by (simp add: fires.root)
    next
      case False
      with less.prems obtain p where "(p, q) \<in> edges h"
        by (auto simp: reach_def elim: rtranclE)
      then have "0 < indeg h q" "q < length h"
        using cl by (auto simp: indeg_pos dest: edges_bound)
      moreover have "fires h r p" if "(p, q) \<in> edges h" for p
        using that less dag by (auto simp: dag_from_def)
      ultimately show ?thesis by (rule fires.inputs)
    qed
  qed
qed

lemma fires_all_iff_dag:
  assumes cl: "closed_heap h" and r: "r < length h" and root: "indeg h r = 0"
  shows "(\<forall>q\<in>reach h r. fires h r q) \<longleftrightarrow> dag_from h r"
proof
  assume all: "\<forall>q\<in>reach h r. fires h r q"
  have "acyclic (edges h \<inter> reach h r \<times> reach h r)"
    unfolding acyclic_def
  proof (intro allI notI)
    fix q assume c: "(q, q) \<in> (edges h \<inter> reach h r \<times> reach h r)\<^sup>+"
    then have "q \<in> reach h r" by (auto dest: tranclD)
    moreover have "(q, q) \<in> (edges h)\<^sup>+" using c by (rule trancl_mono) blast
    ultimately show False using all fires_acyclic [OF _ root] by blast
  qed
  with all root show "dag_from h r"
    by (auto simp: dag_from_def intro: fires_reach fires_pred)
next
  assume "dag_from h r"
  with cl r show "\<forall>q\<in>reach h r. fires h r q" by (auto intro: dag_fires)
qed

section \<open>What the check and the initialisation return\<close>

lemma check_loop_from_root:
  assumes "closed_heap h" and "check_fresh h" and "r < length h" and "indeg h r = 0"
  obtains h' where "same_nodes h h'" and "spent h r h'"
    and "check_loop h [r] flags = Inr (h', \<lambda>q. if fires h r q then Some True else flags q)"
proof -
  have "\<exists>h'. same_nodes h h' \<and> spent h r h' \<and> check_loop h [r] flags =
      Inr (h', \<lambda>q. if fires h r q \<and> q \<notin> {} then Some True else flags q)"
    by (rule check_loop_spec) (use assms in \<open>auto simp: deleting_def check_fresh_def intro: fires.root\<close>)
  then show ?thesis using that by auto
qed

lemma check_spec:
  assumes "closed_heap h" and "check_fresh h" and "r < length h"
    and root: "root_node g = Some r" and all: "set (all_nodes g) = reach h r"
  obtains h' where "same_nodes h h'" and "dag_from h r \<Longrightarrow> spent h r h'"
    and "check fatal g h =
      (if dag_from h r then Inr (True, h') else log_fatal fatal (False, h'))"
proof (cases "indeg h r = 0")
  case False
  with assms have "check fatal g h = log_fatal fatal (False, h)"
    by (simp add: check_def deref_def check_fresh_def)
  with False show ?thesis by (intro that [of h]) (auto simp: dag_from_def)
next
  case True
  let ?flags = "map_of (map (\<lambda>n. (n, False)) (all_nodes g))"
  obtain h' where h': "same_nodes h h'" "spent h r h'"
    and loop: "check_loop h [r] ?flags = Inr (h', \<lambda>q. if fires h r q then Some True else ?flags q)"
    using check_loop_from_root [OF assms(1-3) True] .
  have "?flags q = Some False" if "q \<in> reach h r" for q
    using that by (simp add: map_of_map_restrict restrict_map_def flip: all)
  then have "list_ex (\<lambda>n. (if fires h r n then Some True else ?flags n) = Some False) (all_nodes g)
      \<longleftrightarrow> (\<exists>n\<in>reach h r. \<not> fires h r n)"
    unfolding list_ex_iff all by simp
  also have "\<dots> \<longleftrightarrow> \<not> dag_from h r"
    unfolding fires_all_iff_dag [OF assms(1,3) True, symmetric] by blast
  finally have ex: "list_ex (\<lambda>n. (if fires h r n then Some True else ?flags n) = Some False)
      (all_nodes g) \<longleftrightarrow> \<not> dag_from h r" .
  from h' ex loop root assms(2,3) True show ?thesis
    by (intro that [of h']) (auto simp: check_def deref_def check_fresh_def)
qed

lemma init_spec:
  assumes "closed_heap h" and "check_fresh h" and "r < length h"
  obtains all h' where "distinct all" and "set all = reach h r" and "same_nodes h h'"
    and "dag_from h r \<Longrightarrow> spent h r h'"
    and "init fatal (Some r) nm g h =
      (let g' = (if nm \<noteq> [] then g\<lparr>graph_name := nm\<rparr> else g)
         \<lparr>root_node := Some r, all_nodes := all\<rparr>
       in if dag_from h r then Inr (0, g', h') else log_fatal fatal (-1, g', h'))"
proof -
  obtain all where all: "bfs h [Some r] {} [] = Inr all" "distinct all" "set all = reach h r"
    using bfs_reach [OF assms(1,3)] .
  let ?g = "(if nm \<noteq> [] then g\<lparr>graph_name := nm\<rparr> else g)\<lparr>root_node := Some r, all_nodes := all\<rparr>"
  obtain h' where h': "same_nodes h h'" "dag_from h r \<Longrightarrow> spent h r h'" and "check fatal ?g h =
      (if dag_from h r then Inr (True, h') else log_fatal fatal (False, h'))"
    by (rule check_spec [OF assms, of ?g fatal]) (use all in auto)
  then have "init fatal (Some r) nm g h =
      (if dag_from h r then Inr (0, ?g, h') else log_fatal fatal (-1, ?g, h'))"
    using all(1) by (simp add: init_def log_fatal_def Let_def)
  with all h' show ?thesis by (intro that [of all h']) auto
qed

lemma spent_reachable:
  assumes "dag_from h r" and "closed_heap h" and "r < length h" and "spent h r h'"
    and "q \<in> reach h r"
  shows "input_num_4_check (h' ! q) = 0"
proof -
  have q: "fires h r q" using dag_fires [OF assms(1-3,5)] .
  have "notified h (\<lambda>p. if fires h r p then length (out_nodes (h ! p)) else 0) q = indeg h q"
    using q assms(1) by (intro notified_all_preds) (auto simp: dag_from_def dest: fires_pred)
  with assms(4) fires_bound [OF q] show ?thesis by (simp add: spent_def)
qed

lemma check_loop_exhausted:
  assumes "closed_heap h" and "r < length h" and "\<And>q. q \<in> reach h r \<Longrightarrow> input_num_4_check (h ! q) = 0"
  shows "\<exists>h'. check_loop h [r] flags = Inr (h', flags(r \<mapsto> True))"
proof -
  let ?outs = "out_nodes (h ! r)"
  have "set ?outs \<subseteq> {..<length h}" using assms(1,2) by (simp add: closed_heap_def)
  then obtain h' ready where h': "check_outputs ?outs h = Inr (h', ready)" "same_nodes h h'"
    and "\<And>q. q < length h \<Longrightarrow>
      input_num_4_check (h' ! q) = input_num_4_check (h ! q) - int (count_list ?outs q)"
    and "distinct ready"
    and ready: "\<And>q. q \<in> set ready \<longleftrightarrow> q < length h \<and> 1 \<le> input_num_4_check (h ! q) \<and>
      input_num_4_check (h ! q) \<le> int (count_list ?outs q)"
    using check_outputs_spec by blast
  have "set ready = {}"
  proof (rule equals0I)
    fix q assume "q \<in> set ready"
    then have "1 \<le> input_num_4_check (h ! q)" "input_num_4_check (h ! q) \<le> int (count_list ?outs q)"
      by (simp_all add: ready)
    then have "q \<in> set ?outs" using count_notin [of q ?outs] by fastforce
    then have "q \<in> reach h r" using assms(2) by (auto simp: reach_def intro: edgesI)
    then show False using assms(3) \<open>1 \<le> input_num_4_check (h ! q)\<close> by simp
  qed
  then have "ready = []" by simp
  with h' assms(2) show ?thesis by (auto simp: deref_def)
qed

text \<open>C4: \<open>Graph::init\<close> on a heap whose counters are the in-degrees collects in \<open>all_nodes\<close>
  exactly the nodes reachable from the root, each once, and returns 0 exactly when the root has
  no input, the reachable part has no cycle and no reachable node has an input from outside it;
  otherwise it takes the \<open>LOG(FATAL)\<close> path and returns -1. Only check counters change.\<close>

theorem init_accepts_dags:
  assumes "closed_heap h" and "check_fresh h" and "r < length h"
  shows "\<exists>g' h'. init fatal (Some r) nm g h =
      (if dag_from h r then Inr (0, g', h') else log_fatal fatal (-1, g', h')) \<and>
    set (all_nodes g') = reach h r \<and> distinct (all_nodes g') \<and> root_node g' = Some r \<and>
    graph_name g' = (if nm = [] then graph_name g else nm) \<and> same_nodes h h'"
proof -
  obtain all h' where *: "distinct all" "set all = reach h r" "same_nodes h h'"
    "init fatal (Some r) nm g h =
      (let g' = (if nm \<noteq> [] then g\<lparr>graph_name := nm\<rparr> else g)
         \<lparr>root_node := Some r, all_nodes := all\<rparr>
       in if dag_from h r then Inr (0, g', h') else log_fatal fatal (-1, g', h'))"
    using init_spec [OF assms] by metis
  let ?g = "(if nm \<noteq> [] then g\<lparr>graph_name := nm\<rparr> else g)\<lparr>root_node := Some r, all_nodes := all\<rparr>"
  from * have "init fatal (Some r) nm g h =
      (if dag_from h r then Inr (0, ?g, h') else log_fatal fatal (-1, ?g, h'))"
    by (simp add: Let_def)
  moreover have "graph_name ?g = (if nm = [] then graph_name g else nm)" by simp
  ultimately show ?thesis using *(1-3) by (intro exI [of _ ?g] exI [of _ h']) auto
qed

definition diamond :: "node list" where
  \<comment> \<open>start \<open>\<rightarrow>\<close> mid1, mid2 \<open>\<rightarrow>\<close> done: the graph of the unit test\<close>
  "diamond = [
    \<lparr>name = ''start'', node_id = 0, input_num_4_check = 0, input_num = 0, out_nodes = [1, 2],
      service_context_factory = ''StartService''\<rparr>,
    \<lparr>name = ''mid1'', node_id = 1, input_num_4_check = 1, input_num = 1, out_nodes = [3],
      service_context_factory = ''StartService''\<rparr>,
    \<lparr>name = ''mid2'', node_id = 2, input_num_4_check = 1, input_num = 1, out_nodes = [3],
      service_context_factory = ''StartService''\<rparr>,
    \<lparr>name = ''done'', node_id = 3, input_num_4_check = 2, input_num = 2, out_nodes = [],
      service_context_factory = ''DoneService''\<rparr>]"

lemma less_4: "p < (4::nat) \<longleftrightarrow> p = 0 \<or> p = 1 \<or> p = 2 \<or> p = 3"
  by auto

lemma diamond_ok:
  "closed_heap diamond" "check_fresh diamond" "counts_ok diamond" "length diamond = 4"
  "edges diamond = {(0, 1), (0, 2), (1, 3), (2, 3)}"
proof -
  show len: "length diamond = 4" by (simp add: diamond_def)
  show "closed_heap diamond"
    by (auto simp: closed_heap_def len less_4) (auto simp: diamond_def)
  have "indeg diamond 0 = 0" "indeg diamond 1 = 1" "indeg diamond 2 = 1" "indeg diamond 3 = 2"
    by (simp_all add: indeg_def diamond_def numeral_eq_Suc lessThan_Suc)
  then show "check_fresh diamond" "counts_ok diamond"
    by (auto simp: check_fresh_def counts_ok_def len less_4) (auto simp: diamond_def)
  show "edges diamond = {(0, 1), (0, 2), (1, 3), (2, 3)}"
    by (auto simp: edges_def len less_4) (auto simp: diamond_def)
qed

theorem init_accepts_dags_witness:
  "(\<exists>g' h'. init False (Some 0) ''g'' new_graph diamond =
      (if dag_from diamond 0 then Inr (0, g', h') else log_fatal False (-1, g', h')) \<and>
    set (all_nodes g') = reach diamond 0 \<and> distinct (all_nodes g') \<and> root_node g' = Some 0 \<and>
    graph_name g' = ''g'' \<and> same_nodes diamond h') \<and>
   (\<exists>g' h'. init False (Some 0) ''g'' new_graph diamond = Inr (0, g', h') \<and>
      all_nodes g' = [0, 1, 2, 3])"
proof
  show "\<exists>g' h'. init False (Some 0) ''g'' new_graph diamond =
      (if dag_from diamond 0 then Inr (0, g', h') else log_fatal False (-1, g', h')) \<and>
    set (all_nodes g') = reach diamond 0 \<and> distinct (all_nodes g') \<and> root_node g' = Some 0 \<and>
    graph_name g' = ''g'' \<and> same_nodes diamond h'"
    using init_accepts_dags [OF diamond_ok(1,2), of 0 False "''g''" new_graph] diamond_ok(4) by simp
  show "\<exists>g' h'. init False (Some 0) ''g'' new_graph diamond = Inr (0, g', h') \<and>
      all_nodes g' = [0, 1, 2, 3]"
    by (simp add: diamond_def init_def check_def deref_def new_graph_def Let_def numeral_eq_Suc)
qed

text \<open>A graph without a root is not rejected: \<open>Graph::init\<close> puts the null root into its
  queue and dereferences it before \<open>check\<close> gets to test it.\<close>

lemma init_null_root: "init fatal None nm g h = Inl Null_Deref"
  by (simp add: init_def)

text \<open>The check uses up its counters: initialising an accepted graph a second time, on the
  nodes the first initialisation leaves behind, reports a cycle as soon as the root has an
  output.\<close>

lemma init_twice_fails:
  assumes "closed_heap h" and "check_fresh h" and "r < length h"
    and "init False (Some r) nm g h = Inr (0, g1, h1)" and "(r, q) \<in> edges h"
  shows "\<exists>g2 h2. init False (Some r) nm g1 h1 = Inr (-1, g2, h2)"
proof -
  obtain all h' where all: "set all = reach h r" and h': "same_nodes h h'"
      "dag_from h r \<Longrightarrow> spent h r h'"
    and "init False (Some r) nm g h = (let g' = (if nm \<noteq> [] then g\<lparr>graph_name := nm\<rparr> else g)
         \<lparr>root_node := Some r, all_nodes := all\<rparr>
       in if dag_from h r then Inr (0, g', h') else log_fatal False (-1, g', h'))"
    using init_spec [OF assms(1-3)] by metis
  with assms(4) have h1: "h1 = h'" and dag: "dag_from h r"
    by (auto simp: Let_def log_fatal_def split: if_splits)
  have h1_ok: "closed_heap h1" "r < length h1" "reach h1 r = reach h r"
    using h' h1 assms(1,3)
    by (simp_all add: same_nodes_closed same_nodes_len reach_def same_nodes_edges)
  then have zero: "input_num_4_check (h1 ! p) = 0" if "p \<in> reach h1 r" for p
    using spent_reachable [OF dag assms(1,3)] h' dag h1 that by simp
  obtain all1 where all1: "bfs h1 [Some r] {} [] = Inr all1" "set all1 = reach h1 r"
    using bfs_reach [OF h1_ok(1,2)] by metis
  let ?flags = "map_of (map (\<lambda>n. (n, False)) all1)"
  obtain h2 where h2: "check_loop h1 [r] ?flags = Inr (h2, ?flags(r \<mapsto> True))"
    using check_loop_exhausted [OF h1_ok(1,2) zero, of ?flags] by auto
  have "q \<in> reach h1 r" "q \<noteq> r"
    using assms(5) dag h1_ok(3) by (auto simp: reach_def dag_from_def indeg_0)
  then have "list_ex (\<lambda>n. (?flags(r \<mapsto> True)) n = Some False) all1"
    by (auto simp: list_ex_iff all1(2) map_of_map_restrict intro!: bexI [of _ q])
  moreover have "r \<in> reach h1 r" by (simp add: reach_def)
  ultimately show ?thesis
    using all1(1) h2 zero h1_ok(2) by (simp add: init_def check_def deref_def log_fatal_def Let_def)
qed

lemma init_twice_fails_example:
  "\<exists>g1 h1 g2 h2. init False (Some 0) ''g'' new_graph diamond = Inr (0, g1, h1) \<and>
     init False (Some 0) ''g'' g1 h1 = Inr (-1, g2, h2)"
proof -
  obtain g1 h1 where 1: "init False (Some 0) ''g'' new_graph diamond = Inr (0, g1, h1)"
    by (simp add: diamond_def init_def check_def deref_def new_graph_def Let_def numeral_eq_Suc)
  have "(0, 1) \<in> edges diamond" by (simp add: diamond_ok)
  from init_twice_fails [OF diamond_ok(1,2) _ 1 this] 1 diamond_ok(4) show ?thesis by auto
qed

end
