(* ===== verification/GraphExec.thy ===== *)
theory GraphExec
  imports GraphSpec
begin

text \<open>
  Execution of a graph (\<open>Graph::run\<close> of \<open>frame/graph.h\<close>; \<open>Node::run\<close>, \<open>notify\<close> and
  \<open>run_output_nodes_if_ready\<close> of \<open>frame/graph.cpp\<close>). Bthreads and pending callbacks are
  tasks; a step lets any one of them make its next atomic move, so every interleaving is a
  sequence of steps. \<open>do_service\<close> and \<open>skip\<close> are virtual: a run takes what they do as a
  parameter, and the trace records when they begin and end.
\<close>

section \<open>The context of one request\<close>

record exec_env =
  skip :: "ptr \<Rightarrow> bool" \<comment> \<open>what \<open>skip(context)\<close> returns for a node\<close>
  node_type :: "ptr \<Rightarrow> string" \<comment> \<open>what \<open>type()\<close> returns for a node\<close>

datatype event =
    Begin ptr \<comment> \<open>\<open>do_service\<close> is called\<close>
  | Skip ptr \<comment> \<open>\<open>skip\<close> returned true\<close>
  | End ptr \<comment> \<open>\<open>do_service\<close>, and for an io node its last callback, is over\<close>
  | Ret ptr \<comment> \<open>the loop of \<open>run_output_nodes_if_ready\<close> is over\<close>

datatype task =
    Run ptr \<comment> \<open>about to enter \<open>Node::run\<close>\<close>
  | Busy ptr \<comment> \<open>inside \<open>do_service\<close> of a cpu node\<close>
  | Async ptr \<comment> \<open>the asynchronous work of an io node, which ends by calling
      \<open>run_output_nodes_if_ready\<close>\<close>
  | Outs ptr nat "ptr option" \<comment> \<open>\<open>run_output_nodes_if_ready\<close> with its \<open>i\<close> and
      \<open>last_ready_node\<close>\<close>

record exec =
  node_input_num_map :: "atomic_int option list"
  node_service_context_vec :: "string option list"
  tasks :: "task list"
  trace :: "event list"

section \<open>Node operations\<close>

definition notify :: "bool \<Rightarrow> node list \<Rightarrow> ptr \<Rightarrow> atomic_int option list \<Rightarrow>
    (bool \<times> atomic_int option list) res" where
  "notify fatal h p m =
     bind_res (deref h p) (\<lambda>n.
       let i = size_of_int (node_id n)
       in if i \<ge> length m then log_fatal fatal (False, m)
          else case m ! i of
            None \<Rightarrow> Inl Null_Deref
          | Some c \<Rightarrow>
              let (old_value, c') = fetch_sub1 c
              in Inr (old_value = 1, m[i := Some c']))"

text \<open>
  One move of a task: what the same thread goes on with, the bthreads it starts, the events
  and the counters afterwards.
\<close>

fun task_step :: "bool \<Rightarrow> exec_env \<Rightarrow> node list \<Rightarrow> task \<Rightarrow> atomic_int option list \<Rightarrow>
    (task list \<times> task list \<times> event list \<times> atomic_int option list) res" where
  "task_step fatal env h (Run p) m =
     (if \<not> skip env p
      then if node_type env p = ''cpu'' then Inr ([Busy p], [], [Begin p], m)
           else Inr ([Async p], [], [Begin p], m)
      else Inr ([Outs p 0 None], [], [Skip p], m))"
| "task_step fatal env h (Busy p) m = Inr ([Outs p 0 None], [], [End p], m)"
| "task_step fatal env h (Async p) m = Inr ([Outs p 0 None], [], [End p], m)"
| "task_step fatal env h (Outs p i last_ready) m =
     bind_res (deref h p) (\<lambda>n.
       if i < length (out_nodes n)
       then let output_node = out_nodes n ! i
            in bind_res (notify fatal h output_node m) (\<lambda>(ready, m').
              if ready
              then Inr ([Outs p (Suc i) (Some output_node)],
                        case last_ready of None \<Rightarrow> [] | Some l \<Rightarrow> [Run l], [], m')
              else Inr ([Outs p (Suc i) last_ready], [], [], m'))
       else Inr (case last_ready of None \<Rightarrow> [] | Some l \<Rightarrow> [Run l], [], [Ret p], m))"

definition sched :: "bool \<Rightarrow> exec_env \<Rightarrow> node list \<Rightarrow> nat \<Rightarrow> exec \<Rightarrow> exec res" where
  "sched fatal env h k s =
     bind_res (task_step fatal env h (tasks s ! k) (node_input_num_map s))
       (\<lambda>(cont, started, evs, m). Inr (s
         \<lparr>node_input_num_map := m,
          tasks := take k (tasks s) @ cont @ drop (Suc k) (tasks s) @ started,
          trace := trace s @ evs\<rparr>))"

inductive exec_step :: "bool \<Rightarrow> exec_env \<Rightarrow> node list \<Rightarrow> exec \<Rightarrow> exec \<Rightarrow> bool"
  for fatal env h where
  "k < length (tasks s) \<Longrightarrow> sched fatal env h k s = Inr t \<Longrightarrow> exec_step fatal env h s t"

fun run_schedule :: "bool \<Rightarrow> exec_env \<Rightarrow> node list \<Rightarrow> nat list \<Rightarrow> exec \<Rightarrow> exec res" where
  "run_schedule fatal env h [] s = Inr s"
| "run_schedule fatal env h (k # ks) s =
     (if k < length (tasks s)
      then bind_res (sched fatal env h k s) (run_schedule fatal env h ks)
      else run_schedule fatal env h ks s)"

section \<open>Starting a run\<close>

definition set_counter :: "bool \<Rightarrow> node list \<Rightarrow> ptr \<Rightarrow>
    atomic_int option list \<times> string option list \<Rightarrow>
    (atomic_int option list \<times> string option list) res" where
  "set_counter fatal h p mc =
     bind_res (deref h p) (\<lambda>n.
       let (m, ctx) = mc; i = size_of_int (node_id n)
       in if i \<ge> length m
          then bind_res (log_fatal fatal ()) (\<lambda>_. Inl Bad_Ptr) \<comment> \<open>writes outside the vector\<close>
          else if i \<ge> length ctx then Inl Bad_Ptr
          else Inr (m[i := Some (word_of_int (input_num n))],
                    ctx[i := Some (service_context_factory n)]))"

definition run :: "bool \<Rightarrow> graph \<Rightarrow> node list \<Rightarrow> (int \<times> exec option) res" where
  \<comment> \<open>the returned code, and the execution that \<open>root_node->run(context)\<close> starts\<close>
  "run fatal g h =
     (case root_node g of
        None \<Rightarrow> Inr (-1, None)
      | Some r \<Rightarrow>
          bind_res (if length (all_nodes g) \<le> 0 then log_fatal fatal () else Inr ()) (\<lambda>_.
          bind_res (fold_res (set_counter fatal h) (all_nodes g)
              (replicate (length (all_nodes g)) None,
               replicate (size_of_int (max_node_id g + 1)) None)) (\<lambda>(m, ctx).
          Inr (0, Some \<lparr>node_input_num_map = m, node_service_context_vec = ctx,
                        tasks = [Run r], trace = []\<rparr>))))"

definition get_context :: "bool \<Rightarrow> exec \<Rightarrow> int \<Rightarrow> string option res" where
  "get_context fatal s i =
     (if size_of_int i \<ge> length (node_service_context_vec s)
      then bind_res (log_fatal fatal ()) (\<lambda>_. Inl Bad_Ptr)
      else Inr (node_service_context_vec s ! size_of_int i))"

section \<open>The invariant of a run\<close>

text \<open>
  The graphs a run is meant for: counters are in-degrees (below \<open>2 ^ 31\<close>, the range of
  \<open>std::atomic<int>\<close>), the check accepted the graph, ids are positions, and the reachable
  nodes are the first \<open>n\<close> ones (in particular, every node when all of them are reachable).
\<close>

definition runnable :: "node list \<Rightarrow> ptr \<Rightarrow> nat \<Rightarrow> bool" where
  "runnable h r n \<longleftrightarrow> closed_heap h \<and> counts_ok h \<and> r < length h \<and> dag_from h r \<and>
     (\<forall>p<length h. node_id (h ! p) = int p) \<and> reach h r = {..<n} \<and> n < 2 ^ 31 \<and>
     (\<forall>q<n. indeg h q < 2 ^ 31)"

fun waits :: "task \<Rightarrow> ptr multiset" where
  "waits (Run p) = {#p#}"
| "waits (Busy p) = {#}"
| "waits (Async p) = {#}"
| "waits (Outs p i None) = {#}"
| "waits (Outs p i (Some l)) = {#l#}"

fun works :: "task \<Rightarrow> ptr multiset" where
  "works (Run p) = {#}"
| "works (Busy p) = {#p#}"
| "works (Async p) = {#p#}"
| "works (Outs p i l) = {#p#}"

fun begun :: "event list \<Rightarrow> ptr multiset" where
  "begun [] = {#}"
| "begun (Begin p # es) = add_mset p (begun es)"
| "begun (Skip p # es) = add_mset p (begun es)"
| "begun (_ # es) = begun es"

fun returned :: "event list \<Rightarrow> ptr multiset" where
  "returned [] = {#}"
| "returned (Ret p # es) = add_mset p (returned es)"
| "returned (_ # es) = returned es"

definition ended :: "event list \<Rightarrow> ptr set" where
  "ended es = {p. End p \<in> set es \<or> Skip p \<in> set es}"

fun starts :: "event \<Rightarrow> ptr option" where
  "starts (Begin p) = Some p"
| "starts (Skip p) = Some p"
| "starts _ = None"

definition in_order :: "node list \<Rightarrow> event list \<Rightarrow> bool" where
  \<comment> \<open>a node starts only after all its inputs have ended\<close>
  "in_order h es \<longleftrightarrow> (\<forall>i<length es. \<forall>q. starts (es ! i) = Some q \<longrightarrow>
     (\<forall>p. (p, q) \<in> edges h \<longrightarrow> p \<in> ended (take i es)))"

abbreviation waiting :: "task list \<Rightarrow> ptr multiset" where
  "waiting ts \<equiv> \<Sum>\<^sub># (image_mset waits (mset ts))"

abbreviation working :: "task list \<Rightarrow> ptr multiset" where
  "working ts \<equiv> \<Sum>\<^sub># (image_mset works (mset ts))"

definition active :: "exec \<Rightarrow> ptr multiset" where
  "active s = waiting (tasks s) + working (tasks s) + returned (trace s)"

definition counters_ok :: "node list \<Rightarrow> nat \<Rightarrow> (ptr \<Rightarrow> nat) \<Rightarrow> exec \<Rightarrow> bool" where
  "counters_ok h n cur s \<longleftrightarrow> length (node_input_num_map s) = n \<and>
     (\<forall>q<n. \<exists>c. node_input_num_map s ! q = Some c \<and>
        sint c = int (indeg h q) - int (notified h cur q))"

definition progress_ok :: "node list \<Rightarrow> (ptr \<Rightarrow> nat) \<Rightarrow> exec \<Rightarrow> bool" where
  "progress_ok h cur s \<longleftrightarrow>
     (\<forall>p i l. Outs p i l \<in> set (tasks s) \<longrightarrow> cur p = i \<and> i \<le> length (out_nodes (h ! p))) \<and>
     (\<forall>p. p \<in># returned (trace s) \<longrightarrow> cur p = length (out_nodes (h ! p))) \<and>
     (\<forall>p. 0 < cur p \<longrightarrow> p \<in> ended (trace s)) \<and>
     (\<forall>p. p \<in> ended (trace s) \<longleftrightarrow>
        (\<exists>i l. Outs p i l \<in> set (tasks s)) \<or> p \<in># returned (trace s))"

definition exec_at :: "node list \<Rightarrow> ptr \<Rightarrow> nat \<Rightarrow> (ptr \<Rightarrow> nat) \<Rightarrow> exec \<Rightarrow> bool" where
  "exec_at h r n cur s \<longleftrightarrow>
     counters_ok h n cur s \<and> progress_ok h cur s \<and>
     (\<forall>q. count (active s) q \<le> 1) \<and>
     (\<forall>q. q \<in># active s \<longleftrightarrow> q = r \<or> (q < n \<and> 0 < indeg h q \<and> notified h cur q = indeg h q)) \<and>
     begun (trace s) = working (tasks s) + returned (trace s) \<and>
     in_order h (trace s)"

definition exec_inv :: "node list \<Rightarrow> ptr \<Rightarrow> nat \<Rightarrow> exec \<Rightarrow> bool" where
  "exec_inv h r n s \<longleftrightarrow> runnable h r n \<and> (\<exists>cur. exec_at h r n cur s)"

lemma begun_append [simp]: "begun (xs @ ys) = begun xs + begun ys"
  by (induction xs rule: begun.induct) auto

lemma returned_append [simp]: "returned (xs @ ys) = returned xs + returned ys"
  by (induction xs rule: returned.induct) auto

lemma ended_append [simp]: "ended (xs @ ys) = ended xs \<union> ended ys"
  by (auto simp: ended_def)

lemma ended_simps [simp]:
  "ended [] = {}" "ended (Begin p # es) = ended es" "ended (Skip p # es) = insert p (ended es)"
  "ended (End p # es) = insert p (ended es)" "ended (Ret p # es) = ended es"
  by (auto simp: ended_def)

lemma in_order_snoc:
  assumes "in_order h es"
    and "\<And>q p. starts e = Some q \<Longrightarrow> (p, q) \<in> edges h \<Longrightarrow> p \<in> ended es"
  shows "in_order h (es @ [e])"
  using assms unfolding in_order_def by (auto simp: nth_append less_Suc_eq)

lemma in_order_Nil [simp]: "in_order h []"
  by (simp add: in_order_def)

lemma progress_okI:
  assumes "\<And>p i l. Outs p i l \<in> set (tasks s) \<Longrightarrow> cur p = i \<and> i \<le> length (out_nodes (h ! p))"
    and "\<And>p. p \<in># returned (trace s) \<Longrightarrow> cur p = length (out_nodes (h ! p))"
    and "\<And>p. 0 < cur p \<Longrightarrow> p \<in> ended (trace s)"
    and "\<And>p. p \<in> ended (trace s) \<longleftrightarrow>
      (\<exists>i l. Outs p i l \<in> set (tasks s)) \<or> p \<in># returned (trace s)"
  shows "progress_ok h cur s"
  using assms unfolding progress_ok_def by blast

lemma progress_okD:
  assumes "progress_ok h cur s"
  shows "Outs p i l \<in> set (tasks s) \<Longrightarrow> cur p = i"
    and "Outs p i l \<in> set (tasks s) \<Longrightarrow> i \<le> length (out_nodes (h ! p))"
    and "p \<in># returned (trace s) \<Longrightarrow> cur p = length (out_nodes (h ! p))"
    and "0 < cur p \<Longrightarrow> p \<in> ended (trace s)"
    and "p \<in> ended (trace s) \<longleftrightarrow>
      (\<exists>i l. Outs p i l \<in> set (tasks s)) \<or> p \<in># returned (trace s)"
  using assms unfolding progress_ok_def by blast+

lemma exec_at_progress: "exec_at h r n cur s \<Longrightarrow> progress_ok h cur s"
  by (simp add: exec_at_def)

section \<open>Every step keeps the invariant\<close>

lemma runnable_root: "runnable h r n \<Longrightarrow> r < n"
  by (auto simp: runnable_def reach_def dest: equalityD1)

lemma runnable_len: "runnable h r n \<Longrightarrow> p < n \<Longrightarrow> p < length h"
  by (metis dag_fires fires_bound lessThan_iff runnable_def)

lemma runnable_output:
  assumes "runnable h r n" and "p < n" and "i < length (out_nodes (h ! p))"
  shows "out_nodes (h ! p) ! i < n" and "(p, out_nodes (h ! p) ! i) \<in> edges h"
proof -
  show e: "(p, out_nodes (h ! p) ! i) \<in> edges h"
    using runnable_len [OF assms(1,2)] assms(3) by (auto intro: edgesI)
  have "p \<in> reach h r" using assms(1,2) by (simp add: runnable_def)
  with e have "out_nodes (h ! p) ! i \<in> reach h r"
    by (auto simp: reach_def intro: rtrancl_into_rtrancl)
  then show "out_nodes (h ! p) ! i < n" using assms(1) by (simp add: runnable_def)
qed

lemma active_bound:
  "runnable h r n \<Longrightarrow> exec_at h r n cur s \<Longrightarrow> q \<in># active s \<Longrightarrow> q < n"
  using runnable_root by (auto simp: exec_at_def)

lemma token_active:
  "tasks s = xs @ tk # ys \<Longrightarrow> p \<in># waits tk + works tk \<Longrightarrow> p \<in># active s"
  by (auto simp: active_def)

text \<open>The inputs of an active node have ended.\<close>

lemma active_inputs:
  assumes "runnable h r n" and "exec_at h r n cur s" and "q \<in># active s" and "(p, q) \<in> edges h"
  shows "p \<in> ended (trace s)"
proof -
  have "q \<noteq> r" using assms(1,4) by (auto simp: runnable_def dag_from_def indeg_0)
  with assms(2,3) have "notified h cur q = indeg h q" by (auto simp: exec_at_def)
  then have "0 < cur p" using assms(4) by (rule notified_full_edge)
  then show ?thesis using assms(2) unfolding exec_at_def progress_ok_def by blast
qed

text \<open>A node that has not ended has notified nobody.\<close>

lemma not_ended_cur:
  assumes "exec_at h r n cur s" and "p \<notin> ended (trace s)"
  shows "cur p = 0"
proof (rule ccontr)
  assume "cur p \<noteq> 0"
  moreover have "\<forall>p. 0 < cur p \<longrightarrow> p \<in> ended (trace s)"
    using assms(1) unfolding exec_at_def progress_ok_def by blast
  ultimately show False using assms(2) by simp
qed

lemma unique_token:
  assumes "exec_at h r n cur s" and "tasks s = xs @ tk # ys" and "p \<in># waits tk + works tk"
  shows "p \<notin># returned (trace s)" and "\<And>t. t \<in> set xs \<union> set ys \<Longrightarrow> p \<notin># waits t + works t"
proof -
  have act: "active s = waits tk + works tk + (waiting (xs @ ys) + working (xs @ ys) +
      returned (trace s))"
    using assms(2) by (simp add: active_def)
  have "count (active s) p \<le> 1" using assms(1) by (simp add: exec_at_def)
  moreover have "0 < count (waits tk + works tk) p" using assms(3) by simp
  ultimately have 0: "count (waiting (xs @ ys) + working (xs @ ys) + returned (trace s)) p = 0"
    unfolding act count_union by linarith
  then show "p \<notin># returned (trace s)" by (simp add: not_in_iff)
  show "p \<notin># waits t + works t" if "t \<in> set xs \<union> set ys" for t
  proof -
    have "p \<notin># waiting (xs @ ys)" "p \<notin># working (xs @ ys)"
      using 0 by (metis add_is_0 count_union not_in_iff)+
    with that show ?thesis by auto
  qed
qed

lemma token_not_ended:
  assumes "exec_at h r n cur s" and "tasks s = xs @ tk # ys" and "p \<in># waits tk + works tk"
    and "\<And>i l. tk \<noteq> Outs p i l"
  shows "p \<notin> ended (trace s)"
proof
  assume "p \<in> ended (trace s)"
  then consider i l where "Outs p i l \<in> set (tasks s)" | "p \<in># returned (trace s)"
    using assms(1) by (auto simp: exec_at_def progress_ok_def)
  then show False
  proof cases
    case 1
    then have "Outs p i l \<in> set xs \<union> set ys" using assms(2,4) by auto
    from unique_token(2) [OF assms(1-3) this] show False by simp
  next
    case 2
    with unique_token(1) [OF assms(1-3)] show False by simp
  qed
qed

lemma exec_run:
  assumes "runnable h r n" and at: "exec_at h r n cur s" and ts: "tasks s = xs @ Run p # ys"
    and "(tk, e) \<in> {(Busy p, Begin p), (Async p, Begin p), (Outs p 0 None, Skip p)}"
  shows "exec_at h r n cur (s\<lparr>tasks := xs @ tk # ys, trace := trace s @ [e]\<rparr>)" (is "exec_at _ _ _ _ ?t")
proof -
  have "p \<in># active s" using ts by (simp add: active_def)
  then have inputs: "x \<in> ended (trace s)" if "(x, p) \<in> edges h" for x
    using active_inputs [OF assms(1) at] that by blast
  have p: "p \<notin> ended (trace s)" by (rule token_not_ended [OF at ts]) auto
  then have cur: "cur p = 0" by (rule not_ended_cur [OF at])
  have ret: "returned (trace ?t) = returned (trace s)" and beg: "begun (trace ?t) = add_mset p (begun (trace s))"
    using assms(4) by auto
  have w: "waits tk = {#}" "works tk = {#p#}" using assms(4) by auto
  have act: "active ?t = active s"
    using ts w ret by (simp add: active_def)
  have "progress_ok h cur ?t"
    using at ts assms(4) cur unfolding exec_at_def progress_ok_def by (auto 0 3)
  moreover have "in_order h (trace ?t)"
    using at assms(4) inputs by (auto simp: exec_at_def intro!: in_order_snoc)
  moreover have "counters_ok h n cur ?t" using at by (simp add: exec_at_def counters_ok_def)
  ultimately show ?thesis
    using at act ts w beg ret by (simp add: exec_at_def)
qed

lemma exec_end:
  assumes at: "exec_at h r n cur s" and ts: "tasks s = xs @ tk # ys" and "tk \<in> {Busy p, Async p}"
  shows "exec_at h r n cur (s\<lparr>tasks := xs @ Outs p 0 None # ys, trace := trace s @ [End p]\<rparr>)"
    (is "exec_at _ _ _ _ ?t")
proof -
  have p: "p \<notin> ended (trace s)" by (rule token_not_ended [OF at ts]) (use assms(3) in auto)
  then have cur: "cur p = 0" by (rule not_ended_cur [OF at])
  have w: "waits tk = {#}" "works tk = {#p#}" using assms(3) by auto
  have act: "active ?t = active s" using ts w by (simp add: active_def)
  have "progress_ok h cur ?t"
    using at ts assms(3) cur unfolding exec_at_def progress_ok_def by (auto 0 3)
  moreover have "in_order h (trace ?t)"
    using at by (auto simp: exec_at_def intro!: in_order_snoc)
  moreover have "counters_ok h n cur ?t" using at by (simp add: exec_at_def counters_ok_def)
  ultimately show ?thesis
    using at act ts w by (simp add: exec_at_def)
qed

lemma exec_ret:
  assumes at: "exec_at h r n cur s" and ts: "tasks s = xs @ Outs p i lr # ys"
    and i: "\<not> i < length (out_nodes (h ! p))"
  shows "exec_at h r n cur (s\<lparr>tasks := xs @ (case lr of None \<Rightarrow> [] | Some l \<Rightarrow> [Run l]) @ ys,
      trace := trace s @ [Ret p]\<rparr>)" (is "exec_at _ _ _ _ ?t")
proof -
  note D = progress_okD [OF exec_at_progress [OF at]]
  have in_ts: "Outs p i lr \<in> set (tasks s)" using ts by simp
  have sub: "Outs x j l \<in> set (tasks ?t) \<longleftrightarrow> Outs x j l \<in> set xs \<union> set ys" for x j l
    by (auto split: option.splits)
  have others: "Outs x j l \<in> set (tasks s) \<longleftrightarrow> x = p \<and> j = i \<and> l = lr \<or> Outs x j l \<in> set xs \<union> set ys"
    for x j l using ts by auto
  have "progress_ok h cur ?t"
  proof (rule progress_okI)
    show "cur x = j \<and> j \<le> length (out_nodes (h ! x))" if "Outs x j l \<in> set (tasks ?t)" for x j l
      using that D(1,2) [of x j l] by (simp add: sub others)
    show "cur x = length (out_nodes (h ! x))" if "x \<in># returned (trace ?t)" for x
      using that D(3) [of x] D(1,2) [OF in_ts] i by auto
    show "x \<in> ended (trace ?t)" if "0 < cur x" for x using D(4) [OF that] by simp
    show "x \<in> ended (trace ?t) \<longleftrightarrow>
        (\<exists>j l. Outs x j l \<in> set (tasks ?t)) \<or> x \<in># returned (trace ?t)" for x
      using D(5) [of x] D(5) [of p] in_ts by (auto simp: sub others)
  qed
  moreover have "in_order h (trace ?t)"
    using at by (auto simp: exec_at_def intro!: in_order_snoc)
  moreover have "counters_ok h n cur ?t" using at by (simp add: exec_at_def counters_ok_def)
  moreover have "active ?t = active s" using ts by (cases lr) (simp_all add: active_def)
  moreover have "working (tasks s) = add_mset p (working (tasks ?t))"
    using ts by (cases lr) simp_all
  ultimately show ?thesis
    using at by (simp add: exec_at_def)
qed

text \<open>One turn of the loop of \<open>run_output_nodes_if_ready\<close>.\<close>

lemma notify_ok:
  assumes run: "runnable h r n" and cnt: "counters_ok h n cur s" and q: "q < n"
    and room: "notified h cur q < indeg h q"
  obtains c where "node_input_num_map s ! q = Some c"
    and "sint (c - 1) = int (indeg h q) - int (notified h cur q) - 1"
    and "notify fatal h q (node_input_num_map s) =
      Inr (Suc (notified h cur q) = indeg h q, (node_input_num_map s)[q := Some (c - 1)])"
proof -
  from cnt q obtain c where c: "node_input_num_map s ! q = Some c"
    "sint c = int (indeg h q) - int (notified h cur q)" "length (node_input_num_map s) = n"
    unfolding counters_ok_def by blast
  have id: "q < length h" "node_id (h ! q) = int q" "n < 2 ^ 31"
    using run runnable_len [OF run q] by (simp_all add: runnable_def)
  have "size_of_int (int q) = q" using q id(3) by simp
  moreover have one: "(sint c = 1) = (Suc (notified h cur q) = indeg h q)"
    using c(2) room by linarith
  ultimately have "notify fatal h q (node_input_num_map s) =
      Inr (Suc (notified h cur q) = indeg h q, (node_input_num_map s)[q := Some (c - 1)])"
    using c(1,3) q id one by (simp add: notify_def deref_def fetch_sub1_def)
  moreover have "sint (c - 1) = int (indeg h q) - int (notified h cur q) - 1"
    using c(2) room by (subst sint_dec32) auto
  ultimately show ?thesis using c(1) that by blast
qed

lemma notify_target:
  assumes run: "runnable h r n" and at: "exec_at h r n cur s"
    and ts: "tasks s = xs @ Outs p i lr # ys" and i: "i < length (out_nodes (h ! p))" and q: "q = out_nodes (h ! p) ! i"
  shows "p < n" and "q < n" and "q \<noteq> r" and "cur p = i"
    and "notified h (cur(p := Suc i)) x = notified h cur x + (if x = q then 1 else 0)"
    and "notified h cur q < indeg h q" and "q \<notin># active s"
proof -
  have "p \<in># active s" using ts by (simp add: active_def)
  then show p: "p < n" by (rule active_bound [OF run at])
  note out = runnable_output [OF run p i, folded q]
  show "q < n" by (rule out(1))
  show "q \<noteq> r" using run out(2) by (auto simp: runnable_def dag_from_def indeg_0)
  show c: "cur p = i" using progress_okD(1) [OF exec_at_progress [OF at], of p i lr] ts by simp
  have noti: "notified h (cur(p := Suc i)) x = notified h cur x + (if x = q then 1 else 0)" for x
    using notified_Suc [of p h cur x] runnable_len [OF run p] i c q by auto
  then show "notified h (cur(p := Suc i)) x = notified h cur x + (if x = q then 1 else 0)" .
  show "notified h cur q < indeg h q" using notified_le [of h "cur(p := Suc i)" q] noti [of q] by simp
  then show "q \<notin># active s" using at \<open>q \<noteq> r\<close> by (simp add: exec_at_def)
qed

lemma notify_progress:
  assumes at: "exec_at h r n cur s"
    and ts: "tasks s = xs @ Outs p i lr # ys" and i: "i < length (out_nodes (h ! p))"
    and t: "tasks t = xs @ Outs p (Suc i) l' # ys @ st" "trace t = trace s" and sub: "\<And>x j l. Outs x j l \<notin> set st"
  shows "progress_ok h (cur(p := Suc i)) t"
proof (rule progress_okI)
  note D = progress_okD [OF exec_at_progress [OF at]]
  have in_ts: "Outs p i lr \<in> set (tasks s)" using ts by simp
  have others: "Outs x j l \<in> set (tasks s) \<longleftrightarrow> x = p \<and> j = i \<and> l = lr \<or> Outs x j l \<in> set xs \<union> set ys"
    for x j l using ts by auto
  have neq: "x \<noteq> p" if "Outs x j l \<in> set xs \<union> set ys" for x j l
    using unique_token(2) [OF at ts, of p, OF _ that] by auto
  have ret: "p \<notin># returned (trace s)" using unique_token(1) [OF at ts, of p] by simp
  show "(cur(p := Suc i)) x = j \<and> j \<le> length (out_nodes (h ! x))" if "Outs x j l \<in> set (tasks t)" for x j l
    using that D(1,2) [of x j l] i neq [of x j l] by (auto simp: sub others t)
  show "(cur(p := Suc i)) x = length (out_nodes (h ! x))" if "x \<in># returned (trace t)" for x
    using that D(3) [of x] ret by (auto simp: t)
  show "x \<in> ended (trace t)" if "0 < (cur(p := Suc i)) x" for x
    using that D(4) [of x] D(5) [of p] in_ts by (auto simp: t split: if_splits)
  show "x \<in> ended (trace t) \<longleftrightarrow> (\<exists>j l. Outs x j l \<in> set (tasks t)) \<or> x \<in># returned (trace t)" for x
    using D(5) [of x] by (auto simp: sub others t)
qed

lemma exec_notify:
  assumes run: "runnable h r n" and at: "exec_at h r n cur s"
    and ts: "tasks s = xs @ Outs p i lr # ys" and i: "i < length (out_nodes (h ! p))"
    and q: "q = out_nodes (h ! p) ! i" and c: "node_input_num_map s ! q = Some c"
    and sc: "sint (c - 1) = int (indeg h q) - int (notified h cur q) - 1"
    and ready: "ready \<longleftrightarrow> Suc (notified h cur q) = indeg h q"
    and m: "m = (node_input_num_map s)[q := Some (c - 1)]"
    and cont: "cont = Outs p (Suc i) (if ready then Some q else lr)"
    and st: "st = (if ready then (case lr of None \<Rightarrow> [] | Some l \<Rightarrow> [Run l]) else [])"
  shows "exec_at h r n (cur(p := Suc i))
    (s\<lparr>node_input_num_map := m, tasks := xs @ cont # ys @ st\<rparr>)" (is "exec_at _ _ _ ?cur ?t")
proof -
  note nt = notify_target [OF run at ts i q]
  have "counters_ok h n ?cur ?t"
    using at sc nt(2,5) unfolding exec_at_def counters_ok_def m by (auto simp: nth_list_update)
  moreover have "progress_ok h ?cur ?t"
  proof (rule notify_progress [OF at ts i])
    show "tasks ?t = xs @ Outs p (Suc i) (if ready then Some q else lr) # ys @ st" by (simp add: cont)
    show "Outs x j l \<notin> set st" for x j l
      using st by (cases lr; cases ready) simp_all
  qed simp
  moreover have act: "active ?t = active s + (if ready then {#q#} else {#})"
    unfolding cont st using ts by (cases lr; cases ready) (simp_all add: active_def)
  moreover have "count (active ?t) x \<le> 1" for x
  proof -
    have "count (active s) x \<le> 1" using at by (simp add: exec_at_def)
    moreover have "count (active s) q = 0" using nt(7) by (simp only: not_in_iff)
    ultimately show ?thesis by (cases "x = q") (simp_all add: act)
  qed
  moreover have "x \<in># active ?t \<longleftrightarrow>
      x = r \<or> (x < n \<and> 0 < indeg h x \<and> notified h ?cur x = indeg h x)" for x
    using at nt(2,3,6,7) ready nt(5) [of x] unfolding act by (cases "x = q") (auto simp: exec_at_def)
  moreover have "working (tasks ?t) = working (tasks s)"
    unfolding cont st using ts by (cases lr; cases ready) simp_all
  ultimately show ?thesis using at by (simp add: exec_at_def)
qed

text \<open>
  What a step of an execution can be. The second fact of the rule is that no task of a state
  that satisfies the invariant can fail.
\<close>

lemma sched_cases:
  assumes rn: "runnable h r n" and at: "exec_at h r n cur s" and k: "k < length (tasks s)"
  obtains
    (run) xs p ys tk e where "tasks s = xs @ Run p # ys"
      "(tk, e) \<in> {(Busy p, Begin p), (Async p, Begin p), (Outs p 0 None, Skip p)}"
      "sched fatal env h k s = Inr (s\<lparr>tasks := xs @ tk # ys, trace := trace s @ [e]\<rparr>)"
  | (finish) xs tk p ys where "tasks s = xs @ tk # ys" "tk \<in> {Busy p, Async p}"
      "sched fatal env h k s =
        Inr (s\<lparr>tasks := xs @ Outs p 0 None # ys, trace := trace s @ [End p]\<rparr>)"
  | (ret) xs p i lr ys where "tasks s = xs @ Outs p i lr # ys" "\<not> i < length (out_nodes (h ! p))"
      "sched fatal env h k s =
        Inr (s\<lparr>tasks := xs @ (case lr of None \<Rightarrow> [] | Some l \<Rightarrow> [Run l]) @ ys,
            trace := trace s @ [Ret p]\<rparr>)"
  | (notify) xs p i lr ys q c ready m cont st where "tasks s = xs @ Outs p i lr # ys"
      "i < length (out_nodes (h ! p))" "q = out_nodes (h ! p) ! i"
      "node_input_num_map s ! q = Some c"
      "sint (c - 1) = int (indeg h q) - int (notified h cur q) - 1"
      "ready \<longleftrightarrow> Suc (notified h cur q) = indeg h q"
      "m = (node_input_num_map s)[q := Some (c - 1)]"
      "cont = Outs p (Suc i) (if ready then Some q else lr)"
      "st = (if ready then (case lr of None \<Rightarrow> [] | Some l \<Rightarrow> [Run l]) else [])"
      "sched fatal env h k s =
        Inr (s\<lparr>node_input_num_map := m, tasks := xs @ cont # ys @ st\<rparr>)"
proof -
  let ?xs = "take k (tasks s)" and ?ys = "drop (Suc k) (tasks s)"
  have ts: "tasks s = ?xs @ tasks s ! k # ?ys" using k by (rule nth_split)
  consider p where "tasks s ! k = Run p" | p where "tasks s ! k = Busy p \<or> tasks s ! k = Async p"
    | p i lr where "tasks s ! k = Outs p i lr" by (cases "tasks s ! k") auto
  then show ?thesis
  proof cases
    case 1
    show ?thesis
      by (rule run [of ?xs p ?ys "if skip env p then Outs p 0 None else
          if node_type env p = ''cpu'' then Busy p else Async p"
          "if skip env p then Skip p else Begin p"])
        (use ts 1 in \<open>auto simp: sched_def\<close>)
  next
    case 2
    show ?thesis
      by (rule finish [of ?xs "tasks s ! k" ?ys p]) (use ts 2 in \<open>auto simp: sched_def\<close>)
  next
    case 3
    with ts have ts': "tasks s = ?xs @ Outs p i lr # ?ys" by simp
    have "p \<in># active s" by (rule token_active [OF ts']) simp
    then have p: "p < n" by (rule active_bound [OF rn at])
    have der: "deref h p = Inr (h ! p)" using runnable_len [OF rn p] by (simp add: deref_def)
    show ?thesis
    proof (cases "i < length (out_nodes (h ! p))")
      case False
      show ?thesis
        by (rule ret [OF ts' False]) (use 3 der False in \<open>cases lr; simp add: sched_def\<close>)
    next
      case True
      let ?q = "out_nodes (h ! p) ! i"
      have q: "?q < n" using runnable_output [OF rn p True] by simp
      have "cur p = i"
        using progress_okD(1) [OF exec_at_progress [OF at], of p i lr] ts' by (metis in_set_conv_decomp)
      then have "notified h (cur(p := Suc i)) ?q = Suc (notified h cur ?q)"
        using notified_Suc [of p h cur ?q] runnable_len [OF rn p] True by simp
      then have room: "notified h cur ?q < indeg h ?q"
        using notified_le [of h "cur(p := Suc i)" ?q] by simp
      have "counters_ok h n cur s" using at by (simp add: exec_at_def)
      then obtain c where c: "node_input_num_map s ! ?q = Some c"
        "sint (c - 1) = int (indeg h ?q) - int (notified h cur ?q) - 1"
        "GraphExec.notify fatal h ?q (node_input_num_map s) =
          Inr (Suc (notified h cur ?q) = indeg h ?q, (node_input_num_map s)[?q := Some (c - 1)])"
        using notify_ok [OF rn _ q room, of s fatal] by blast
      show ?thesis
        by (rule notify [OF ts' True refl c(1,2) refl refl refl refl])
          (use 3 der True c(3) in \<open>cases lr; simp add: sched_def Let_def\<close>)
    qed
  qed
qed

lemma exec_step_inv:
  assumes "exec_inv h r n s" and "exec_step fatal env h s t"
  shows "exec_inv h r n t"
proof -
  from assms(1) obtain cur where run: "runnable h r n" and at: "exec_at h r n cur s"
    by (auto simp: exec_inv_def)
  from assms(2) obtain k where k: "k < length (tasks s)" "sched fatal env h k s = Inr t"
    by (cases rule: exec_step.cases) auto
  from run at k(1) show ?thesis
  proof (cases rule: sched_cases [where fatal = fatal and env = env])
    case run': (run xs p ys tk e)
    with exec_run [OF run at run'(1,2)] k(2) run show ?thesis by (auto simp: exec_inv_def)
  next
    case (finish xs tk p ys)
    with exec_end [OF at finish(1,2)] k(2) run show ?thesis by (auto simp: exec_inv_def)
  next
    case (ret xs p i lr ys)
    with exec_ret [OF at ret(1,2)] k(2) run show ?thesis by (auto simp: exec_inv_def)
  next
    case (notify xs p i lr ys q c ready m cont st)
    with exec_notify [OF run at notify(1-9)] k(2) run show ?thesis by (auto simp: exec_inv_def)
  qed
qed

lemma sched_succeeds:
  assumes "exec_inv h r n s" and "k < length (tasks s)"
  shows "\<exists>t. sched fatal env h k s = Inr t"
proof -
  from assms(1) obtain cur where run: "runnable h r n" and at: "exec_at h r n cur s"
    by (auto simp: exec_inv_def)
  from run at assms(2) show ?thesis
    by (cases rule: sched_cases [where fatal = fatal and env = env]) blast+
qed

section \<open>Every run ends\<close>

definition cost :: "node list \<Rightarrow> ptr \<Rightarrow> nat" where
  "cost h p = length (out_nodes (h ! p)) + 3"

fun weight :: "node list \<Rightarrow> task \<Rightarrow> nat" where
  "weight h (Run p) = cost h p"
| "weight h (Busy p) = length (out_nodes (h ! p)) + 2"
| "weight h (Async p) = length (out_nodes (h ! p)) + 2"
| "weight h (Outs p i lr) = (length (out_nodes (h ! p)) - i) + 1 +
     (case lr of None \<Rightarrow> 0 | Some l \<Rightarrow> cost h l)"

definition exec_mu :: "node list \<Rightarrow> nat \<Rightarrow> exec \<Rightarrow> nat" where
  "exec_mu h n s = (\<Sum>q\<in>{..<n} - set_mset (active s). cost h q) +
     sum_list (map (weight h) (tasks s))"

lemma notify_mu:
  assumes q: "q < n" "q \<notin># active s" and act: "active t = add_mset q (active s)"
    and w: "sum_list (map (weight h) (tasks t)) + 1 = sum_list (map (weight h) (tasks s)) + cost h q"
  shows "exec_mu h n t < exec_mu h n s"
proof -
  have "{..<n} - set_mset (active s) = insert q ({..<n} - set_mset (active t))" using q by (auto simp: act)
  moreover have "q \<notin> {..<n} - set_mset (active t)" by (simp add: act)
  ultimately have "(\<Sum>x\<in>{..<n} - set_mset (active s). cost h x) =
      cost h q + (\<Sum>x\<in>{..<n} - set_mset (active t). cost h x)" by simp
  with w show ?thesis by (simp add: exec_mu_def)
qed

lemma exec_step_mu:
  assumes "exec_inv h r n s" and "exec_step fatal env h s t"
  shows "exec_mu h n t < exec_mu h n s"
proof -
  from assms(1) obtain cur where run: "runnable h r n" and at: "exec_at h r n cur s"
    by (auto simp: exec_inv_def)
  from assms(2) obtain k where k: "k < length (tasks s)" "sched fatal env h k s = Inr t"
    by (cases rule: exec_step.cases) auto
  from run at k(1) show ?thesis
  proof (cases rule: sched_cases [where fatal = fatal and env = env])
    case run': (run xs p ys tk e)
    then have t: "t = s\<lparr>tasks := xs @ tk # ys, trace := trace s @ [e]\<rparr>" using k(2) by simp
    have "active t = active s" using run'(1,2) by (auto simp: t active_def)
    moreover have "weight h tk < cost h p" using run'(2) by (auto simp: cost_def)
    ultimately show ?thesis using run'(1) by (simp add: exec_mu_def t)
  next
    case (finish xs tk p ys)
    then have t: "t = s\<lparr>tasks := xs @ Outs p 0 None # ys, trace := trace s @ [End p]\<rparr>"
      using k(2) by simp
    have "active t = active s" using finish(1,2) by (auto simp: t active_def)
    then show ?thesis using finish(1,2) by (auto simp: exec_mu_def t)
  next
    case (ret xs p i lr ys)
    then have t: "t = s\<lparr>tasks := xs @ (case lr of None \<Rightarrow> [] | Some l \<Rightarrow> [Run l]) @ ys,
        trace := trace s @ [Ret p]\<rparr>" using k(2) by simp
    have "active t = active s" using ret(1) by (cases lr) (auto simp: t active_def)
    then show ?thesis using ret(1) by (cases lr) (auto simp: exec_mu_def t)
  next
    case (notify xs p i lr ys q c ready m cont st)
    then have t: "t = s\<lparr>node_input_num_map := m, tasks := xs @ cont # ys @ st\<rparr>" using k(2) by simp
    note nt = notify_target [OF run at notify(1-3)]
    show ?thesis
    proof (cases ready)
      case False
      then have "active t = active s" using notify(1,8,9) by (cases lr) (auto simp: t active_def)
      then show ?thesis
        using notify(1,2,8,9) False by (simp add: exec_mu_def t split: option.splits)
    next
      case True
      have "active t = add_mset q (active s)"
        using True notify(1,8,9) by (cases lr) (simp_all add: t active_def)
      moreover have "sum_list (map (weight h) (tasks t)) + 1 = sum_list (map (weight h) (tasks s)) + cost h q"
        using notify(1,2,8,9) True by (cases lr) (simp_all add: t)
      ultimately show ?thesis by (rule notify_mu [OF nt(2,7)])
    qed
  qed
qed

interpretation exec: terminating_system "exec_step fatal env h" "exec_inv h r n" "exec_mu h n"
  for fatal env h r n
  by unfold_locales (fact exec_step_inv, fact exec_step_mu)

section \<open>The start of a run\<close>

definition prepared :: "graph \<Rightarrow> node list \<Rightarrow> ptr \<Rightarrow> nat \<Rightarrow> bool" where
  "prepared g h r n \<longleftrightarrow> runnable h r n \<and> root_node g = Some r \<and>
     set (all_nodes g) = reach h r \<and> distinct (all_nodes g) \<and>
     int n \<le> max_node_id g + 1 \<and> max_node_id g < 2 ^ 62"

lemma set_counters:
  assumes "\<And>p. p \<in> set ps \<Longrightarrow> p < length h \<and> node_id (h ! p) = int p \<and> p < length m \<and> p < length ctx"
    and "length m < 2 ^ 62"
  shows "\<exists>m' ctx'. fold_res (set_counter fatal h) ps (m, ctx) = Inr (m', ctx') \<and>
    length m' = length m \<and> length ctx' = length ctx \<and>
    (\<forall>q<length m.
      m' ! q = (if q \<in> set ps then Some (word_of_int (input_num (h ! q))) else m ! q)) \<and>
    (\<forall>q<length ctx.
      ctx' ! q = (if q \<in> set ps then Some (service_context_factory (h ! q)) else ctx ! q))"
  using assms
proof (induction ps arbitrary: m ctx)
  case (Cons p ps)
  let ?m = "m[p := Some (word_of_int (input_num (h ! p)))]"
    and ?ctx = "ctx[p := Some (service_context_factory (h ! p))]"
  have p: "p < length h" "node_id (h ! p) = int p" "p < length m" "p < length ctx"
    using Cons.prems(1) [of p] by auto
  have "size_of_int (int p) = p" using p(3) Cons.prems(2) by simp
  then have step: "set_counter fatal h p (m, ctx) = Inr (?m, ?ctx)"
    using p by (simp add: set_counter_def deref_def Let_def)
  have "\<And>x. x \<in> set ps \<Longrightarrow>
      x < length h \<and> node_id (h ! x) = int x \<and> x < length ?m \<and> x < length ?ctx"
    using Cons.prems(1) by simp
  from Cons.IH [OF this] Cons.prems(2) obtain m' ctx' where
    IH: "fold_res (set_counter fatal h) ps (?m, ?ctx) = Inr (m', ctx')"
      "length m' = length m" "length ctx' = length ctx"
      "\<forall>q<length m.
        m' ! q = (if q \<in> set ps then Some (word_of_int (input_num (h ! q))) else ?m ! q)"
      "\<forall>q<length ctx.
        ctx' ! q = (if q \<in> set ps then Some (service_context_factory (h ! q)) else ?ctx ! q)"
    by auto
  show ?case
    by (intro exI [of _ m'] exI [of _ ctx']) (use step IH in \<open>auto simp: nth_list_update\<close>)
qed simp

lemma all_nodes_length:
  assumes "prepared g h r n"
  shows "length (all_nodes g) = n"
proof -
  have "card (set (all_nodes g)) = card {..<n}" using assms by (simp add: prepared_def runnable_def)
  moreover have "distinct (all_nodes g)" using assms by (simp add: prepared_def)
  ultimately show ?thesis by (metis card_lessThan distinct_card)
qed

lemma run_prepared:
  assumes "prepared g h r n"
  obtains s where "run fatal g h = Inr (0, Some s)" and "exec_inv h r n s"
    and "tasks s = [Run r]" and "trace s = []"
    and "exec_mu h n s = (\<Sum>p<n. cost h p)"
    and "n \<le> length (node_service_context_vec s)"
    and "\<forall>p<n. node_service_context_vec s ! p = Some (service_context_factory (h ! p))"
    and "length (node_input_num_map s) = n"
    and "\<forall>p<n. \<exists>c. node_input_num_map s ! p = Some c \<and> sint c = int (indeg h p)"
proof -
  from assms have rn: "runnable h r n" and all: "set (all_nodes g) = {..<n}"
    and root: "root_node g = Some r" by (auto simp: prepared_def runnable_def)
  have len: "length (all_nodes g) = n" using assms by (rule all_nodes_length)
  have r: "r < n" using rn by (rule runnable_root)
  let ?m = "replicate n (None :: atomic_int option)"
    and ?ctx = "replicate (size_of_int (max_node_id g + 1)) (None :: string option)"
  have size: "n \<le> length ?ctx" using assms r by (auto simp: prepared_def)
  have "p < length h \<and> node_id (h ! p) = int p \<and> p < length ?m \<and> p < length ?ctx"
    if "p \<in> set (all_nodes g)" for p
    using that all size rn runnable_len [OF rn, of p] by (simp add: runnable_def)
  moreover have "length ?m < 2 ^ 62" using rn by (simp add: runnable_def)
  ultimately obtain m ctx where fold: "fold_res (set_counter fatal h) (all_nodes g) (?m, ?ctx) = Inr (m, ctx)"
    and m: "length m = n" "\<And>q. q < n \<Longrightarrow> m ! q = Some (word_of_int (input_num (h ! q)))"
    and ctx: "n \<le> length ctx" "\<And>q. q < n \<Longrightarrow> ctx ! q = Some (service_context_factory (h ! q))"
    using set_counters [of "all_nodes g" h ?m ?ctx fatal] all size by fastforce
  let ?s = "\<lparr>node_input_num_map = m, node_service_context_vec = ctx, tasks = [Run r], trace = []\<rparr>"
  have counter: "\<exists>c. m ! q = Some c \<and> sint c = int (indeg h q)" if "q < n" for q
  proof -
    from \<open>q < n\<close> have "input_num (h ! q) = int (indeg h q)" "indeg h q < 2 ^ 31"
      using rn runnable_len [OF rn] by (auto simp: runnable_def counts_ok_def)
    then have "sint (word_of_int (input_num (h ! q)) :: atomic_int) = int (indeg h q)"
      using sint_of_nat32 [of "indeg h q"] by simp
    with \<open>q < n\<close> show ?thesis by (simp add: m(2))
  qed
  then have "counters_ok h n (\<lambda>_. 0) ?s" by (simp add: counters_ok_def m(1))
  then have "exec_inv h r n ?s"
    unfolding exec_inv_def exec_at_def
    by (intro conjI exI [of _ "\<lambda>_. 0"] rn) (auto simp: active_def progress_ok_def)
  moreover have "exec_mu h n ?s = (\<Sum>p<n. cost h p)"
    using r by (simp add: exec_mu_def active_def sum.remove [of "{..<n}" r])
  moreover have "run fatal g h = Inr (0, Some ?s)"
    using root len r fold by (simp add: run_def)
  ultimately show ?thesis using that [of ?s] ctx m(1) counter by simp
qed

end
