(* ===== verification/GraphRun.thy ===== *)
theory GraphRun
  imports GraphExec
begin

text \<open>
  What the execution of an accepted graph guarantees under every interleaving: each node is
  served once and after its inputs, nothing fails, and every run ends with every node served.
  Then the condition on node ids under which a run can start at all.
\<close>

section \<open>From the initialisation to a run\<close>

lemma init_result:
  assumes "closed_heap h0" and "check_fresh h0" and "r < length h0"
    and "init fatal (Some r) nm g0 h0 = Inr (0, g, h)"
  shows "dag_from h0 r" and "same_nodes h0 h" and "root_node g = Some r"
    and "set (all_nodes g) = reach h0 r" and "distinct (all_nodes g)"
    and "max_node_id g = max_node_id g0"
proof -
  obtain all h' where *: "distinct all" "set all = reach h0 r" "same_nodes h0 h'"
    and i: "init fatal (Some r) nm g0 h0 =
      (let g' = (if nm \<noteq> [] then g0\<lparr>graph_name := nm\<rparr> else g0)
         \<lparr>root_node := Some r, all_nodes := all\<rparr>
       in if dag_from h0 r then Inr (0, g', h') else log_fatal fatal (-1, g', h'))"
    using init_spec [OF assms(1-3)] by metis
  have dag: "dag_from h0 r" using assms(4) i by (auto simp: Let_def log_fatal_def split: if_splits)
  then have g: "g = (if nm \<noteq> [] then g0\<lparr>graph_name := nm\<rparr> else g0)\<lparr>root_node := Some r, all_nodes := all\<rparr>"
    and h: "h = h'" using assms(4) i by (auto simp: Let_def split: if_splits)
  show "dag_from h0 r" "same_nodes h0 h" "root_node g = Some r"
    "set (all_nodes g) = reach h0 r" "distinct (all_nodes g)" "max_node_id g = max_node_id g0"
    using dag * by (simp_all add: g h)
qed

lemma same_nodes_reach: "same_nodes h h' \<Longrightarrow> reach h' r = reach h r"
  by (simp add: reach_def same_nodes_edges)

lemma same_nodes_dag: "same_nodes h h' \<Longrightarrow> dag_from h' r = dag_from h r"
  by (simp add: dag_from_def same_nodes_edges same_nodes_indeg same_nodes_reach)

lemma init_prepared:
  assumes "closed_heap h0" and "check_fresh h0" and "counts_ok h0" and "r < length h0"
    and "\<And>p. p < length h0 \<Longrightarrow> node_id (h0 ! p) = int p"
    and "\<And>p. p < length h0 \<Longrightarrow> indeg h0 p < 2 ^ 31" and "length h0 < 2 ^ 31"
    and "reach h0 r = {..<n}" and "int n \<le> max_node_id g0 + 1" and "max_node_id g0 < 2 ^ 62"
    and "init fatal (Some r) nm g0 h0 = Inr (0, g, h)"
  shows "prepared g h r n"
proof -
  note i = init_result [OF assms(1,2,4,11)]
  have len: "length h = length h0" using i(2) by (rule same_nodes_len)
  have "fires h0 r p" if "p < n" for p
    using dag_fires [OF i(1) assms(1,4)] assms(8) that by simp
  then have sub: "p < length h0" if "p < n" for p using that fires_bound by blast
  then have "n \<le> length h0" by (meson leI less_irrefl)
  then have "runnable h r n"
    using assms i(1,2) len sub
    by (auto simp: runnable_def same_nodes_closed same_nodes_counts same_nodes_dag
        same_nodes_reach same_nodes_indeg same_nodes_fields)
  then show ?thesis using i assms(8-10) by (simp add: prepared_def same_nodes_reach)
qed

lemma run_schedule_steps:
  "run_schedule fatal env h ks s = Inr t \<Longrightarrow> (exec_step fatal env h)\<^sup>*\<^sup>* s t"
proof (induction ks arbitrary: s)
  case (Cons k ks)
  then show ?case
    by (auto simp: res_simps split: if_splits
        intro: converse_rtranclp_into_rtranclp exec_step.intros)
qed simp

section \<open>The example of the unit test\<close>

definition unit_env :: exec_env where
  "unit_env = \<lparr>skip = (\<lambda>_. False), node_type = (\<lambda>_. ''cpu'')\<rparr>"

definition unit_graph :: graph where
  "unit_graph = new_graph\<lparr>max_node_id := 4\<rparr>"

definition unit_inited :: graph where
  "unit_inited = \<lparr>max_node_id = 4, root_node = Some 0, all_nodes = [0, 1, 2, 3],
     graph_name = ''graph1''\<rparr>"

definition unit_nodes :: "node list" where
  "unit_nodes = map (\<lambda>n. n\<lparr>input_num_4_check := 0\<rparr>) diamond"

definition unit_start :: exec where
  "unit_start = \<lparr>node_input_num_map = [Some 0, Some 1, Some 1, Some 2],
     node_service_context_vec = [Some ''StartService'', Some ''StartService'',
       Some ''StartService'', Some ''DoneService'', None],
     tasks = [Run 0], trace = []\<rparr>"

lemma unit_init: "init False (Some 0) ''graph1'' unit_graph diamond = Inr (0, unit_inited, unit_nodes)"
  by (simp add: diamond_def init_def check_def deref_def unit_graph_def new_graph_def Let_def
      unit_inited_def unit_nodes_def numeral_eq_Suc)

lemma unit_run: "run False unit_inited unit_nodes = Inr (0, Some unit_start)"
  by (simp add: diamond_def run_def set_counter_def deref_def Let_def unit_start_def
      unit_inited_def unit_nodes_def numeral_eq_Suc)

definition unit_final :: exec where
  "unit_final = \<lparr>node_input_num_map = [Some 0, Some 0, Some 0, Some 0],
     node_service_context_vec = [Some ''StartService'', Some ''StartService'',
       Some ''StartService'', Some ''DoneService'', None],
     tasks = [],
     trace = [Begin 0, End 0, Ret 0, Begin 2, End 2, Ret 2, Begin 1, End 1, Ret 1,
       Begin 3, End 3, Ret 3]\<rparr>"

lemma unit_schedule:
  "run_schedule False unit_env unit_nodes (replicate 16 0) unit_start = Inr unit_final"
  by code_simp

lemma unit_steps: "(exec_step False unit_env unit_nodes)\<^sup>*\<^sup>* unit_start unit_final"
  using unit_schedule by (rule run_schedule_steps)

lemma unit_reach: "reach diamond 0 = {..<4}"
proof -
  have "reach diamond 0 = set (all_nodes unit_inited)"
    using init_result(4) [OF diamond_ok(1,2) _ unit_init] diamond_ok(4) by simp
  also have "\<dots> = {..<4}" unfolding unit_inited_def by (simp, simp add: set_eq_iff less_4)
  finally show ?thesis .
qed

lemma diamond_fields:
  "list_all (\<lambda>p. node_id (diamond ! p) = int p \<and> indeg diamond p \<le> 2) [0..<4]"
  by code_simp

lemma diamond_facts:
  assumes "p < length diamond"
  shows "node_id (diamond ! p) = int p \<and> indeg diamond p < 2 ^ 31"
proof -
  have "node_id (diamond ! p) = int p \<and> indeg diamond p \<le> 2"
    using assms diamond_fields by (simp add: diamond_ok(4) list_all_iff)
  then show ?thesis by (simp add: order.strict_trans1)
qed

lemma unit_prepared: "prepared unit_inited unit_nodes 0 4"
  by (rule init_prepared [OF diamond_ok(1-3) _ _ _ _ unit_reach _ _ unit_init])
    (use diamond_facts in \<open>auto simp: diamond_ok(4) unit_graph_def\<close>)

section \<open>The guarantees of a run\<close>

lemma prepared_start:
  assumes "prepared g h r n" and "run fatal g h = Inr (0, Some s0)"
  shows "exec_inv h r n s0" and "tasks s0 = [Run r]" and "trace s0 = []"
    and "exec_mu h n s0 = (\<Sum>p<n. cost h p)"
  using run_prepared [OF assms(1), of fatal] assms(2) by (metis Pair_inject option.inject sum.inject(2))+

lemma exec_once_in_order:
  assumes "exec_inv h r n s"
  shows "count (begun (trace s)) p \<le> 1" and "in_order h (trace s)"
proof -
  obtain cur where at: "exec_at h r n cur s" using assms by (auto simp: exec_inv_def)
  have "count (begun (trace s)) p \<le> count (active s) p"
    using at by (simp add: exec_at_def active_def)
  then show "count (begun (trace s)) p \<le> 1" using at by (meson exec_at_def le_trans)
  show "in_order h (trace s)" using at by (simp add: exec_at_def)
qed

lemma exec_final:
  assumes "exec_inv h r n s" and "tasks s = []"
  shows "begun (trace s) = mset_set {..<n}" and "ended (trace s) = {..<n}"
proof -
  from assms(1) obtain cur where rn: "runnable h r n" and at: "exec_at h r n cur s"
    by (auto simp: exec_inv_def)
  have act: "active s = returned (trace s)" and beg: "begun (trace s) = returned (trace s)"
    using at assms(2) by (simp_all add: active_def exec_at_def)
  have char: "q \<in># returned (trace s) \<longleftrightarrow>
      q = r \<or> (q < n \<and> 0 < indeg h q \<and> notified h cur q = indeg h q)" for q
    using at unfolding act [symmetric] by (simp add: exec_at_def)
  have "q \<in># returned (trace s)" if "fires h r q" for q
    using that
  proof (induction rule: fires.induct)
    case root
    show ?case using char by simp
  next
    case (inputs q)
    then have "notified h cur q = indeg h q"
      using progress_okD(3) [OF exec_at_progress [OF at]] by (intro notified_all_preds) blast
    moreover have "q < n"
      using inputs fires_reach [OF fires.inputs [OF inputs.hyps(1,2)]] rn
      by (auto simp: runnable_def)
    ultimately show ?case using char inputs.hyps by simp
  qed
  then have "q \<in># returned (trace s)" if "q < n" for q
    using that dag_fires rn by (auto simp: runnable_def)
  then have all: "set_mset (returned (trace s)) = {..<n}"
    using char runnable_root [OF rn] by auto
  moreover have "count (returned (trace s)) q \<le> 1" for q
    using at act by (simp add: exec_at_def)
  ultimately have "returned (trace s) = mset_set {..<n}"
    by (intro multiset_eqI) (metis One_nat_def antisym_conv count_mset_set count_greater_zero_iff
        finite_lessThan le_less_Suc_eq less_Suc0 not_in_iff Suc_leI)
  then show "begun (trace s) = mset_set {..<n}" using beg by simp
  show "ended (trace s) = {..<n}"
  proof -
    have "ended (trace s) = set_mset (returned (trace s))"
      using progress_okD(5) [OF exec_at_progress [OF at]] assms(2) by auto
    then show ?thesis using all by (rule trans)
  qed
qed

lemma exec_can_end:
  assumes "exec_inv h r n s"
  shows "\<exists>t. (exec_step fatal env h)\<^sup>*\<^sup>* s t \<and> tasks t = []"
proof -
  from exec.ends [OF assms] obtain t where t: "(exec_step fatal env h)\<^sup>*\<^sup>* s t"
    "\<forall>u. \<not> exec_step fatal env h t u" by blast
  have "exec_inv h r n t" using exec.steps_inv [OF t(1) assms] .
  then have "tasks t = []"
    using t(2) sched_succeeds [of h r n t 0 fatal env] by (metis exec_step.intros length_greater_0_conv)
  with t(1) show ?thesis by blast
qed

lemma prepared_all_nodes: "prepared g h r n \<Longrightarrow> mset (all_nodes g) = mset_set {..<n} \<and> set (all_nodes g) = {..<n}"
proof -
  assume p: "prepared g h r n"
  then have s: "set (all_nodes g) = {..<n}" by (simp add: prepared_def runnable_def)
  moreover have "mset_set (set (all_nodes g)) = mset (all_nodes g)"
    using p by (intro mset_set_set) (simp add: prepared_def)
  ultimately show ?thesis by simp
qed

text \<open>C22: once \<open>Graph::init\<close> has accepted a graph whose nodes are all reachable, \<open>Graph::run\<close>
  starts its execution without an error and returns 0; the request context holds, for every
  node, a counter with the number of edges that lead to it and a context made by the factory of
  that node's class, and the root is the only node that is started.\<close>

theorem init_then_run:
  assumes "closed_heap h0" and "check_fresh h0" and "counts_ok h0" and "r < length h0"
    and "\<And>p. p < length h0 \<Longrightarrow> node_id (h0 ! p) = int p \<and> indeg h0 p < 2 ^ 31"
    and "length h0 < 2 ^ 31" and "reach h0 r = {..<length h0}"
    and "max_node_id g0 = int (length h0)"
    and "init fatal (Some r) nm g0 h0 = Inr (0, g, h)"
  shows "\<exists>s. run fatal g h = Inr (0, Some s) \<and> tasks s = [Run r] \<and> trace s = [] \<and>
    length (node_input_num_map s) = length h0 \<and>
    (\<forall>p<length h0.
      (\<exists>c. node_input_num_map s ! p = Some c \<and> sint c = int (indeg h0 p)) \<and>
      get_context fatal s (int p) = Inr (Some (service_context_factory (h0 ! p))))"
proof -
  have "prepared g h r (length h0)" by (rule init_prepared [OF assms(1-4) _ _ _ _ _ _ assms(9)])
      (use assms in auto)
  then obtain s where s: "run fatal g h = Inr (0, Some s)" "exec_inv h r (length h0) s"
    "tasks s = [Run r]" "trace s = []" "exec_mu h (length h0) s = (\<Sum>p<length h0. cost h p)"
    "length h0 \<le> length (node_service_context_vec s)"
    "\<forall>p<length h0. node_service_context_vec s ! p = Some (service_context_factory (h ! p))"
    "length (node_input_num_map s) = length h0"
    "\<forall>p<length h0. \<exists>c. node_input_num_map s ! p = Some c \<and> sint c = int (indeg h p)"
    by (rule run_prepared [of g h r "length h0" fatal])
  have same: "same_nodes h0 h" by (rule init_result(2) [OF assms(1,2,4,9)])
  show ?thesis
    using s(1,3,4,6-9) assms(6) by (auto simp: get_context_def same_nodes_indeg [OF same] same_nodes_fields [OF same])
qed

theorem init_then_run_witness:
  "\<exists>s. run False unit_inited unit_nodes = Inr (0, Some s) \<and> tasks s = [Run 0] \<and> trace s = [] \<and>
    length (node_input_num_map s) = length diamond \<and>
    (\<forall>p<length diamond.
      (\<exists>c. node_input_num_map s ! p = Some c \<and> sint c = int (indeg diamond p)) \<and>
      get_context False s (int p) = Inr (Some (service_context_factory (diamond ! p))))"
  by (rule init_then_run [OF diamond_ok(1-3) _ _ _ _ _ unit_init])
    (use diamond_facts unit_reach in \<open>simp_all add: diamond_ok(4) unit_graph_def\<close>)

text \<open>C5: in every state that any interleaving of a run can reach, each node's \<open>do_service\<close>
  has been entered (or skipped) at most once, no node was started before all its inputs had
  ended, no counter of \<open>node_input_num_map\<close> is negative (the ``too many notify'' branch is
  dead), and every task can make its next move without an error.\<close>

theorem run_in_order:
  assumes "prepared g h r n" and "run fatal g h = Inr (0, Some s0)"
    and "(exec_step fatal env h)\<^sup>*\<^sup>* s0 s"
  shows "(\<forall>p. count (begun (trace s)) p \<le> 1) \<and> in_order h (trace s) \<and>
    (\<forall>q<n. \<exists>c. node_input_num_map s ! q = Some c \<and> 0 \<le> sint c) \<and>
    (\<forall>k<length (tasks s). \<exists>t. sched fatal env h k s = Inr t)"
proof -
  have inv: "exec_inv h r n s"
    using exec.steps_inv [OF assms(3)] prepared_start(1) [OF assms(1,2)] .
  then obtain cur where at: "exec_at h r n cur s" by (auto simp: exec_inv_def)
  note exec_once_in_order [OF inv]
  moreover have "\<exists>c. node_input_num_map s ! q = Some c \<and> 0 \<le> sint c" if q: "q < n" for q
  proof -
    obtain c where "node_input_num_map s ! q = Some c"
      "sint c = int (indeg h q) - int (notified h cur q)"
      using at q unfolding exec_at_def counters_ok_def by blast
    with notified_le [of h cur q] show ?thesis by auto
  qed
  ultimately show ?thesis using sched_succeeds [OF inv] by blast
qed

theorem run_in_order_witness:
  "(\<forall>p. count (begun (trace unit_final)) p \<le> 1) \<and> in_order unit_nodes (trace unit_final) \<and>
    (\<exists>c. node_input_num_map unit_final ! 3 = Some c \<and> 0 \<le> sint c)"
  using run_in_order [OF unit_prepared unit_run unit_steps] by simp

text \<open>C6: when no task is left, every node of the graph has been served (or skipped) exactly
  once and has ended: \<open>begun\<close> is the multiset of \<open>all_nodes\<close>.\<close>

theorem run_complete:
  assumes "prepared g h r n" and "run fatal g h = Inr (0, Some s0)"
    and "(exec_step fatal env h)\<^sup>*\<^sup>* s0 s" and "tasks s = []"
  shows "begun (trace s) = mset (all_nodes g) \<and> ended (trace s) = set (all_nodes g)"
proof -
  have "exec_inv h r n s" using exec.steps_inv [OF assms(3)] prepared_start(1) [OF assms(1,2)] .
  from exec_final [OF this assms(4)] prepared_all_nodes [OF assms(1)] show ?thesis by simp
qed

theorem run_complete_witness:
  "begun (trace unit_final) = mset (all_nodes unit_inited) \<and>
   ended (trace unit_final) = set (all_nodes unit_inited)"
  by (rule run_complete [OF unit_prepared unit_run unit_steps]) (simp add: unit_final_def)

text \<open>C7: a run cannot go on for ever: it takes at most \<open>3 + (outputs)\<close> steps per node, under
  every schedule, and from every state it can reach some schedule brings it to the end where no
  task is left.\<close>

theorem run_terminates:
  assumes "prepared g h r n" and "run fatal g h = Inr (0, Some s0)"
    and "(exec_step fatal env h ^^ k) s0 s"
  shows "k \<le> (\<Sum>p\<leftarrow>all_nodes g. length (out_nodes (h ! p)) + 3) \<and>
    (\<exists>t. (exec_step fatal env h)\<^sup>*\<^sup>* s t \<and> tasks t = [])"
proof
  note start = prepared_start [OF assms(1,2)]
  have "k \<le> (\<Sum>p<n. cost h p)"
    using exec.run_bound [OF assms(3) start(1)] start(4) by simp
  also have "\<dots> = (\<Sum>p\<in>set (all_nodes g). cost h p)"
    using assms(1) by (simp add: prepared_def runnable_def)
  also have "\<dots> = (\<Sum>p\<leftarrow>all_nodes g. length (out_nodes (h ! p)) + 3)"
    using assms(1) unfolding cost_def by (intro sum.distinct_set_conv_list) (simp add: prepared_def)
  finally show "k \<le> (\<Sum>p\<leftarrow>all_nodes g. length (out_nodes (h ! p)) + 3)" .
  have inv: "exec_inv h r n s" using exec.relpow_inv [OF assms(3) start(1)] .
  show "\<exists>t. (exec_step fatal env h)\<^sup>*\<^sup>* s t \<and> tasks t = []" by (rule exec_can_end [OF inv])
qed

theorem run_terminates_witness:
  "0 \<le> (\<Sum>p\<leftarrow>all_nodes unit_inited. length (out_nodes (unit_nodes ! p)) + 3) \<and>
   (\<exists>t. (exec_step False unit_env unit_nodes)\<^sup>*\<^sup>* unit_start t \<and> tasks t = [])"
  by (rule run_terminates [OF unit_prepared unit_run]) simp

section \<open>Nodes that cannot be reached\<close>

text \<open>
  Ids are given out as nodes are created, but the counter vector of a request has as many
  entries as there are reachable nodes. A run can start only when the reachable nodes have
  the smallest ids.
\<close>

lemma set_counters_outside:
  assumes "\<And>p. p \<in> set ps \<Longrightarrow> p < length h \<and> node_id (h ! p) = int p \<and> p < length ctx"
    and "length h < 2 ^ 62" and "\<not> set ps \<subseteq> {..<length m}"
  shows "fold_res (set_counter fatal h) ps (m, ctx) = Inl (if fatal then Fatal_Abort else Bad_Ptr)"
  using assms
proof (induction ps arbitrary: m ctx)
  case (Cons p ps)
  have p: "p < length h" "node_id (h ! p) = int p" "size_of_int (int p) = p" "p < length ctx"
    using Cons.prems(1) [of p] Cons.prems(2) by auto
  show ?case
  proof (cases "p < length m")
    case True
    with p have "set_counter fatal h p (m, ctx) = Inr (m[p := Some (word_of_int (input_num (h ! p)))],
        ctx[p := Some (service_context_factory (h ! p))])"
      by (simp add: set_counter_def deref_def Let_def)
    with True Cons show ?thesis by simp
  next
    case False
    with p show ?thesis by (simp add: set_counter_def deref_def Let_def log_fatal_def)
  qed
qed simp

text \<open>C35: with ids given out in the order of creation, \<open>Graph::run\<close> of an initialised graph
  starts when the nodes reachable from the root are exactly the first ones created. In every
  other case, a node that the check accepted but that was created after an unreachable one
  among them, it reaches the \<open>LOG(FATAL)\<close> of the id that is too large: this aborts or, where it
  returns, the counter is written outside \<open>node_input_num_map\<close>.\<close>

theorem run_starts_iff:
  assumes "closed_heap h" and "counts_ok h" and "r < length h" and "length h < 2 ^ 31"
    and ids: "\<And>p. p < length h \<Longrightarrow> node_id (h ! p) = int p"
    and "root_node g = Some r" and "set (all_nodes g) = reach h r" and "distinct (all_nodes g)"
    and "max_node_id g = int (length h)"
  shows "((\<exists>s. run fatal g h = Inr (0, Some s)) \<longleftrightarrow> reach h r = {..<length (all_nodes g)}) \<and>
    (run fatal g h = Inl (if fatal then Fatal_Abort else Bad_Ptr) \<longleftrightarrow>
      reach h r \<noteq> {..<length (all_nodes g)})"
proof -
  let ?n = "length (all_nodes g)"
  let ?m = "replicate ?n (None :: atomic_int option)"
    and ?ctx = "replicate (size_of_int (max_node_id g + 1)) (None :: string option)"
  have reach: "p < length h" if "p \<in> reach h r" for p
  proof -
    have "(r, p) \<in> (edges h)\<^sup>*" using that by (simp add: reach_def)
    then show ?thesis using assms(3) edges_bound [OF assms(1)] by (cases rule: rtranclE) auto
  qed
  have n: "0 < ?n" using assms(7) by (auto simp: reach_def)
  have "\<exists>s. run fatal g h = Inr (0, Some s)" if r: "reach h r = {..<?n}"
  proof -
    have "?n \<le> length h" using r reach by (metis lessThan_iff not_less_iff_gr_or_eq linorder_not_le)
    then have "\<exists>m' ctx'. fold_res (set_counter fatal h) (all_nodes g) (?m, ?ctx) = Inr (m', ctx')"
      using set_counters [of "all_nodes g" h ?m ?ctx fatal] ids reach r assms(4,7,9) by fastforce
    then show ?thesis using assms(6) n by (auto simp: run_def)
  qed
  moreover have "run fatal g h = Inl (if fatal then Fatal_Abort else Bad_Ptr)" if "reach h r \<noteq> {..<?n}"
  proof -
    have "card (set (all_nodes g)) = card {..<?n}" using assms(8) by (simp add: distinct_card)
    then have "\<not> set (all_nodes g) \<subseteq> {..<length ?m}"
      using that assms(7) card_subset_eq [OF finite_lessThan, of "set (all_nodes g)" ?n] by auto
    moreover have "p < length h \<and> node_id (h ! p) = int p \<and> p < length ?ctx" if "p \<in> set (all_nodes g)" for p
      using that reach [of p] ids [of p] assms(4,7,9) by simp
    ultimately have "fold_res (set_counter fatal h) (all_nodes g) (?m, ?ctx) =
        Inl (if fatal then Fatal_Abort else Bad_Ptr)"
      using assms(4) by (intro set_counters_outside) auto
    then show ?thesis using assms(6) n by (simp add: run_def)
  qed
  ultimately show ?thesis by fastforce
qed

definition orphan_first :: "node list" where
  \<comment> \<open>a node nobody refers to, created before the root\<close>
  "orphan_first = [
    \<lparr>name = ''lonely'', node_id = 0, input_num_4_check = 0, input_num = 0, out_nodes = [],
      service_context_factory = ''StartService''\<rparr>,
    \<lparr>name = ''start'', node_id = 1, input_num_4_check = 0, input_num = 0, out_nodes = [],
      service_context_factory = ''StartService''\<rparr>]"

theorem run_starts_iff_witness:
  "\<exists>g. init False (Some 1) ''g'' (new_graph\<lparr>max_node_id := 2\<rparr>) orphan_first =
      Inr (0, g, orphan_first) \<and> run False g orphan_first = Inl Bad_Ptr"
proof -
  let ?g = "\<lparr>max_node_id = 2, root_node = Some 1, all_nodes = [1], graph_name = ''g''\<rparr>"
  have len: "length orphan_first = 2" by (simp add: orphan_first_def)
  have two: "p < 2 \<longleftrightarrow> p = 0 \<or> p = (1::nat)" for p by auto
  have ids: "node_id (orphan_first ! p) = int p" and outs: "out_nodes (orphan_first ! p) = []"
    if "p < length orphan_first" for p
    using that by (auto simp: orphan_first_def less_Suc_eq)
  have edges: "edges orphan_first = {}" using outs by (auto simp: edges_def)
  have "init False (Some 1) ''g'' (new_graph\<lparr>max_node_id := 2\<rparr>) orphan_first = Inr (0, ?g, orphan_first)"
    by (simp add: orphan_first_def init_def check_def deref_def new_graph_def Let_def)
  moreover have "((\<exists>s. run False ?g orphan_first = Inr (0, Some s)) \<longleftrightarrow>
      reach orphan_first 1 = {..<length (all_nodes ?g)}) \<and>
    (run False ?g orphan_first = Inl (if False then Fatal_Abort else Bad_Ptr) \<longleftrightarrow>
      reach orphan_first 1 \<noteq> {..<length (all_nodes ?g)})"
  proof (rule run_starts_iff)
    show "closed_heap orphan_first" using outs by (simp add: closed_heap_def)
    have "input_num (orphan_first ! p) = 0" if "p < length orphan_first" for p
      using that by (auto simp: orphan_first_def less_Suc_eq)
    moreover have "indeg orphan_first p = 0" for p by (simp add: indeg_0 edges)
    ultimately show "counts_ok orphan_first" by (simp add: counts_ok_def)
  qed (use ids in \<open>simp_all add: len reach_def edges\<close>)
  ultimately show ?thesis by (auto simp: reach_def edges)
qed

end
