(* ===== verification/Request.thy ===== *)
theory Request
  imports GraphRun
begin

text \<open>
  The services of the example, \<open>service/start_service.cpp\<close> and \<open>service/done.cpp\<close>, in the execution of
  a graph: the node named \<open>start\<close> leaves its id and a request id in the context of the request, and the
  node \<open>done\<close> reads them. A request is served by the interleaved tasks of \<open>GraphExec\<close>; the body of
  \<open>do_service\<close> is one step with the end of the node, since its effects are on data that only later nodes
  use, which is what the theorem shows.
\<close>

section \<open>The services\<close>

record request =
  start_context :: "int option" \<comment> \<open>has no value before it is set\<close>
  request_ids :: "string list" \<comment> \<open>\<open>request_id\<close> of the context of each node\<close>
  reads :: "(ptr \<times> string) list" \<comment> \<open>the request ids the nodes read\<close>

definition new_request :: "exec \<Rightarrow> request" where
  "new_request s =
     \<lparr>start_context = None, request_ids = replicate (length (node_service_context_vec s)) [], reads = []\<rparr>"

definition start_do_service :: "bool \<Rightarrow> node \<Rightarrow> exec \<Rightarrow> request \<Rightarrow> request res" where
  "start_do_service fatal n s rq =
     (let rq1 = (if name n = ''start'' then rq\<lparr>start_context := Some (node_id n)\<rparr> else rq)
      in bind_res (get_context fatal s (node_id n)) (\<lambda>cxt.
         if name n = ''start''
         then case cxt of
                None \<Rightarrow> Inl Null_Deref
              | Some _ \<Rightarrow> Inr (rq1
                  \<lparr>request_ids := (request_ids rq1)[size_of_int (node_id n) := name n @ '' set request_id'']\<rparr>)
         else Inr rq1))"

text \<open>The context of the node with the id in \<open>start_context\<close> is taken to be a \<open>StartServiceContext\<close>.\<close>

definition done_do_service :: "bool \<Rightarrow> ptr \<Rightarrow> exec \<Rightarrow> request \<Rightarrow> request res" where
  "done_do_service fatal p s rq =
     (case start_context rq of
        None \<Rightarrow> Inl Uninitialised
      | Some i \<Rightarrow> bind_res (get_context fatal s i) (\<lambda>cxt.
          case cxt of
            None \<Rightarrow> Inl Null_Deref
          | Some cls \<Rightarrow>
              if cls \<noteq> ''StartService'' then Inl Bad_Ptr
              else Inr (rq\<lparr>reads := reads rq @ [(p, request_ids rq ! size_of_int i)]\<rparr>)))"

definition serve :: "bool \<Rightarrow> node list \<Rightarrow> ptr \<Rightarrow> exec \<Rightarrow> request \<Rightarrow> request res" where
  \<comment> \<open>\<open>do_service\<close> of the class of the node; that of \<open>Node\<close> does nothing\<close>
  "serve fatal h p s rq =
     bind_res (deref h p) (\<lambda>n.
       if service_context_factory n = ''StartService'' then start_do_service fatal n s rq
       else if service_context_factory n = ''DoneService'' then done_do_service fatal p s rq
       else Inr rq)"

section \<open>A request\<close>

definition own_env :: exec_env where
  \<comment> \<open>both classes are cpu nodes and do not override \<open>skip\<close>\<close>
  "own_env = \<lparr>skip = (\<lambda>p. False), node_type = (\<lambda>p. ''cpu'')\<rparr>"

definition request_sched :: "bool \<Rightarrow> node list \<Rightarrow> nat \<Rightarrow> exec \<times> request \<Rightarrow> (exec \<times> request) res" where
  "request_sched fatal h k x =
     (let (s, rq) = x
      in bind_res (case tasks s ! k of Busy p \<Rightarrow> serve fatal h p s rq | _ \<Rightarrow> Inr rq) (\<lambda>rq'.
         bind_res (sched fatal own_env h k s) (\<lambda>t. Inr (t, rq'))))"

inductive request_step :: "bool \<Rightarrow> node list \<Rightarrow> exec \<times> request \<Rightarrow> exec \<times> request \<Rightarrow> bool" for fatal h where
  "k < length (tasks (fst x)) \<Longrightarrow> request_sched fatal h k x = Inr y \<Longrightarrow> request_step fatal h x y"

fun request_schedule :: "bool \<Rightarrow> node list \<Rightarrow> nat list \<Rightarrow> exec \<times> request \<Rightarrow> (exec \<times> request) res" where
  "request_schedule fatal h [] x = Inr x"
| "request_schedule fatal h (k # ks) x =
     (if k < length (tasks (fst x))
      then bind_res (request_sched fatal h k x) (request_schedule fatal h ks)
      else request_schedule fatal h ks x)"

lemma request_schedule_steps:
  "request_schedule fatal h ks x = Inr y \<Longrightarrow> (request_step fatal h)\<^sup>*\<^sup>* x y"
proof (induction ks arbitrary: x)
  case (Cons k ks)
  then show ?case
    by (auto simp: res_simps split: if_splits
        intro: converse_rtranclp_into_rtranclp request_step.intros)
qed simp

inductive_cases request_stepE: "request_step fatal h x y"

section \<open>Order along the paths of the graph\<close>

definition started :: "event list \<Rightarrow> ptr set" where
  "started es = {q. \<exists>e\<in>set es. starts e = Some q}"

lemma started_begun: "q \<in># begun es \<Longrightarrow> q \<in> started es"
  by (induction es rule: begun.induct) (auto simp: started_def)

lemma ended_take: "ended (take i es) \<subseteq> ended es"
  by (auto simp: ended_def dest: in_set_takeD)

lemma started_inputs:
  assumes "in_order h es" and "q \<in> started es" and "(p, q) \<in> edges h"
  shows "p \<in> ended es"
proof -
  obtain i where "i < length es" "starts (es ! i) = Some q"
    using assms(2) by (auto simp: started_def in_set_conv_nth)
  with assms(1,3) ended_take [of i es] show ?thesis unfolding in_order_def by blast
qed

lemma ended_begun:
  assumes "exec_inv h r n s" and "p \<in> ended (trace s)"
  shows "p \<in> started (trace s)"
proof -
  obtain cur where at: "exec_at h r n cur s" using assms(1) by (auto simp: exec_inv_def)
  have "(\<exists>i l. Outs p i l \<in> set (tasks s)) \<or> p \<in># returned (trace s)"
    using progress_okD(5) [OF exec_at_progress [OF at]] assms(2) by blast
  then have "p \<in># working (tasks s) + returned (trace s)" by force
  then show ?thesis using at started_begun by (simp add: exec_at_def)
qed

lemma path_order:
  assumes inv: "exec_inv h r n s" and path: "(p, q) \<in> (edges h)\<^sup>+" and q: "q \<in> started (trace s)"
  shows "p \<in> ended (trace s)"
  using path q
proof (induction rule: trancl_induct)
  case (base q)
  then show ?case using started_inputs [OF exec_once_in_order(2) [OF inv]] by blast
next
  case (step m q)
  then have "m \<in> ended (trace s)" using started_inputs [OF exec_once_in_order(2) [OF inv]] by blast
  then show ?case using step.IH ended_begun [OF inv] by blast
qed

section \<open>What a request keeps\<close>

definition start_id :: string where
  "start_id = ''start set request_id''"

text \<open>The graph has its root named \<open>start\<close>.\<close>

definition started_at :: "node list \<Rightarrow> ptr \<Rightarrow> bool" where
  "started_at h r \<longleftrightarrow> distinct (map name h) \<and> name (h ! r) = ''start'' \<and>
     service_context_factory (h ! r) = ''StartService''"

definition request_inv :: "node list \<Rightarrow> ptr \<Rightarrow> nat \<Rightarrow> exec \<times> request \<Rightarrow> bool" where
  "request_inv h r n x \<longleftrightarrow> (let (s, rq) = x in
     exec_inv h r n s \<and> started_at h r \<and> n \<le> length (node_service_context_vec s) \<and>
     length (request_ids rq) = length (node_service_context_vec s) \<and>
     (\<forall>p<n. node_service_context_vec s ! p = Some (service_context_factory (h ! p))) \<and>
     (\<forall>p. Async p \<notin> set (tasks s) \<and> Skip p \<notin> set (trace s)) \<and>
     (End r \<in> set (trace s) \<longrightarrow> start_context rq = Some (int r) \<and> request_ids rq ! r = start_id) \<and>
     (\<forall>d. End d \<in> set (trace s) \<and> service_context_factory (h ! d) = ''DoneService'' \<longrightarrow> (d, start_id) \<in> set (reads rq)) \<and>
     snd ` set (reads rq) \<subseteq> {start_id})"

lemma request_invD:
  assumes "request_inv h r n (s, rq)"
  shows "exec_inv h r n s" and "started_at h r" and "n \<le> length (node_service_context_vec s)"
    and "length (request_ids rq) = length (node_service_context_vec s)"
    and "p < n \<Longrightarrow> node_service_context_vec s ! p = Some (service_context_factory (h ! p))"
    and "Async p \<notin> set (tasks s)" and "Skip p \<notin> set (trace s)"
    and "End r \<in> set (trace s) \<Longrightarrow> start_context rq = Some (int r) \<and> request_ids rq ! r = start_id"
    and "End d \<in> set (trace s) \<Longrightarrow> service_context_factory (h ! d) = ''DoneService'' \<Longrightarrow> (d, start_id) \<in> set (reads rq)"
    and "snd ` set (reads rq) \<subseteq> {start_id}"
  using assms unfolding request_inv_def Let_def prod.case by blast+

lemma own_step:
  assumes "task_step fatal own_env h tk m = Inr (cont, new, evs, m')"
  shows "Async p \<notin> set cont \<union> set new" and "Skip p \<notin> set evs"
    and "End p \<in> set evs \<longleftrightarrow> tk = Busy p \<or> tk = Async p"
proof -
  have "(\<forall>p. Async p \<notin> set cont \<union> set new) \<and> (\<forall>p. Skip p \<notin> set evs) \<and>
      (\<forall>p. End p \<in> set evs \<longleftrightarrow> tk = Busy p \<or> tk = Async p)"
    using assms
    by (cases tk) (auto simp: own_env_def res_simps Let_def split: case_splits)
  then show "Async p \<notin> set cont \<union> set new" "Skip p \<notin> set evs"
    "End p \<in> set evs \<longleftrightarrow> tk = Busy p \<or> tk = Async p" by blast+
qed

lemma sched_parts:
  assumes "sched fatal env h k s = Inr t"
  obtains cont new evs m where "task_step fatal env h (tasks s ! k) (node_input_num_map s) = Inr (cont, new, evs, m)"
    and "tasks t = take k (tasks s) @ cont @ drop (Suc k) (tasks s) @ new" and "trace t = trace s @ evs"
    and "node_service_context_vec t = node_service_context_vec s"
  using assms by (auto simp: sched_def res_simps)

lemma busy_node:
  assumes inv: "exec_inv h r n s" and b: "Busy p \<in> set (tasks s)"
  shows "p < n" and "p \<in> started (trace s)" and "n < 2 ^ 31" and "p < length h" and "node_id (h ! p) = int p"
    and "p \<noteq> r \<Longrightarrow> r \<in> ended (trace s)"
proof -
  obtain cur where rn: "runnable h r n" and at: "exec_at h r n cur s" using inv by (auto simp: exec_inv_def)
  have wk: "p \<in># working (tasks s)" using b by force
  then show p: "p < n" using active_bound [OF rn at, of p] by (simp add: active_def)
  show st: "p \<in> started (trace s)" using wk at started_begun by (simp add: exec_at_def)
  show "n < 2 ^ 31" using rn by (simp add: runnable_def)
  show len: "p < length h" by (rule runnable_len [OF rn p])
  then show "node_id (h ! p) = int p" using rn by (simp add: runnable_def)
  assume "p \<noteq> r"
  have "p \<in> reach h r" using rn p by (simp add: runnable_def)
  then have "(r, p) \<in> (edges h)\<^sup>+" using \<open>p \<noteq> r\<close> by (auto simp: reach_def rtrancl_eq_or_trancl)
  then show "r \<in> ended (trace s)" by (rule path_order [OF inv _ st])
qed

lemma serve_ok:
  assumes inv: "request_inv h r n (s, rq)" and b: "Busy p \<in> set (tasks s)"
  shows "serve fatal h p s rq = Inr
    (if p = r then rq\<lparr>start_context := Some (int r), request_ids := (request_ids rq)[r := start_id]\<rparr>
     else if service_context_factory (h ! p) = ''DoneService'' then rq\<lparr>reads := reads rq @ [(p, start_id)]\<rparr>
     else rq)"
proof -
  note d = request_invD [OF inv]
  note bn = busy_node [OF d(1) b]
  have n: "n \<le> length (node_service_context_vec s)" by (rule d(3))
  have ctx: "get_context fatal s (int q) = Inr (Some (service_context_factory (h ! q)))" if "q < n" for q
    using that n d(5) [OF that] bn(3) by (simp add: get_context_def)
  have id: "size_of_int (int q) = q" if "q < n" for q using that bn(3) by simp
  have r: "r < n" using d(1) runnable_root by (auto simp: exec_inv_def)
  have root: "name (h ! r) = ''start''" "service_context_factory (h ! r) = ''StartService''" "distinct (map name h)"
    using d(2) by (simp_all add: started_at_def)
  have der: "deref h p = Inr (h ! p)" using bn(4) by (simp add: deref_def)
  show ?thesis
  proof (cases "p = r")
    case True
    then show ?thesis using der bn(5) ctx [OF r] id [OF r] root
      by (simp add: serve_def start_do_service_def start_id_def)
  next
    case False
    have "r < length h" using d(1) r runnable_len by (auto simp: exec_inv_def)
    then have "name (h ! p) \<noteq> ''start''" using False bn(4) root(1,3) by (metis distinct_conv_nth length_map nth_map)
    then have start: "start_do_service fatal (h ! p) s rq = Inr rq"
      using ctx [OF bn(1)] bn(5) by (simp add: start_do_service_def)
    have "r \<in> ended (trace s)" using bn(6) False by simp
    then have "End r \<in> set (trace s)" using d(7) by (simp add: ended_def)
    then have "done_do_service fatal p s rq = Inr (rq\<lparr>reads := reads rq @ [(p, start_id)]\<rparr>)"
      using d(8) ctx [OF r] id [OF r] root(2) by (simp add: done_do_service_def)
    then show ?thesis using der False start by (simp add: serve_def)
  qed
qed

lemma request_step_inv:
  assumes inv: "request_inv h r n x" and st: "request_step fatal h x y"
  shows "request_inv h r n y"
proof -
  obtain s rq t rq' where xy: "x = (s, rq)" "y = (t, rq')" by (cases x, cases y)
  note inv' = inv [unfolded xy]
  note d = request_invD [OF inv']
  obtain k where k: "k < length (tasks s)" "sched fatal own_env h k s = Inr t"
    and sv: "(case tasks s ! k of Busy p \<Rightarrow> serve fatal h p s rq | _ \<Rightarrow> Inr rq) = Inr rq'"
    using st by (auto simp: xy request_sched_def res_simps elim!: request_stepE)
  obtain cont new evs m where ts: "task_step fatal own_env h (tasks s ! k) (node_input_num_map s) = Inr (cont, new, evs, m)"
    and t: "tasks t = take k (tasks s) @ cont @ drop (Suc k) (tasks s) @ new" "trace t = trace s @ evs"
      "node_service_context_vec t = node_service_context_vec s"
    using k(2) by (rule sched_parts)
  note own = own_step [OF ts]
  have ex: "exec_inv h r n t" using exec.step_inv [OF d(1)] exec_step.intros [OF k] by blast
  have r: "r < length (request_ids rq)"
    using d(1,3,4) runnable_root by (fastforce simp: exec_inv_def)
  have async: "Async p \<notin> set (tasks t)" for p
    using own(1) d(6) by (auto simp: t dest: in_set_takeD in_set_dropD)
  have skip: "Skip p \<notin> set (trace t)" for p using own(2) d(7) by (simp add: t)
  show ?thesis
  proof (cases "\<exists>p. tasks s ! k = Busy p")
    case True
    then obtain p where p: "tasks s ! k = Busy p" by blast
    then have "Busy p \<in> set (tasks s)" using k(1) nth_mem by metis
    from serve_ok [OF inv' this, of fatal] sv p have rq': "rq' =
      (if p = r then rq\<lparr>start_context := Some (int r), request_ids := (request_ids rq)[r := start_id]\<rparr>
       else if service_context_factory (h ! p) = ''DoneService'' then rq\<lparr>reads := reads rq @ [(p, start_id)]\<rparr>
       else rq)" by simp
    have evs: "End q \<in> set (trace t) \<longleftrightarrow> End q \<in> set (trace s) \<or> q = p" for q using own(3) by (auto simp: t p)
    have cls: "service_context_factory (h ! r) \<noteq> ''DoneService''" using d(2) by (simp add: started_at_def)
    show ?thesis
      unfolding xy request_inv_def Let_def prod.case t(3) evs
      by (intro conjI allI impI) (use ex d r async skip cls in \<open>auto simp: rq' split: if_splits\<close>)
  next
    case False
    then have rq': "rq' = rq" using sv by (simp split: task.splits)
    have "tasks s ! k \<noteq> Async p" for p using d(6) [of p] k(1) nth_mem by metis
    then have evs: "End q \<in> set (trace t) \<longleftrightarrow> End q \<in> set (trace s)" for q using own(3) [of q] False by (auto simp: t)
    show ?thesis
      unfolding xy request_inv_def Let_def prod.case t(3) evs rq'
      by (intro conjI allI impI) (use ex d async skip in auto)
  qed
qed

interpretation requesting: invariant_system "request_step fatal h" "request_inv h r n" for fatal h r n
  by unfold_locales (rule request_step_inv)

lemma request_start:
  assumes "prepared g h r n" and "run fatal g h = Inr (0, Some s0)" and "started_at h r"
  shows "request_inv h r n (s0, new_request s0)"
proof -
  obtain s where s: "run fatal g h = Inr (0, Some s)" "exec_inv h r n s" "tasks s = [Run r]" "trace s = []"
    "n \<le> length (node_service_context_vec s)"
    "\<And>p. p < n \<Longrightarrow> node_service_context_vec s ! p = Some (service_context_factory (h ! p))"
    using run_prepared [OF assms(1), of fatal] by metis
  have "s0 = s" using assms(2) s(1) by simp
  with s assms(3) show ?thesis by (simp add: request_inv_def new_request_def)
qed

section \<open>The property\<close>

text \<open>C16: In a graph whose root is the \<open>StartService\<close> named \<open>start\<close>, every \<open>DoneService\<close> reads the request
  id that \<open>start\<close> wrote, under every interleaving of the nodes: no service fails (no context is read before
  it is set or through a null or foreign pointer), whatever was read is that id, and when no task is left
  every done node has read it.\<close>

theorem request_id_flows:
  assumes "prepared g h r n" and "run fatal g h = Inr (0, Some s0)" and "started_at h r"
    and "(request_step fatal h)\<^sup>*\<^sup>* (s0, new_request s0) (s, rq)"
  shows "(\<forall>k<length (tasks s). \<exists>y. request_sched fatal h k (s, rq) = Inr y) \<and>
    snd ` set (reads rq) \<subseteq> {start_id} \<and>
    (tasks s = [] \<longrightarrow> (\<forall>d<n. service_context_factory (h ! d) = ''DoneService'' \<longrightarrow> (d, start_id) \<in> set (reads rq)))"
proof -
  have inv: "request_inv h r n (s, rq)"
    using requesting.steps_inv [OF assms(4) request_start [OF assms(1-3)]] .
  note d = request_invD [OF inv]
  have "\<exists>y. request_sched fatal h k (s, rq) = Inr y" if k: "k < length (tasks s)" for k
  proof -
    have "\<exists>rq'. (case tasks s ! k of Busy p \<Rightarrow> serve fatal h p s rq | _ \<Rightarrow> Inr rq) = Inr rq'"
      using serve_ok [OF inv, of _ fatal] nth_mem [OF k] by (cases "tasks s ! k") auto
    moreover obtain t where "sched fatal own_env h k s = Inr t" using sched_succeeds [OF d(1) k] by blast
    ultimately show ?thesis by (auto simp: request_sched_def)
  qed
  moreover have "End p \<in> set (trace s)" if "tasks s = []" "p < n" for p
  proof -
    have "p \<in> ended (trace s)" using exec_final(2) [OF d(1) that(1)] that(2) by simp
    then show ?thesis using d(7) by (simp add: ended_def)
  qed
  ultimately show ?thesis using d(9,10) by blast
qed

text \<open>The graph of the unit test, one task after the other.\<close>

lemma unit_request:
  "case request_schedule False unit_nodes (replicate 16 0) (unit_start, new_request unit_start) of
     Inl e \<Rightarrow> False | Inr (s, rq) \<Rightarrow> tasks s = [] \<and> length (reads rq) = 1"
  by code_simp

lemma unit_started: "started_at unit_nodes 0"
  by (simp add: started_at_def unit_nodes_def diamond_def)

theorem request_id_flows_witness:
  "\<exists>s rq. request_schedule False unit_nodes (replicate 16 0) (unit_start, new_request unit_start) = Inr (s, rq) \<and>
     reads rq = [(3, ''start set request_id'')]"
proof -
  obtain s rq where run: "request_schedule False unit_nodes (replicate 16 0) (unit_start, new_request unit_start) = Inr (s, rq)"
    "tasks s = []" "length (reads rq) = 1"
    using unit_request by (auto split: sum.splits)
  have "service_context_factory (unit_nodes ! 3) = ''DoneService''" by (simp add: unit_nodes_def diamond_def)
  with request_id_flows [OF unit_prepared unit_run unit_started request_schedule_steps [OF run(1)]] run(2)
  have "(3, start_id) \<in> set (reads rq)" by simp
  with run(1,3) show ?thesis by (auto simp: start_id_def length_Suc_conv)
qed

end
