(* ===== verification/Schedule.thy ===== *)
theory Schedule
  imports Request
begin

text \<open>
  The execution of a graph seen from outside: a scheduler that may start a node once all nodes with an
  edge to it have ended, and end it once it has started. The counters, the tasks and the loops over the
  outputs of \<open>GraphExec\<close> implement it, and so does the request of \<open>Request\<close>, whose runs are runs of
  the execution.
\<close>

section \<open>The specification\<close>

text \<open>The nodes that were started and those that have ended.\<close>

type_synonym schedule = "ptr set \<times> ptr set"

inductive dag_step :: "node list \<Rightarrow> nat \<Rightarrow> schedule \<Rightarrow> schedule \<Rightarrow> bool" for h n where
  begin_node: "q < n \<Longrightarrow> q \<notin> S \<Longrightarrow> {p. (p, q) \<in> edges h} \<subseteq> E \<Longrightarrow> dag_step h n (S, E) (insert q S, E)"
| end_node: "p \<in> S \<Longrightarrow> p \<notin> E \<Longrightarrow> dag_step h n (S, E) (S, insert p E)"

inductive_simps dag_step_iff: "dag_step h n (S, E) (S', E')"

definition view_exec :: "exec \<Rightarrow> schedule" where
  "view_exec s = (set_mset (begun (trace s)), ended (trace s))"

definition schedule_ok :: "node list \<Rightarrow> nat \<Rightarrow> schedule \<Rightarrow> bool" where
  "schedule_ok h n x \<longleftrightarrow> snd x \<subseteq> fst x \<and> fst x \<subseteq> {..<n} \<and> (\<forall>p q. (p, q) \<in> edges h \<longrightarrow> q \<in> fst x \<longrightarrow> p \<in> snd x)"

interpretation scheduling: invariant_system "dag_step h n" "schedule_ok h n" for h n
  by unfold_locales (auto simp: schedule_ok_def elim!: dag_step.cases)

section \<open>The execution implements it\<close>

lemma started_eq: "started es = set_mset (begun es)"
  by (induction es rule: begun.induct) (auto simp: started_def)

lemma sched_trace:
  assumes "sched fatal env h k s = Inr t"
  shows "trace t = trace s \<or> (\<exists>e. trace t = trace s @ [e] \<and>
    (\<forall>p. e = End p \<longrightarrow> tasks s ! k = Busy p \<or> tasks s ! k = Async p))"
  using assms unfolding sched_def
  by (cases "tasks s ! k") (auto simp: res_simps Let_def split: case_splits)

lemma node_ends:
  assumes inv: "exec_inv h r n s" and k: "k < length (tasks s)" and tk: "tasks s ! k = Busy p \<or> tasks s ! k = Async p"
  shows "p \<in># begun (trace s)" and "p \<notin> ended (trace s)"
proof -
  obtain cur where at: "exec_at h r n cur s" using inv by (auto simp: exec_inv_def)
  have w: "p \<in># works (tasks s ! k)" using tk by auto
  then have "p \<in># working (tasks s)" using nth_mem [OF k] by auto
  then show "p \<in># begun (trace s)" using at by (simp add: exec_at_def)
  show "p \<notin> ended (trace s)" using token_not_ended [OF at nth_split [OF k]] w tk by auto
qed

lemma node_starts:
  assumes inv: "exec_inv h r n t" and tr: "trace t = es @ [e]" and e: "starts e = Some q"
  shows "q < n" and "q \<notin># begun es" and "{p. (p, q) \<in> edges h} \<subseteq> ended es"
proof -
  have b: "begun [e] = {#q#}" using e by (cases e) auto
  obtain cur where rn: "runnable h r n" and at: "exec_at h r n cur t" using inv by (auto simp: exec_inv_def)
  have "q \<in># begun (trace t)" using b by (simp add: tr)
  then show "q < n" using at by (intro active_bound [OF rn at]) (auto simp: exec_at_def active_def)
  have "count (begun (trace t)) q \<le> 1" by (rule exec_once_in_order(1) [OF inv])
  then show "q \<notin># begun es" using b by (simp add: tr not_in_iff)
  show "{p. (p, q) \<in> edges h} \<subseteq> ended es"
    using exec_once_in_order(2) [OF inv] e unfolding in_order_def tr
    by (force dest: spec [of _ "length es"])
qed

lemma exec_step_dag:
  assumes inv: "exec_inv h r n s" and st: "exec_step fatal env h s t"
  shows "(dag_step h n)\<^sup>*\<^sup>* (view_exec s) (view_exec t)"
proof -
  obtain k where k: "k < length (tasks s)" and sc: "sched fatal env h k s = Inr t"
    using st by (auto elim: exec_step.cases)
  have inv': "exec_inv h r n t" by (rule exec.step_inv [OF inv st])
  show ?thesis
  proof (cases "trace t = trace s")
    case True
    then show ?thesis by (simp add: view_exec_def)
  next
    case False
    then obtain e where e: "trace t = trace s @ [e]"
      and en: "\<And>p. e = End p \<Longrightarrow> tasks s ! k = Busy p \<or> tasks s ! k = Async p"
      using sched_trace [OF sc] by blast
    note ns = node_starts [OF inv' e]
    show ?thesis
    proof (cases e)
      case (Begin q)
      with ns [of q] show ?thesis
        by (intro r_into_rtranclp) (auto simp: view_exec_def e dag_step_iff)
    next
      case (Skip q)
      with ns [of q] have "dag_step h n (view_exec s) (insert q (set_mset (begun (trace s))), ended (trace s))"
        by (auto simp: view_exec_def dag_step_iff)
      moreover have "q \<notin> ended (trace s)"
      proof
        assume "q \<in> ended (trace s)"
        then have "q \<in># begun (trace s)" using ended_begun [OF inv] by (simp add: started_eq)
        with ns(2) [of q] Skip show False by simp
      qed
      then have "dag_step h n (insert q (set_mset (begun (trace s))), ended (trace s)) (view_exec t)"
        by (auto simp: view_exec_def e Skip dag_step_iff)
      ultimately show ?thesis by (rule converse_rtranclp_into_rtranclp [OF _ r_into_rtranclp])
    next
      case (End p)
      with node_ends [OF inv k en] show ?thesis
        by (intro r_into_rtranclp) (auto simp: view_exec_def e dag_step_iff)
    qed (simp add: view_exec_def e)
  qed
qed

interpretation executing: simulation "exec_step fatal env h" "exec_inv h r n" "dag_step h n" view_exec
  for fatal env h r n
  by unfold_locales (rule exec_step_dag)

lemma request_step_exec:
  "request_step fatal h x y \<Longrightarrow> (exec_step fatal own_env h)\<^sup>*\<^sup>* (fst x) (fst y)"
  by (cases x, cases y) (auto elim!: request_stepE simp: request_sched_def res_simps intro!: r_into_rtranclp exec_step.intros)

interpretation serving: simulation "request_step fatal h" "request_inv h r n" "exec_step fatal own_env h" fst
  for fatal h r n
  by unfold_locales (rule request_step_exec)

interpretation request_schedule: simulation_chain "request_step fatal h" "request_inv h r n" "exec_step fatal own_env h" fst
    "exec_inv h r n" "dag_step h n" view_exec
  for fatal h r n
  by unfold_locales (auto simp: request_inv_def)

text \<open>So the interleaved services of a request run as the scheduler allows, too.\<close>

lemma request_runs_schedule:
  assumes "prepared g h r n" and "run fatal g h = Inr (0, Some s0)" and "started_at h r"
    and "(request_step fatal h)\<^sup>*\<^sup>* (s0, new_request s0) x"
  shows "(dag_step h n)\<^sup>*\<^sup>* (view_exec s0) (view_exec (fst x))"
  using request_schedule.chain.runs_sim [OF assms(4) request_start [OF assms(1-3)]] by simp

section \<open>The property\<close>

text \<open>C8: every run of a prepared graph, under any interleaving of its tasks, is a run of the scheduler.\<close>

theorem graph_refines_schedule:
  assumes "prepared g h r n" and "run fatal g h = Inr (0, Some s0)"
    and "(exec_step fatal env h)\<^sup>*\<^sup>* s0 s"
  shows "(dag_step h n)\<^sup>*\<^sup>* ({}, {}) (view_exec s) \<and> schedule_ok h n (view_exec s)"
proof -
  obtain s' where s': "run fatal g h = Inr (0, Some s')" "exec_inv h r n s'" "trace s' = []"
    using run_prepared [OF assms(1), of fatal] by metis
  then have s0: "exec_inv h r n s0" "view_exec s0 = ({}, {})" using assms(2) by (simp_all add: view_exec_def)
  have runs: "(dag_step h n)\<^sup>*\<^sup>* ({}, {}) (view_exec s)"
    using executing.runs_sim [OF assms(3) s0(1)] by (simp add: s0(2))
  moreover have "schedule_ok h n (view_exec s)"
    by (rule scheduling.steps_inv [OF runs]) (simp add: schedule_ok_def)
  ultimately show ?thesis by blast
qed

theorem graph_refines_schedule_witness:
  "(dag_step unit_nodes 4)\<^sup>*\<^sup>* ({}, {}) ({0, 1, 2, 3}, {0, 1, 2, 3})"
proof -
  have "view_exec unit_final = ({0, 1, 2, 3}, {0, 1, 2, 3})"
    by (simp add: view_exec_def unit_final_def insert_commute)
  with graph_refines_schedule [OF unit_prepared unit_run unit_steps] show ?thesis by simp
qed

end
