(* ===== verification/AsyncNode.thy ===== *)
theory AsyncNode
  imports Schedule
begin

text \<open>
  Nodes of type \<open>io\<close> in a graph: \<open>do_service\<close> starts work of its own (bthreads, calls with callbacks), which runs
  beside the tasks of the graph, and signals its end once by running the output nodes. The work is a
  parameter; the locale states what a graph needs of it: it ends, and it does not end before it has
  signalled.
\<close>

section \<open>Steps\<close>

text \<open>
  The state is that of the graph and the work of each node that was started. \<open>start\<close> is what \<open>do_service\<close> of an
  \<open>io\<close> node starts, and tells which nodes are such nodes.
\<close>

type_synonym 'w async_state = "exec \<times> (ptr \<rightharpoonup> 'w)"

definition io_env :: "(ptr \<rightharpoonup> 'w res) \<Rightarrow> exec_env \<Rightarrow> exec_env" where
  \<comment> \<open>the classes of the nodes are of type \<open>io\<close> and do not override \<open>skip\<close>\<close>
  "io_env start env = env
     \<lparr>skip := (\<lambda>p. p \<notin> dom start \<and> skip env p),
      node_type := (\<lambda>p. if p \<in> dom start then ''io'' else node_type env p)\<rparr>"

inductive async_step ::
  "bool \<Rightarrow> exec_env \<Rightarrow> node list \<Rightarrow> (ptr \<rightharpoonup> 'w res) \<Rightarrow> (ptr \<Rightarrow> 'w \<Rightarrow> 'w \<Rightarrow> bool) \<Rightarrow> (ptr \<Rightarrow> 'w \<Rightarrow> bool) \<Rightarrow>
   'w async_state \<Rightarrow> 'w async_state \<Rightarrow> bool"
  for fatal env h start work signalled
where
  graph_task: "k < length (tasks s) \<Longrightarrow> (\<And>p. p \<in> dom start \<Longrightarrow> tasks s ! k \<notin> {Run p, Async p}) \<Longrightarrow>
    sched fatal (io_env start env) h k s = Inr t \<Longrightarrow> async_step fatal env h start work signalled (s, f) (t, f)"
| start_work: "k < length (tasks s) \<Longrightarrow> tasks s ! k = Run p \<Longrightarrow> start p = Some (Inr w) \<Longrightarrow>
    sched fatal (io_env start env) h k s = Inr t \<Longrightarrow> async_step fatal env h start work signalled (s, f) (t, f(p \<mapsto> w))"
| do_work: "f p = Some u \<Longrightarrow> work p u v \<Longrightarrow> signalled p v = signalled p u \<Longrightarrow>
    async_step fatal env h start work signalled (s, f) (s, f(p \<mapsto> v))"
| run_outputs: "f p = Some u \<Longrightarrow> work p u v \<Longrightarrow> \<not> signalled p u \<Longrightarrow> signalled p v \<Longrightarrow>
    k < length (tasks s) \<Longrightarrow> tasks s ! k = Async p \<Longrightarrow> sched fatal (io_env start env) h k s = Inr t \<Longrightarrow>
    async_step fatal env h start work signalled (s, f) (t, f(p \<mapsto> v))"

section \<open>The tasks of an io node\<close>

lemma begun_iff: "p \<in># begun es \<longleftrightarrow> Begin p \<in> set es \<or> Skip p \<in> set es"
  by (induction es rule: begun.induct) auto

lemma io_task:
  assumes "task_step fatal (io_env start env) h tk m = Inr (cont, new, evs, m')" and "p \<in> dom start"
  shows "Busy p \<notin> set cont \<union> set new" and "Skip p \<notin> set evs" and "Begin p \<in> set evs \<longleftrightarrow> tk = Run p"
    and "End p \<in> set evs \<longleftrightarrow> tk = Busy p \<or> tk = Async p"
proof -
  have "Busy p \<notin> set cont \<union> set new \<and> Skip p \<notin> set evs \<and> (Begin p \<in> set evs \<longleftrightarrow> tk = Run p) \<and>
      (End p \<in> set evs \<longleftrightarrow> tk = Busy p \<or> tk = Async p)"
    using assms by (cases tk) (auto simp: io_env_def res_simps Let_def split: case_splits)
  then show "Busy p \<notin> set cont \<union> set new" "Skip p \<notin> set evs" "Begin p \<in> set evs \<longleftrightarrow> tk = Run p"
    "End p \<in> set evs \<longleftrightarrow> tk = Busy p \<or> tk = Async p" by blast+
qed

lemma io_sched:
  assumes "sched fatal (io_env start env) h k s = Inr t" and "k < length (tasks s)" and "p \<in> dom start"
    and "Busy p \<notin> set (tasks s)" and "Skip p \<notin> set (trace s)"
  shows "Busy p \<notin> set (tasks t)" and "Skip p \<notin> set (trace t)"
    and "p \<in># begun (trace t) \<longleftrightarrow> p \<in># begun (trace s) \<or> tasks s ! k = Run p"
    and "p \<in> ended (trace t) \<longleftrightarrow> p \<in> ended (trace s) \<or> tasks s ! k = Async p"
proof -
  obtain cont new evs m where
    ts: "task_step fatal (io_env start env) h (tasks s ! k) (node_input_num_map s) = Inr (cont, new, evs, m)"
    and t: "tasks t = take k (tasks s) @ cont @ drop (Suc k) (tasks s) @ new" "trace t = trace s @ evs"
    using assms(1) by (rule sched_parts)
  note r = io_task [OF ts assms(3)]
  have nb: "tasks s ! k \<noteq> Busy p" using assms(2,4) nth_mem by metis
  show "Busy p \<notin> set (tasks t)" using r(1) assms(4) by (auto simp: t dest: in_set_takeD in_set_dropD)
  show "Skip p \<notin> set (trace t)" using r(2) assms(5) by (simp add: t)
  show "p \<in># begun (trace t) \<longleftrightarrow> p \<in># begun (trace s) \<or> tasks s ! k = Run p"
    using r(2,3) by (auto simp: t begun_iff)
  show "p \<in> ended (trace t) \<longleftrightarrow> p \<in> ended (trace s) \<or> tasks s ! k = Async p"
    using r(2,4) nb by (auto simp: t ended_def)
qed

lemma run_not_ended:
  assumes "exec_inv h r n s" and "k < length (tasks s)" and "tasks s ! k = Run p \<or> tasks s ! k = Async p"
  shows "p \<notin> ended (trace s)"
proof -
  obtain cur where at: "exec_at h r n cur s" using assms(1) by (auto simp: exec_inv_def)
  show ?thesis
    by (rule token_not_ended [OF at nth_split [OF assms(2)]]) (use assms(3) in auto)
qed

lemma run_not_begun:
  assumes "exec_inv h r n s" and "k < length (tasks s)" and "tasks s ! k = Run p"
  shows "p \<notin># begun (trace s)"
proof -
  obtain cur where at: "exec_at h r n cur s" using assms(1) by (auto simp: exec_inv_def)
  let ?xs = "take k (tasks s)" and ?ys = "drop (Suc k) (tasks s)"
  have ts: "tasks s = ?xs @ Run p # ?ys" using nth_split [OF assms(2)] assms(3) by simp
  note u = unique_token [OF at ts, of p]
  have "p \<notin># working (?xs @ ?ys)" using u(2) by auto
  moreover have "working (tasks s) = working (?xs @ ?ys)" by (subst ts) simp
  moreover have "begun (trace s) = working (tasks s) + returned (trace s)" using at by (simp add: exec_at_def)
  ultimately show ?thesis using u(1) by simp
qed

text \<open>A node that has begun and not ended has its task waiting for it.\<close>

lemma begun_waiting:
  assumes "exec_inv h r n s" and "p \<in># begun (trace s)" and "p \<notin> ended (trace s)"
  obtains k where "k < length (tasks s)" and "tasks s ! k = Busy p \<or> tasks s ! k = Async p"
proof -
  obtain cur where at: "exec_at h r n cur s" using assms(1) by (auto simp: exec_inv_def)
  note e = progress_okD(5) [OF exec_at_progress [OF at], of p]
  have "p \<in># working (tasks s)" using at assms(2,3) e by (auto simp: exec_at_def)
  then obtain tk where tk: "tk \<in> set (tasks s)" "p \<in># works tk" by auto
  have "tk \<noteq> Outs p i l" for i l using assms(3) e tk(1) by blast
  then have "tk = Busy p \<or> tk = Async p" using tk(2) by (cases tk) auto
  with tk(1) that show ?thesis by (metis in_set_conv_nth)
qed

lemma begun_bound:
  assumes "exec_inv h r n s" and "p \<in># begun (trace s)"
  shows "p < n"
proof -
  obtain cur where rn: "runnable h r n" and at: "exec_at h r n cur s" using assms(1) by (auto simp: exec_inv_def)
  show ?thesis using assms(2) at by (intro active_bound [OF rn at]) (auto simp: exec_at_def active_def)
qed

section \<open>The invariant\<close>

definition async_inv ::
  "node list \<Rightarrow> ptr \<Rightarrow> nat \<Rightarrow> (ptr \<rightharpoonup> 'w res) \<Rightarrow> (ptr \<Rightarrow> 'w \<Rightarrow> bool) \<Rightarrow> (ptr \<Rightarrow> 'w \<Rightarrow> bool) \<Rightarrow> 'w async_state \<Rightarrow> bool"
where
  "async_inv h r n start winv signalled x \<longleftrightarrow> (case x of (s, f) \<Rightarrow>
     exec_inv h r n s \<and> dom f \<subseteq> dom start \<and>
     (\<forall>p\<in>dom start. Busy p \<notin> set (tasks s) \<and> Skip p \<notin> set (trace s) \<and>
        (\<exists>w. start p = Some (Inr w) \<and> winv p w \<and> \<not> signalled p w) \<and> (f p = None \<longleftrightarrow> p \<notin># begun (trace s))) \<and>
     (\<forall>p w. f p = Some w \<longrightarrow> winv p w \<and> (p \<in> ended (trace s) \<longleftrightarrow> signalled p w)))"

lemma async_invD:
  assumes "async_inv h r n start winv signalled (s, f)"
  shows "exec_inv h r n s" and "f p = Some w \<Longrightarrow> p \<in> dom start"
    and "p \<in> dom start \<Longrightarrow> Busy p \<notin> set (tasks s)" and "p \<in> dom start \<Longrightarrow> Skip p \<notin> set (trace s)"
    and "p \<in> dom start \<Longrightarrow> \<exists>w. start p = Some (Inr w) \<and> winv p w \<and> \<not> signalled p w"
    and "p \<in> dom start \<Longrightarrow> f p = None \<longleftrightarrow> p \<notin># begun (trace s)"
    and "f p = Some w \<Longrightarrow> winv p w" and "f p = Some w \<Longrightarrow> p \<in> ended (trace s) \<longleftrightarrow> signalled p w"
  using assms unfolding async_inv_def prod.case by blast+

lemma async_invI:
  assumes "exec_inv h r n s" and "dom f \<subseteq> dom start"
    and "\<And>p. p \<in> dom start \<Longrightarrow> Busy p \<notin> set (tasks s)" and "\<And>p. p \<in> dom start \<Longrightarrow> Skip p \<notin> set (trace s)"
    and "\<And>p. p \<in> dom start \<Longrightarrow> \<exists>w. start p = Some (Inr w) \<and> winv p w \<and> \<not> signalled p w"
    and "\<And>p. p \<in> dom start \<Longrightarrow> f p = None \<longleftrightarrow> p \<notin># begun (trace s)"
    and "\<And>p w. f p = Some w \<Longrightarrow> winv p w" and "\<And>p w. f p = Some w \<Longrightarrow> p \<in> ended (trace s) \<longleftrightarrow> signalled p w"
  shows "async_inv h r n start winv signalled (s, f)"
  using assms unfolding async_inv_def prod.case by blast

section \<open>What a graph needs of the work\<close>

locale async_nodes =
  fixes work :: "ptr \<Rightarrow> 'w \<Rightarrow> 'w \<Rightarrow> bool" and winv :: "ptr \<Rightarrow> 'w \<Rightarrow> bool" and wmu :: "ptr \<Rightarrow> 'w \<Rightarrow> nat"
    and signalled :: "ptr \<Rightarrow> 'w \<Rightarrow> bool"
  assumes works: "terminating_system (work p) (winv p) (wmu p)"
    and keeps: "winv p u \<Longrightarrow> work p u v \<Longrightarrow> signalled p u \<Longrightarrow> signalled p v"
    and stops: "winv p u \<Longrightarrow> (\<And>v. \<not> work p u v) \<Longrightarrow> signalled p u"

sublocale async_nodes \<subseteq> node: terminating_system "work p" "winv p" "wmu p" for p
  by (rule works)

definition work_mu :: "(ptr \<rightharpoonup> 'w res) \<Rightarrow> (ptr \<Rightarrow> 'w \<Rightarrow> nat) \<Rightarrow> nat \<Rightarrow> (ptr \<rightharpoonup> 'w) \<Rightarrow> nat" where
  \<comment> \<open>what is left of the work of the nodes, started or not\<close>
  "work_mu start wmu n f = (\<Sum>p | p < n \<and> p \<in> dom start.
     (case f p of Some w \<Rightarrow> wmu p w | None \<Rightarrow> (case start p of Some (Inr w) \<Rightarrow> wmu p w | _ \<Rightarrow> 0)))"

lemma work_mu_less:
  assumes "p < n" and "f p = Some u" and "wmu p v < wmu p u" and "p \<in> dom start"
  shows "work_mu start wmu n (f(p \<mapsto> v)) < work_mu start wmu n f"
  unfolding work_mu_def by (rule sum_strict_mono_ex1) (use assms in \<open>auto intro!: bexI [of _ p]\<close>)

lemma work_mu_start:
  assumes "f p = None" and "start p = Some (Inr w)"
  shows "work_mu start wmu n (f(p \<mapsto> w)) = work_mu start wmu n f"
  unfolding work_mu_def by (rule sum.cong) (use assms in auto)

context async_nodes
begin

lemma step_inv:
  assumes inv: "async_inv h r n start winv signalled x" and st: "async_step fatal env h start work signalled x y"
  shows "async_inv h r n start winv signalled y"
  using st inv
proof (cases rule: async_step.cases)
  case (graph_task k s t f)
  note i = async_invD [OF inv [unfolded graph_task(1)]]
  note q = io_sched [OF graph_task(5,3) _ i(3,4)]
  have "exec_inv h r n t" using exec.step_inv [OF i(1)] exec_step.intros [OF graph_task(3,5)] by blast
  then show ?thesis unfolding graph_task(2)
    by (rule async_invI) (use i q graph_task(4) in auto)
next
  case (start_work k s p w t f)
  note i = async_invD [OF inv [unfolded start_work(1)]]
  note q = io_sched [OF start_work(6,3) _ i(3,4)]
  have p: "p \<in> dom start" using start_work(5) by auto
  have "exec_inv h r n t" using exec.step_inv [OF i(1)] exec_step.intros [OF start_work(3,6)] by blast
  moreover have "p \<notin> ended (trace s)" by (rule run_not_ended [OF i(1) start_work(3)]) (simp add: start_work(4))
  moreover have "winv p w" "\<not> signalled p w" using i(5) [OF p] start_work(5) by auto
  ultimately show ?thesis unfolding start_work(2)
    by (intro async_invI) (use i q p start_work(4,5) in \<open>auto split: if_splits\<close>)
next
  case (do_work f p u v s)
  note i = async_invD [OF inv [unfolded do_work(1)]]
  have p: "p \<in> dom start" by (rule i(2) [OF do_work(3)])
  have "p \<in># begun (trace s)" using i(6) [OF p] do_work(3) by simp
  moreover have "winv p v" by (rule node.step_inv [OF i(7) [OF do_work(3)] do_work(4)])
  ultimately show ?thesis unfolding do_work(2)
    by (intro async_invI) (use i do_work(3,5) p in \<open>auto split: if_splits\<close>)
next
  case (run_outputs f p u v k s t)
  note i = async_invD [OF inv [unfolded run_outputs(1)]]
  note q = io_sched [OF run_outputs(9,7) _ i(3,4)]
  have p: "p \<in> dom start" by (rule i(2) [OF run_outputs(3)])
  have "p \<in># begun (trace s)" using i(6) [OF p] run_outputs(3) by simp
  moreover have "exec_inv h r n t" using exec.step_inv [OF i(1)] exec_step.intros [OF run_outputs(7,9)] by blast
  moreover have "winv p v" by (rule node.step_inv [OF i(7) [OF run_outputs(3)] run_outputs(4)])
  ultimately show ?thesis unfolding run_outputs(2)
    by (intro async_invI) (use i q p run_outputs(3,5,6,8) in \<open>auto split: if_splits\<close>)
qed

lemma step_mu:
  assumes inv: "async_inv h r n start winv signalled x" and st: "async_step fatal env h start work signalled x y"
  shows "exec_mu h n (fst y) + work_mu start wmu n (snd y) < exec_mu h n (fst x) + work_mu start wmu n (snd x)"
  using st inv
proof (cases rule: async_step.cases)
  case (graph_task k s t f)
  note i = async_invD [OF inv [unfolded graph_task(1)]]
  show ?thesis using exec.step_mu [OF i(1) exec_step.intros [OF graph_task(3,5)]] by (simp add: graph_task(1,2))
next
  case (start_work k s p w t f)
  note i = async_invD [OF inv [unfolded start_work(1)]]
  have "f p = None" using i(6) [of p] run_not_begun [OF i(1) start_work(3,4)] start_work(5) by auto
  then show ?thesis
    using exec.step_mu [OF i(1) exec_step.intros [OF start_work(3,6)]] work_mu_start [of f p start w wmu n] start_work(5)
    by (simp add: start_work(1,2))
next
  case (do_work f p u v s)
  note i = async_invD [OF inv [unfolded do_work(1)]]
  have p: "p \<in> dom start" by (rule i(2) [OF do_work(3)])
  have "p < n" using begun_bound [OF i(1)] i(6) [OF p] do_work(3) by simp
  from work_mu_less [where f = f and wmu = wmu, OF this do_work(3) node.step_mu [OF i(7) [OF do_work(3)] do_work(4)] p]
  show ?thesis by (simp add: do_work(1,2))
next
  case (run_outputs f p u v k s t)
  note i = async_invD [OF inv [unfolded run_outputs(1)]]
  have p: "p \<in> dom start" by (rule i(2) [OF run_outputs(3)])
  have "p < n" using begun_bound [OF i(1)] i(6) [OF p] run_outputs(3) by simp
  from work_mu_less [where f = f and wmu = wmu, OF this run_outputs(3) node.step_mu [OF i(7) [OF run_outputs(3)] run_outputs(4)] p]
  show ?thesis using exec.step_mu [OF i(1) exec_step.intros [OF run_outputs(7,9)]] by (simp add: run_outputs(1,2))
qed

lemma step_exec:
  "async_step fatal env h start work signalled x y \<Longrightarrow> (exec_step fatal (io_env start env) h)\<^sup>*\<^sup>* (fst x) (fst y)"
  by (induction rule: async_step.induct) (auto intro: exec_step.intros)

end

sublocale async_nodes \<subseteq> graph: terminating_system "async_step fatal env h start work signalled"
    "async_inv h r n start winv signalled" "\<lambda>x. exec_mu h n (fst x) + work_mu start wmu n (snd x)"
  for fatal env h r n start
  by unfold_locales (fact step_inv, fact step_mu)

sublocale async_nodes \<subseteq> schedule: simulation_chain "async_step fatal env h start work signalled"
    "async_inv h r n start winv signalled" "exec_step fatal (io_env start env) h" fst "exec_inv h r n" "dag_step h n" view_exec
  for fatal env h r n start
  by unfold_locales (use step_exec in \<open>auto simp: async_inv_def\<close>)

context async_nodes
begin

lemma task_goes_on:
  assumes inv: "async_inv h r n start winv signalled (s, f)" and k: "k < length (tasks s)"
    and na: "\<And>p. p \<in> dom start \<Longrightarrow> tasks s ! k \<noteq> Async p"
  shows "\<exists>y. async_step fatal env h start work signalled (s, f) y"
proof -
  note i = async_invD [OF inv]
  obtain t where t: "sched fatal (io_env start env) h k s = Inr t" using sched_succeeds [OF i(1) k] by blast
  show ?thesis
  proof (cases "\<exists>p\<in>dom start. tasks s ! k = Run p")
    case True
    then obtain p w where "tasks s ! k = Run p" "start p = Some (Inr w)" using i(5) by blast
    with async_step.start_work [OF k _ _ t] show ?thesis by blast
  next
    case False
    with na async_step.graph_task [OF k _ t] show ?thesis by blast
  qed
qed

lemma work_goes_on:
  assumes inv: "async_inv h r n start winv signalled (s, f)" and f: "f p = Some u" and w: "work p u v"
  shows "\<exists>y. async_step fatal env h start work signalled (s, f) y"
proof (cases "signalled p v = signalled p u")
  case True
  then show ?thesis using async_step.do_work [where s = s and f = f and work = work and signalled = signalled, OF f w] by blast
next
  case False
  note i = async_invD [OF inv]
  have new: "\<not> signalled p u" "signalled p v" using False keeps [OF i(7) [OF f] w] by auto
  have p: "p \<in> dom start" by (rule i(2) [OF f])
  have "p \<in># begun (trace s)" "p \<notin> ended (trace s)" using i(6) [OF p] i(8) [OF f] f new(1) by auto
  then obtain k where k: "k < length (tasks s)" "tasks s ! k = Busy p \<or> tasks s ! k = Async p"
    by (rule begun_waiting [OF i(1)])
  then have a: "tasks s ! k = Async p" using i(3) [OF p] nth_mem by metis
  obtain t where "sched fatal (io_env start env) h k s = Inr t" using sched_succeeds [OF i(1) k(1)] by blast
  then show ?thesis using async_step.run_outputs [where f = f and work = work and signalled = signalled, OF f w new k(1) a] by blast
qed

lemma graph_stops:
  assumes inv: "async_inv h r n start winv signalled (s, f)"
    and stop: "\<And>y. \<not> async_step fatal env h start work signalled (s, f) y"
  shows "tasks s = []" and "p \<in> dom start \<Longrightarrow> p < n \<Longrightarrow> \<exists>u. f p = Some u \<and> winv p u \<and> (\<forall>v. \<not> work p u v)"
proof -
  note i = async_invD [OF inv]
  have nw: "\<not> work p u v" if "f p = Some u" for p u v using work_goes_on [OF inv that] stop by blast
  have fin: "p \<in> ended (trace s)" if p: "p \<in> dom start" "p \<in># begun (trace s)" for p
  proof -
    obtain u where "f p = Some u" using i(6) [OF p(1)] p(2) by (cases "f p") auto
    then show ?thesis using stops [OF i(7)] i(8) nw by blast
  qed
  show "tasks s = []"
  proof (rule ccontr)
    assume "tasks s \<noteq> []"
    then have k: "0 < length (tasks s)" by simp
    then obtain p where p: "p \<in> dom start" "tasks s ! 0 = Async p" using task_goes_on [OF inv] stop by blast
    have "p \<in># begun (trace s)" by (rule node_ends(1) [OF i(1) k]) (simp add: p(2))
    then have "p \<in> ended (trace s)" by (rule fin [OF p(1)])
    moreover have "p \<notin> ended (trace s)" by (rule run_not_ended [OF i(1) k]) (simp add: p(2))
    ultimately show False by simp
  qed
  then have "ended (trace s) = {..<n}" by (rule exec_final(2) [OF i(1)])
  moreover assume p: "p \<in> dom start" "p < n"
  ultimately have "p \<in># begun (trace s)" using ended_begun [OF i(1), of p] by (simp add: started_eq)
  then obtain u where "f p = Some u" using i(6) [OF p(1)] by (cases "f p") auto
  then show "\<exists>u. f p = Some u \<and> winv p u \<and> (\<forall>v. \<not> work p u v)" using i(7) nw by blast
qed

lemma graph_start:
  assumes "prepared g h r n" and "run fatal g h = Inr (0, Some s0)"
    and "\<And>p. p \<in> dom start \<Longrightarrow> \<exists>w. start p = Some (Inr w) \<and> winv p w \<and> \<not> signalled p w"
  shows "async_inv h r n start winv signalled (s0, Map.empty)" and "view_exec s0 = ({}, {})"
    and "exec_mu h n s0 = (\<Sum>p<n. cost h p)"
proof -
  obtain s where s: "run fatal g h = Inr (0, Some s)" "exec_inv h r n s" "tasks s = [Run r]" "trace s = []"
    "exec_mu h n s = (\<Sum>p<n. cost h p)" using run_prepared [OF assms(1), of fatal] by metis
  have "s0 = s" using assms(2) s(1) by simp
  then show "async_inv h r n start winv signalled (s0, Map.empty)" "view_exec s0 = ({}, {})"
    "exec_mu h n s0 = (\<Sum>p<n. cost h p)"
    using s assms(3) by (auto simp: async_inv_def view_exec_def)
qed

end

end
