(* ===== verification/ConnectPool.thy ===== *)
theory ConnectPool
  imports Prelude
begin

text \<open>
  \<open>frame/client/redis/connect_pool.h\<close>: a pool of connections that is meant to grow from
  \<open>pool_size\<close> towards \<open>max_size\<close> under load and to shrink back. The builder of connections
  is a parameter: \<open>build k\<close> is what the \<open>k\<close>-th call of \<open>_build_connection\<close> of this pool
  returns, null when it fails. Every operation runs under the pool's mutex.
\<close>

section \<open>The pool and its operations\<close>

record 'c connect_pool =
  pool_size :: "32 word"
  max_size :: "32 word"
  borrow_size :: "32 word"
  busy :: "32 word"
  conn_list :: "'c list"
  builds :: nat \<comment> \<open>calls of \<open>_build_connection\<close> so far\<close>

definition build_one :: "(nat \<Rightarrow> 'c option) \<Rightarrow> 'c connect_pool \<Rightarrow> 'c connect_pool" where
  "build_one build p =
     (case build (builds p) of
        None \<Rightarrow> p\<lparr>builds := Suc (builds p)\<rparr>
      | Some c \<Rightarrow> p\<lparr>conn_list := conn_list p @ [c], builds := Suc (builds p)\<rparr>)"

text \<open>
  The constructor is \<open>noexcept\<close>, so its \<open>runtime_error\<close> ends the process. Both sizes are
  compared as unsigned numbers.
\<close>

definition new_pool :: "(nat \<Rightarrow> 'c option) \<Rightarrow> int \<Rightarrow> int \<Rightarrow> 'c connect_pool res" where
  "new_pool build psize msize =
     (let p = \<lparr>pool_size = word_of_int psize, max_size = word_of_int msize,
               borrow_size = 0, busy = 0, conn_list = [], builds = 0\<rparr>
      in if pool_size p > word_of_int msize then Inl Terminate
         else Inr ((build_one build ^^ unat (pool_size p)) p))"

definition borrow :: "(nat \<Rightarrow> 'c option) \<Rightarrow> 'c connect_pool \<Rightarrow> 'c option \<times> 'c connect_pool" where
  "borrow build p =
     (let (conn, p1) =
        (case conn_list p of
           c # cs \<Rightarrow> (Some c, p\<lparr>conn_list := cs, borrow_size := borrow_size p + 1\<rparr>)
         | [] \<Rightarrow> (build (builds p),
                  p\<lparr>builds := Suc (builds p), borrow_size := borrow_size p + 1\<rparr>));
          p2 = (if borrow_size p1 > pool_size p1 then p1\<lparr>busy := busy p1 + 1\<rparr>
                else p1\<lparr>busy := 0\<rparr>)
      in (conn, p2))"

definition release :: "'c option \<Rightarrow> 'c connect_pool \<Rightarrow> bool \<times> 'c connect_pool" where
  "release conn p =
     (case conn of
        None \<Rightarrow> (False, p)
      | Some c \<Rightarrow>
          let p1 = p\<lparr>borrow_size := borrow_size p - 1\<rparr>
          in if length (conn_list p1) \<ge> unat (max_size p1) then (False, p1)
             else if length (conn_list p1) < unat (pool_size p1)
             then (True, p1\<lparr>conn_list := conn_list p1 @ [c]\<rparr>)
             else if busy p1 > 0 then (True, p1\<lparr>conn_list := conn_list p1 @ [c]\<rparr>)
             else (True, p1))"

definition size_of_pool :: "'c connect_pool \<Rightarrow> bool" where
  \<comment> \<open>\<open>bool size()\<close>: the number of idle connections converted to \<open>bool\<close>\<close>
  "size_of_pool p = (length (conn_list p) \<noteq> 0)"

section \<open>The interface of a pool\<close>

text \<open>
  What the clients of a pool rely on: an idle connection is handed out first in, first out;
  a connection given back is kept as the last idle one or dropped; a null one changes nothing.
\<close>

locale lending =
  fixes take :: "'p \<Rightarrow> 'c option \<times> 'p"
    and give :: "'c option \<Rightarrow> 'p \<Rightarrow> bool \<times> 'p"
    and idle :: "'p \<Rightarrow> 'c list"
  assumes take_idle: "idle p = c # cs \<Longrightarrow> fst (take p) = Some c \<and> idle (snd (take p)) = cs"
    and take_empty: "idle p = [] \<Longrightarrow> idle (snd (take p)) = []"
    and give_idle: "idle (snd (give (Some c) p)) = idle p \<or>
      idle (snd (give (Some c) p)) = idle p @ [c]"
    and give_null: "idle (snd (give None p)) = idle p"
begin

text \<open>Taking a connection and giving it back at once only moves it to the end of the queue,
  or drops it.\<close>

lemma take_give:
  "idle p = c # cs \<Longrightarrow>
   idle (snd (give (fst (take p)) (snd (take p)))) \<in> {cs, cs @ [c]}"
  using take_idle [of p c cs] give_idle [of c "snd (take p)"] by auto

lemma take_give_subset:
  "set (idle (snd (give (fst (take p)) (snd (take p))))) \<subseteq> set (idle p) \<union> set_option (fst (take p))"
proof (cases "idle p")
  case Nil
  then have "idle (snd (take p)) = []" by (rule take_empty)
  then show ?thesis
    using give_idle [of "the (fst (take p))" "snd (take p)"] give_null [of "snd (take p)"]
    by (cases "fst (take p)") auto
next
  case (Cons c cs)
  with take_give [OF Cons] show ?thesis by auto
qed

end

lemma borrow_idle:
  "conn_list p = c # cs \<Longrightarrow> fst (borrow build p) = Some c \<and> conn_list (snd (borrow build p)) = cs"
  by (simp add: borrow_def Let_def)

lemma borrow_empty:
  "conn_list p = [] \<Longrightarrow>
   fst (borrow build p) = build (builds p) \<and> conn_list (snd (borrow build p)) = []"
  by (simp add: borrow_def Let_def)

interpretation pool: lending "borrow build" release conn_list for build
  by unfold_locales (auto simp: borrow_idle borrow_empty release_def Let_def)

lemma borrow_fields [simp]:
  "pool_size (snd (borrow build p)) = pool_size p"
  "max_size (snd (borrow build p)) = max_size p"
  "borrow_size (snd (borrow build p)) = borrow_size p + 1"
  "busy (snd (borrow build p)) = (if borrow_size p + 1 > pool_size p then busy p + 1 else 0)"
  by (simp_all add: borrow_def Let_def split: list.splits)

lemma release_fields [simp]:
  "pool_size (snd (release c p)) = pool_size p"
  "max_size (snd (release c p)) = max_size p"
  "busy (snd (release c p)) = busy p"
  "builds (snd (release c p)) = builds p"
  "borrow_size (snd (release c p)) = (if c = None then borrow_size p else borrow_size p - 1)"
  by (simp_all add: release_def Let_def split: option.splits)

lemma builds_funpow:
  "pool_size ((build_one build ^^ k) p) = pool_size p \<and> max_size ((build_one build ^^ k) p) = max_size p \<and>
   borrow_size ((build_one build ^^ k) p) = borrow_size p \<and> busy ((build_one build ^^ k) p) = busy p \<and>
   builds ((build_one build ^^ k) p) = builds p + k \<and>
   conn_list ((build_one build ^^ k) p) =
     conn_list p @ List.map_filter build [builds p..<builds p + k]"
  by (induction k) (auto simp: build_one_def List.map_filter_def split: option.splits)

section \<open>Borrowers\<close>

text \<open>
  A pool in use: \<open>lent\<close> are the connections borrowers hold, \<open>failed\<close> counts the borrowings
  that got a null connection. A borrower releases only what it holds, or the null pointer.
\<close>

record 'c usage =
  pool_state :: "'c connect_pool"
  lent :: "'c multiset"
  failed :: nat

definition use_borrow :: "(nat \<Rightarrow> 'c option) \<Rightarrow> 'c usage \<Rightarrow> 'c usage" where
  "use_borrow build u =
     (let (conn, p) = borrow build (pool_state u)
      in case conn of
           None \<Rightarrow> u\<lparr>pool_state := p, failed := Suc (failed u)\<rparr>
         | Some c \<Rightarrow> u\<lparr>pool_state := p, lent := add_mset c (lent u)\<rparr>)"

inductive use_step :: "(nat \<Rightarrow> 'c option) \<Rightarrow> 'c usage \<Rightarrow> 'c usage \<Rightarrow> bool" for build where
  lend: "use_step build u (use_borrow build u)"
| return: "c \<in># lent u \<Longrightarrow>
    use_step build u (u\<lparr>pool_state := snd (release (Some c) (pool_state u)),
                        lent := lent u - {#c#}\<rparr>)"
| return_null: "use_step build u (u\<lparr>pool_state := snd (release None (pool_state u))\<rparr>)"

definition use_inv :: "(nat \<Rightarrow> 'c option) \<Rightarrow> 'c usage \<Rightarrow> bool" where
  "use_inv build u \<longleftrightarrow>
     pool_size (pool_state u) \<le> max_size (pool_state u) \<and>
     length (conn_list (pool_state u)) \<le> unat (max_size (pool_state u)) \<and>
     borrow_size (pool_state u) = of_nat (size (lent u) + failed u) \<and>
     (\<forall>c. count (mset (conn_list (pool_state u)) + lent u) c \<le> 1) \<and>
     (\<forall>c. c \<in># mset (conn_list (pool_state u)) + lent u \<longrightarrow>
        (\<exists>k<builds (pool_state u). build k = Some c)) \<and>
     (\<forall>i j c. build i = Some c \<longrightarrow> build j = Some c \<longrightarrow> i = j)"

definition unused :: "'c connect_pool \<Rightarrow> 'c usage" where
  "unused p = \<lparr>pool_state = p, lent = {#}, failed = 0\<rparr>"

lemma use_borrow_inv:
  assumes inv: "use_inv build u"
  shows "use_inv build (use_borrow build u)"
proof (cases "conn_list (pool_state u)")
  case (Cons c cs)
  have "builds (snd (borrow build (pool_state u))) = builds (pool_state u)"
    using Cons by (simp add: borrow_def Let_def)
  then show ?thesis
    using inv Cons borrow_idle [OF Cons, of build]
    by (auto simp: use_inv_def use_borrow_def split_beta)
next
  case Nil
  let ?k = "builds (pool_state u)"
  have b: "builds (snd (borrow build (pool_state u))) = Suc ?k"
    using Nil by (simp add: borrow_def Let_def)
  note e = borrow_empty [OF Nil, of build]
  show ?thesis
  proof (cases "build ?k")
    case None
    then show ?thesis
      using inv Nil e b by (auto simp: use_inv_def use_borrow_def split_beta less_Suc_eq)
  next
    case (Some c)
    have old: "\<exists>k<?k. build k = Some x" if x: "x \<in># lent u" for x
      using inv x by (auto simp: use_inv_def)
    have one: "count (lent u) x \<le> 1" for x using inv Nil by (simp add: use_inv_def)
    have inj: "\<And>i j c. build i = Some c \<Longrightarrow> build j = Some c \<Longrightarrow> i = j"
      using inv by (simp add: use_inv_def)
    have "c \<notin># lent u" using old [of c] inj [OF Some] by auto
    then have "count (add_mset c (lent u)) x \<le> 1" for x
      using one [of x] by (auto simp: not_in_iff)
    moreover have "\<exists>k<Suc ?k. build k = Some x" if x: "x \<in># add_mset c (lent u)" for x
    proof (cases "x = c")
      case False
      then have "\<exists>k<?k. build k = Some x" using x old by simp
      then show ?thesis using less_SucI by blast
    qed (use Some in blast)
    ultimately show ?thesis
      using inv Nil e b Some by (simp add: use_inv_def use_borrow_def split_beta)
  qed
qed

lemma use_return_inv:
  assumes inv: "use_inv build u" and c: "c \<in># lent u"
  shows "use_inv build (u\<lparr>pool_state := snd (release (Some c) (pool_state u)),
    lent := lent u - {#c#}\<rparr>)"
proof -
  let ?p = "pool_state u" and ?q = "snd (release (Some c) (pool_state u))"
  obtain M where M: "lent u = add_mset c M" using c by (metis mset_add)
  have q: "conn_list ?q = conn_list ?p \<or> conn_list ?q = conn_list ?p @ [c]"
    by (rule pool.give_idle)
  have len: "length (conn_list ?q) \<le> unat (max_size ?p)"
    using inv by (auto simp: use_inv_def release_def Let_def)
  have cnt: "count (mset (conn_list ?p)) x + count (add_mset c M) x \<le> 1" for x
    using inv unfolding use_inv_def M count_union by blast
  have "count (mset (conn_list ?q)) x + count M x \<le> 1" for x
  proof -
    have "count (mset (conn_list ?q)) x \<le> count (mset (conn_list ?p)) x + (if c = x then 1 else 0)"
      using q by auto
    moreover have "count (add_mset c M) x = count M x + (if c = x then 1 else 0)" by simp
    ultimately show ?thesis using cnt [of x] by linarith
  qed
  moreover have "set_mset (mset (conn_list ?q) + M) \<subseteq> set_mset (mset (conn_list ?p) + lent u)"
    using q M by auto
  ultimately show ?thesis
    using inv len M by (auto simp: use_inv_def)
qed

lemma use_step_inv:
  assumes inv: "use_inv build u" and step: "use_step build u v"
  shows "use_inv build v"
  using step
proof cases
  case lend
  then show ?thesis using inv by (simp add: use_borrow_inv)
next
  case (return c)
  then show ?thesis using inv by (simp add: use_return_inv)
next
  case return_null
  then show ?thesis using inv by (simp add: use_inv_def release_def)
qed

interpretation usage: invariant_system "use_step build" "use_inv build" for build
  by unfold_locales (rule use_step_inv)

lemma new_pool_inv:
  assumes "new_pool build psize msize = Inr p"
    and inj: "\<And>i j c. build i = Some c \<Longrightarrow> build j = Some c \<Longrightarrow> i = j"
  shows "use_inv build (unused p)"
proof -
  let ?p0 = "\<lparr>pool_size = word_of_int psize :: 32 word, max_size = word_of_int msize,
               borrow_size = 0, busy = 0, conn_list = [] :: 'a list, builds = 0\<rparr>"
  from assms(1) have le: "(word_of_int psize :: 32 word) \<le> word_of_int msize"
    and p: "p = (build_one build ^^ unat (word_of_int psize :: 32 word)) ?p0"
    by (auto simp: new_pool_def Let_def split: if_splits)
  let ?ks = "[0..<unat (word_of_int psize :: 32 word)]"
  have f: "pool_size p = word_of_int psize" "max_size p = word_of_int msize" "borrow_size p = 0"
    "builds p = unat (word_of_int psize :: 32 word)" "conn_list p = List.map_filter build ?ks"
    using builds_funpow [where build = build and p = ?p0] by (simp_all add: p)
  have set: "c \<in> set (List.map_filter build ks) \<longleftrightarrow> (\<exists>k\<in>set ks. build k = Some c)" for c ks
    by (induction ks) (auto simp: List.map_filter_def)
  have "distinct (List.map_filter build ks)" if "distinct ks" for ks
    using that
  proof (induction ks)
    case (Cons k ks)
    then have "distinct (List.map_filter build ks)" by simp
    moreover have "c \<notin> set (List.map_filter build ks)" if "build k = Some c" for c
      using Cons.prems inj that unfolding set by auto
    ultimately show ?case by (cases "build k") (simp_all add: List.map_filter_simps)
  qed (simp add: List.map_filter_simps)
  then have "distinct (conn_list p)" by (simp add: f)
  moreover have "length (List.map_filter build ks) \<le> length ks" for ks
    by (simp add: List.map_filter_def)
  from this [of ?ks] have "length (conn_list p) \<le> unat (max_size p)"
    using le by (simp add: f word_le_nat_alt)
  ultimately show ?thesis
    using inj le by (auto simp: use_inv_def unused_def f set distinct_count_atmost_1)
qed

section \<open>Properties\<close>

text \<open>C19: Between a pool and its borrowers no connection is ever shared: in every state that
  borrowings and returns reach from a new pool, a connection is held by at most one borrower,
  is not idle while it is held, and is idle at most once; at most \<open>max_size\<close> connections are
  idle; and \<open>borrow_size\<close> counts the held connections and the failed borrowings, modulo
  \<open>2\<^sup>3\<^sup>2\<close>: a borrowing whose build failed is never counted back.\<close>

theorem pool_exclusive:
  assumes "new_pool build psize msize = Inr p"
    and "\<And>i j c. build i = Some c \<Longrightarrow> build j = Some c \<Longrightarrow> i = j"
    and "(use_step build)\<^sup>*\<^sup>* (unused p) u"
  shows "distinct (conn_list (pool_state u)) \<and> (\<forall>c. count (lent u) c \<le> 1) \<and>
    set (conn_list (pool_state u)) \<inter> set_mset (lent u) = {} \<and>
    length (conn_list (pool_state u)) \<le> unat (max_size (pool_state u)) \<and>
    borrow_size (pool_state u) = of_nat (size (lent u) + failed u)"
proof -
  have inv: "use_inv build u"
    by (rule usage.steps_inv [OF assms(3)], rule new_pool_inv [OF assms(1)]) (fact assms(2))
  have one: "count (mset (conn_list (pool_state u))) c + count (lent u) c \<le> 1" for c
    using inv by (simp add: use_inv_def)
  have "count (mset (conn_list (pool_state u))) c = (if c \<in> set (conn_list (pool_state u)) then 1 else 0)"
    for c
  proof (cases "c \<in> set (conn_list (pool_state u))")
    case True
    then have "count (mset (conn_list (pool_state u))) c \<noteq> 0" by simp
    with one [of c] have "count (mset (conn_list (pool_state u))) c = 1" by linarith
    then show ?thesis using True by simp
  qed simp
  then have "distinct (conn_list (pool_state u))" by (simp add: distinct_count_atmost_1)
  moreover have "count (lent u) c \<le> 1" for c using one [of c] by simp
  moreover have "c \<notin># lent u" if "c \<in> set (conn_list (pool_state u))" for c
  proof -
    have "count (mset (conn_list (pool_state u))) c \<noteq> 0" using that by simp
    then have "count (lent u) c = 0" using one [of c] by linarith
    then show ?thesis by (simp add: not_in_iff)
  qed
  ultimately show ?thesis using inv by (auto simp: use_inv_def)
qed

text \<open>An empty pool whose builder succeeds lends without a limit.\<close>

lemma use_borrow_lent:
  assumes "\<And>k. build k \<noteq> None"
  shows "size (lent (use_borrow build u)) = Suc (size (lent u))"
proof (cases "fst (borrow build (pool_state u))")
  case None
  then show ?thesis
    using assms borrow_idle [of "pool_state u"] borrow_empty [of "pool_state u"]
    by (cases "conn_list (pool_state u)") auto
next
  case (Some c)
  then show ?thesis by (simp add: use_borrow_def split_beta)
qed

text \<open>The pool puts no bound on the connections in use: while the builder succeeds, any
  number \<open>n\<close> of borrowings without a return all succeed, so that more than \<open>max_size\<close>
  connections are open at a time, although the comment above the class says the pool never
  exceeds \<open>max_size\<close>.\<close>

lemma pool_unbounded:
  assumes "new_pool build psize msize = Inr p" and "\<And>k. build k \<noteq> None"
  shows "size (lent ((use_borrow build ^^ n) (unused p))) = n"
  using use_borrow_lent [OF assms(2)] by (induction n) (simp_all add: unused_def)

section \<open>Recovery\<close>

definition use_once :: "(nat \<Rightarrow> 'c option) \<Rightarrow> 'c connect_pool \<Rightarrow> 'c connect_pool" where
  "use_once build p = (let (conn, q) = borrow build p in snd (release conn q))"

lemma use_once_relaxed:
  assumes "borrow_size p < pool_size p" and "pool_size p \<le> max_size p"
    and idle: "unat (pool_size p) \<le> length (conn_list p)"
  shows "borrow_size (use_once build p) = borrow_size p"
    and "pool_size (use_once build p) = pool_size p"
    and "max_size (use_once build p) = max_size p"
    and "length (conn_list (use_once build p)) = max (unat (pool_size p)) (length (conn_list p) - 1)"
proof -
  have "0 < unat (pool_size p)" using assms(1) by (simp add: word_less_nat_alt)
  then obtain c cs where c: "conn_list p = c # cs" using idle by (cases "conn_list p") auto
  have "\<not> borrow_size p + 1 > pool_size p"
    using assms(1) by (metis add.commute inc_le not_less)
  then have b: "busy (snd (borrow build p)) = 0" by simp
  note bi = borrow_idle [OF c, of build]
  show "borrow_size (use_once build p) = borrow_size p" "pool_size (use_once build p) = pool_size p"
    "max_size (use_once build p) = max_size p"
    using bi by (simp_all add: use_once_def split_beta)
  have "unat (pool_size p) \<le> unat (max_size p)" using assms(2) by (simp add: word_le_nat_alt)
  then show "length (conn_list (use_once build p)) = max (unat (pool_size p)) (length (conn_list p) - 1)"
    using bi b c idle by (simp add: use_once_def split_beta release_def Let_def)
qed

text \<open>C36: The pool shrinks back: with \<open>extra\<close> idle connections beyond \<open>pool_size\<close> and
  fewer than \<open>pool_size\<close> connections in use, each borrowing followed by its return drops one
  surplus connection until exactly \<open>pool_size\<close> are left, and then the number stays.\<close>

theorem pool_recovers:
  assumes "borrow_size p < pool_size p" and "pool_size p \<le> max_size p"
    and "length (conn_list p) = unat (pool_size p) + extra"
  shows "length (conn_list ((use_once build ^^ n) p)) = unat (pool_size p) + (extra - n)"
proof -
  have "borrow_size ((use_once build ^^ n) p) = borrow_size p \<and>
    pool_size ((use_once build ^^ n) p) = pool_size p \<and>
    max_size ((use_once build ^^ n) p) = max_size p \<and>
    length (conn_list ((use_once build ^^ n) p)) = unat (pool_size p) + (extra - n)"
  proof (induction n)
    case (Suc n)
    then show ?case
      using assms(1,2) use_once_relaxed [of "(use_once build ^^ n) p" build] by auto
  qed (simp add: assms(3))
  then show ?thesis by simp
qed

section \<open>Witnesses\<close>

text \<open>A builder that opens connection \<open>k\<close> at its \<open>k\<close>-th call, and a pool of one to two.\<close>

definition fresh_pool :: "nat connect_pool" where
  "fresh_pool = \<lparr>pool_size = 1, max_size = 2, borrow_size = 0, busy = 0, conn_list = [0], builds = 1\<rparr>"

lemma fresh_pool_new: "new_pool Some 1 2 = Inr fresh_pool"
  by (simp add: new_pool_def build_one_def fresh_pool_def)

definition two_lent :: "nat usage" where
  "two_lent = use_borrow Some (use_borrow Some (unused fresh_pool))"

lemma two_lent_reached: "(use_step Some)\<^sup>*\<^sup>* (unused fresh_pool) two_lent"
  unfolding two_lent_def
  by (rule rtranclp.rtrancl_into_rtrancl [OF r_into_rtranclp]) (rule use_step.lend)+

theorem pool_exclusive_witness:
  "length (conn_list (pool_state two_lent)) \<le> 2 \<and> lent two_lent = {#0, 1#} \<and>
   borrow_size (pool_state two_lent) = of_nat (size (lent two_lent) + failed two_lent)"
proof -
  have "lent two_lent = {#0, 1#}" "max_size (pool_state two_lent) = 2"
    by (simp_all add: two_lent_def use_borrow_def borrow_def unused_def fresh_pool_def)
  with pool_exclusive [OF fresh_pool_new _ two_lent_reached] show ?thesis by auto
qed

lemma pool_unbounded_example:
  "size (lent ((use_borrow Some ^^ 7) (unused fresh_pool))) = 7"
  by (rule pool_unbounded [OF fresh_pool_new]) simp

theorem pool_recovers_witness:
  "length (conn_list ((use_once Some ^^ 2) (fresh_pool\<lparr>conn_list := [5, 6]\<rparr>))) = 1"
  using pool_recovers [of "fresh_pool\<lparr>conn_list := [5, 6]\<rparr>" 1 2 Some]
  by (simp add: fresh_pool_def)

end
