(* ===== verification/ChannelPool.thy ===== *)
theory ChannelPool
  imports ConnectPool
begin

text \<open>
  \<open>frame/client/redis/channel_pool.h\<close> and \<open>channel_pool.cpp\<close>: the pools of one redis
  cluster. A key is hashed to one of 16384 slots with the table-driven CRC-16 of redis cluster
  and its hash tags, the slot names the node that serves it, and the node's connection pool
  lends the channel.
\<close>

unbundle bit_operations_syntax

section \<open>The checksum\<close>

definition crc16tab :: "16 word list" where
  "crc16tab =
    [0x0000, 0x1021, 0x2042, 0x3063, 0x4084, 0x50A5, 0x60C6, 0x70E7,
     0x8108, 0x9129, 0xA14A, 0xB16B, 0xC18C, 0xD1AD, 0xE1CE, 0xF1EF,
     0x1231, 0x0210, 0x3273, 0x2252, 0x52B5, 0x4294, 0x72F7, 0x62D6,
     0x9339, 0x8318, 0xB37B, 0xA35A, 0xD3BD, 0xC39C, 0xF3FF, 0xE3DE,
     0x2462, 0x3443, 0x0420, 0x1401, 0x64E6, 0x74C7, 0x44A4, 0x5485,
     0xA56A, 0xB54B, 0x8528, 0x9509, 0xE5EE, 0xF5CF, 0xC5AC, 0xD58D,
     0x3653, 0x2672, 0x1611, 0x0630, 0x76D7, 0x66F6, 0x5695, 0x46B4,
     0xB75B, 0xA77A, 0x9719, 0x8738, 0xF7DF, 0xE7FE, 0xD79D, 0xC7BC,
     0x48C4, 0x58E5, 0x6886, 0x78A7, 0x0840, 0x1861, 0x2802, 0x3823,
     0xC9CC, 0xD9ED, 0xE98E, 0xF9AF, 0x8948, 0x9969, 0xA90A, 0xB92B,
     0x5AF5, 0x4AD4, 0x7AB7, 0x6A96, 0x1A71, 0x0A50, 0x3A33, 0x2A12,
     0xDBFD, 0xCBDC, 0xFBBF, 0xEB9E, 0x9B79, 0x8B58, 0xBB3B, 0xAB1A,
     0x6CA6, 0x7C87, 0x4CE4, 0x5CC5, 0x2C22, 0x3C03, 0x0C60, 0x1C41,
     0xEDAE, 0xFD8F, 0xCDEC, 0xDDCD, 0xAD2A, 0xBD0B, 0x8D68, 0x9D49,
     0x7E97, 0x6EB6, 0x5ED5, 0x4EF4, 0x3E13, 0x2E32, 0x1E51, 0x0E70,
     0xFF9F, 0xEFBE, 0xDFDD, 0xCFFC, 0xBF1B, 0xAF3A, 0x9F59, 0x8F78,
     0x9188, 0x81A9, 0xB1CA, 0xA1EB, 0xD10C, 0xC12D, 0xF14E, 0xE16F,
     0x1080, 0x00A1, 0x30C2, 0x20E3, 0x5004, 0x4025, 0x7046, 0x6067,
     0x83B9, 0x9398, 0xA3FB, 0xB3DA, 0xC33D, 0xD31C, 0xE37F, 0xF35E,
     0x02B1, 0x1290, 0x22F3, 0x32D2, 0x4235, 0x5214, 0x6277, 0x7256,
     0xB5EA, 0xA5CB, 0x95A8, 0x8589, 0xF56E, 0xE54F, 0xD52C, 0xC50D,
     0x34E2, 0x24C3, 0x14A0, 0x0481, 0x7466, 0x6447, 0x5424, 0x4405,
     0xA7DB, 0xB7FA, 0x8799, 0x97B8, 0xE75F, 0xF77E, 0xC71D, 0xD73C,
     0x26D3, 0x36F2, 0x0691, 0x16B0, 0x6657, 0x7676, 0x4615, 0x5634,
     0xD94C, 0xC96D, 0xF90E, 0xE92F, 0x99C8, 0x89E9, 0xB98A, 0xA9AB,
     0x5844, 0x4865, 0x7806, 0x6827, 0x18C0, 0x08E1, 0x3882, 0x28A3,
     0xCB7D, 0xDB5C, 0xEB3F, 0xFB1E, 0x8BF9, 0x9BD8, 0xABBB, 0xBB9A,
     0x4A75, 0x5A54, 0x6A37, 0x7A16, 0x0AF1, 0x1AD0, 0x2AB3, 0x3A92,
     0xFD2E, 0xED0F, 0xDD6C, 0xCD4D, 0xBDAA, 0xAD8B, 0x9DE8, 0x8DC9,
     0x7C26, 0x6C07, 0x5C64, 0x4C45, 0x3CA2, 0x2C83, 0x1CE0, 0x0CC1,
     0xEF1F, 0xFF3E, 0xCF5D, 0xDF7C, 0xAF9B, 0xBFBA, 0x8FD9, 0x9FF8,
     0x6E17, 0x7E36, 0x4E55, 0x5E74, 0x2E93, 0x3EB2, 0x0ED1, 0x1EF0]"

text \<open>
  A key is the string of its bytes. The loop counter of \<open>crc16\<close> is an \<open>int32_t\<close>, and so is
  its bound: a buffer of \<open>2\<^sup>3\<^sup>1\<close> bytes or more has the length the conversion gives.
\<close>

definition crc16_step :: "char \<Rightarrow> 16 word \<Rightarrow> 16 word" where
  "crc16_step ch crc =
     push_bit 8 crc XOR crc16tab ! unat ((drop_bit 8 crc XOR of_char ch) AND 0x00FF)"

definition crc16 :: "string \<Rightarrow> int \<Rightarrow> 16 word" where
  "crc16 buf len = fold crc16_step (take (nat (int32 len)) buf) 0"

section \<open>Slots\<close>

function find_from :: "char \<Rightarrow> string \<Rightarrow> nat \<Rightarrow> nat" where
  "find_from ch key s =
     (if s < length key then if key ! s = ch then s else find_from ch key (Suc s) else s)"
  by pat_completeness auto

termination
  by (relation "measure (\<lambda>(ch, key, s). length key - s)") auto

declare find_from.simps [simp del]

definition GetKeySlot :: "string option \<Rightarrow> 32 word" where
  "GetKeySlot key0 =
     (case key0 of
        None \<Rightarrow> 0
      | Some key \<Rightarrow>
          let len = length key; s = find_from (CHR ''{'') key 0
          in if s = len then ucast (crc16 key (int len)) AND 0x3FFF
             else
               let e = find_from (CHR ''}'') key (s + 1)
               in if e = len \<or> e = s + 1 then ucast (crc16 key (int len)) AND 0x3FFF
                  else ucast (crc16 (drop (s + 1) key) (int (e - s - 1))) AND 0x3FFF)"

section \<open>The pool of a cluster\<close>

text \<open>
  \<open>None\<close> in \<open>m_channel_list\<close> is the null pointer a resized vector holds. A pool comes with the
  address its builder is bound to: \<open>connect addr k\<close> is what the \<open>k\<close>-th attempt of a pool to
  open a channel to \<open>addr\<close> gives.
\<close>

record 'c channel_pool =
  m_channel_list :: "(string \<times> 'c connect_pool) option list"
  slot_ipport_index_vec :: "int list"
  valid_lines :: "string list"

definition new_channel_pool :: "'c channel_pool" where
  "new_channel_pool = \<lparr>m_channel_list = [], slot_ipport_index_vec = [], valid_lines = []\<rparr>"

definition GetKeyNodeIndex :: "string option \<Rightarrow> 'c channel_pool \<Rightarrow> 32 word" where
  "GetKeyNodeIndex key cp =
     (let slot = unat (GetKeySlot key)
      in if slot < length (slot_ipport_index_vec cp)
         then let target_index = slot_ipport_index_vec cp ! slot
              in if target_index = -1 then 0 else word_of_int target_index
         else 0)"

definition GetConnection ::
  "(string \<Rightarrow> nat \<Rightarrow> 'c option) \<Rightarrow> 32 word \<Rightarrow> 'c channel_pool \<Rightarrow> ('c option \<times> 'c channel_pool) res"
where
  "GetConnection connect idx cp =
     (let i = unat idx
      in if i \<ge> length (m_channel_list cp) then Inr (None, cp)
         else case m_channel_list cp ! i of
                None \<Rightarrow> Inl Null_Deref
              | Some (addr, p) \<Rightarrow>
                  let (channel, q) = borrow (connect addr) p
                  in Inr (channel,
                       cp\<lparr>m_channel_list := (m_channel_list cp)[i := Some (addr, q)]\<rparr>))"

definition FreeConnection ::
  "'c option \<Rightarrow> 32 word \<Rightarrow> 'c channel_pool \<Rightarrow> 'c channel_pool res"
where
  "FreeConnection channel index cp =
     (let i = unat index
      in if i \<ge> length (m_channel_list cp) then Inl Bad_Ptr
         else case m_channel_list cp ! i of
                None \<Rightarrow> Inl Null_Deref
              | Some (addr, p) \<Rightarrow>
                  Inr (cp\<lparr>m_channel_list :=
                         (m_channel_list cp)[i := Some (addr, snd (release channel p))]\<rparr>))"

section \<open>Reference: the bitwise CRC-16/XMODEM\<close>

text \<open>The checksum of the redis cluster specification: polynomial \<open>0x1021\<close>, start 0, no
  reflection, one bit at a time.\<close>

definition crc_bit :: "16 word \<Rightarrow> 16 word" where
  "crc_bit crc = (if bit crc 15 then push_bit 1 crc XOR 0x1021 else push_bit 1 crc)"

definition crc_byte :: "char \<Rightarrow> 16 word \<Rightarrow> 16 word" where
  "crc_byte ch crc = (crc_bit ^^ 8) (crc XOR push_bit 8 (of_char ch))"

definition xmodem :: "string \<Rightarrow> 16 word" where
  "xmodem s = fold crc_byte s 0"

section \<open>The table is the bitwise checksum\<close>

text \<open>One bit step is linear, so a byte step splits into the low byte, which is only shifted,
  and the byte that indexes the table, for which the 256 cases are evaluated.\<close>

lemma crc_bit_xor: "crc_bit (x XOR y) = crc_bit x XOR crc_bit y"
  by (rule bit_word_eqI) (auto simp: crc_bit_def bit_simps)

lemma crc_bits_xor: "(crc_bit ^^ n) (x XOR y) = (crc_bit ^^ n) x XOR (crc_bit ^^ n) y"
  by (induction n) (simp_all add: crc_bit_xor)

lemma crc_bits_low: "n \<le> 8 \<Longrightarrow> (crc_bit ^^ n) (x AND 0xFF) = push_bit n (x AND 0xFF)"
proof (induction n)
  case (Suc n)
  have "\<not> bit (push_bit n (x AND 0xFF)) 15"
  proof
    assume "bit (push_bit n (x AND 0xFF)) 15"
    then have "bit (0xFF :: 16 word) (15 - n)" by (simp add: bit_simps)
    moreover have "(0xFF :: 16 word) = mask 8" by (simp add: mask_eq_exp_minus_1)
    ultimately have "15 - n < 8" by (simp add: bit_mask_iff)
    with Suc.prems show False by simp
  qed
  with Suc show ?case by (simp add: crc_bit_def)
qed simp

fun expand :: "16 word list \<Rightarrow> 16 word list" where
  "expand [] = []"
| "expand (t # ts) = crc_bit t # (crc_bit t XOR 0x1021) # expand ts"

lemma expand_nth:
  "b < length ts \<Longrightarrow> expand ts ! (2 * b) = crc_bit (ts ! b) \<and>
   expand ts ! Suc (2 * b) = crc_bit (ts ! b) XOR 0x1021"
proof (induction ts arbitrary: b rule: expand.induct)
  case (2 t ts)
  then show ?case by (cases b) auto
qed simp

lemma crc16tab_expand: "crc16tab = expand (take 128 crc16tab)"
  by (simp add: crc16tab_def crc_bit_def)


lemma crc_bits_double:
  assumes "b < 128"
  shows "(crc_bit ^^ 8) (push_bit 8 (of_nat (2 * b))) = crc_bit ((crc_bit ^^ 8) (push_bit 8 (of_nat b)))"
proof -
  have "\<not> bit b 7"
    using assms bit_take_bit_iff [of 7 b 7] by (simp add: take_bit_nat_eq_self)
  then have "\<not> bit (of_nat b :: 16 word) 7" by (simp add: bit_simps)
  then have "\<not> bit (push_bit 8 (of_nat b) :: 16 word) 15" by (simp add: bit_simps)
  then have "crc_bit (push_bit 8 (of_nat b)) = push_bit 8 (of_nat (2 * b))"
    unfolding crc_bit_def by (simp add: push_bit_eq_mult)
  then show ?thesis by (metis funpow_swap1)
qed

lemma of_nat_odd: "(of_nat (Suc (2 * b)) :: 16 word) = of_nat (2 * b) XOR 1"
  by (simp add: xor_one_eq)

lemma crc_bits_one: "(crc_bit ^^ 8) (push_bit 8 1) = 0x1021"
  by code_simp

lemma crc16tab_nth:
  "i < 256 \<Longrightarrow> crc16tab ! i = (crc_bit ^^ 8) (push_bit 8 (of_nat i))"
proof (induction i rule: less_induct)
  case (less i)
  show ?case
  proof (cases "i = 0")
    case True
    have "(crc_bit ^^ n) 0 = 0" for n by (induction n) (simp_all add: crc_bit_def)
    then show ?thesis using True by (simp add: crc16tab_def)
  next
    case False
    let ?b = "i div 2"
    have b: "?b < 128" "?b < i" using less.prems False by auto
    have t: "length (take 128 crc16tab) = 128" by (simp add: crc16tab_def)
    have n: "crc16tab ! ?b = (crc_bit ^^ 8) (push_bit 8 (of_nat ?b))" using less b by auto
    have e: "crc16tab ! (2 * ?b) = crc_bit (crc16tab ! ?b)"
      "crc16tab ! Suc (2 * ?b) = crc_bit (crc16tab ! ?b) XOR 0x1021"
      using expand_nth [of ?b "take 128 crc16tab"] b t crc16tab_expand by simp_all
    show ?thesis
    proof (cases "even i")
      case True
      then have "i = 2 * ?b" by simp
      then show ?thesis using e(1) n crc_bits_double [OF b(1)] by metis
    next
      case odd: False
      then have i: "i = Suc (2 * ?b)" by simp
      have "(crc_bit ^^ 8) (push_bit 8 (of_nat (Suc (2 * ?b)))) =
        crc_bit ((crc_bit ^^ 8) (push_bit 8 (of_nat ?b))) XOR 0x1021"
        unfolding of_nat_odd push_bit_xor crc_bits_xor crc_bits_double [OF b(1)] crc_bits_one ..
      then show ?thesis using e(2) n i by metis
    qed
  qed
qed

lemma unat_low: "unat (t AND 0xFF :: 16 word) < 256"
proof -
  have "t AND 0xFF = take_bit 8 t" by (simp add: take_bit_eq_mask mask_eq_exp_minus_1)
  then have "unat (t AND 0xFF) = take_bit 8 (unat t)" by (simp add: unsigned_take_bit_eq)
  then show ?thesis using take_bit_nat_less_exp [of 8 "unat t"] by simp
qed

lemma crc16_step_byte: "crc16_step ch crc = crc_byte ch crc"
proof -
  let ?b = "(drop_bit 8 crc XOR of_char ch) AND 0xFF :: 16 word"
  have m: "(0xFF :: 16 word) = mask 8" by (simp add: mask_eq_exp_minus_1)
  have tab: "crc16tab ! unat ?b = (crc_bit ^^ 8) (push_bit 8 ?b)"
    using crc16tab_nth [OF unat_low] by simp
  have "crc XOR push_bit 8 (of_char ch) = (crc AND 0xFF) XOR push_bit 8 ?b"
    unfolding m by (rule bit_word_eqI) (auto simp: bit_simps)
  moreover have "push_bit 8 (crc AND 0xFF) = push_bit 8 crc"
    unfolding m by (rule bit_word_eqI) (auto simp: bit_simps)
  ultimately show ?thesis
    using crc_bits_low [of 8 crc] by (simp add: crc16_step_def crc_byte_def crc_bits_xor tab)
qed

lemma crc16_xmodem: "crc16 buf len = xmodem (take (nat (int32 len)) buf)"
  by (simp add: crc16_def xmodem_def crc16_step_byte [abs_def])


section \<open>Slots of keys\<close>

lemma find_from_takeWhile:
  "s \<le> length key \<Longrightarrow> find_from ch key s = s + length (takeWhile (\<lambda>c. c \<noteq> ch) (drop s key))"
proof (induction ch key s rule: find_from.induct)
  case (1 ch key s)
  show ?case
  proof (cases "s < length key")
    case True
    then have "drop s key = key ! s # drop (Suc s) key" by (rule Cons_nth_drop_Suc [symmetric])
    then show ?thesis
      using 1 True by (auto simp: find_from.simps [of ch key s])
  next
    case False
    then have "s = length key" using "1.prems" by simp
    then show ?thesis by (subst find_from.simps) simp
  qed
qed

text \<open>The part of a key that is hashed, as the redis cluster specification defines it: what
  is between the first opening brace and the first closing brace after it, when both are there
  with something between them, else the whole key.\<close>

definition hash_part :: "string \<Rightarrow> string" where
  "hash_part key =
     (case dropWhile (\<lambda>c. c \<noteq> CHR ''{'') key of
        [] \<Rightarrow> key
      | _ # rest \<Rightarrow>
          let tag = takeWhile (\<lambda>c. c \<noteq> CHR ''}'') rest
          in if tag = [] \<or> tag = rest then key else tag)"

lemma hash_part_eq:
  "hash_part key =
     (let len = length key; s = find_from (CHR ''{'') key 0
      in if s = len then key
         else
           let e = find_from (CHR ''}'') key (s + 1)
           in if e = len \<or> e = s + 1 then key else take (e - s - 1) (drop (s + 1) key))"
proof -
  let ?s = "find_from (CHR ''{'') key 0" and ?n = "\<lambda>c. c \<noteq> CHR ''{''"
  have s: "?s = length (takeWhile ?n key)" by (simp add: find_from_takeWhile)
  have d: "dropWhile ?n key = drop ?s key" by (simp add: s dropWhile_eq_drop)
  show ?thesis
  proof (cases "?s = length key")
    case True
    then show ?thesis by (simp add: hash_part_def d)
  next
    case False
    then have lt: "?s < length key" using s length_takeWhile_le [of ?n key] by simp
    let ?rest = "drop (?s + 1) key" and ?m = "\<lambda>c. c \<noteq> CHR ''}''"
    let ?e = "find_from (CHR ''}'') key (?s + 1)" and ?tag = "takeWhile ?m ?rest"
    have e: "?e = ?s + 1 + length ?tag" using lt by (simp add: find_from_takeWhile)
    have c: "dropWhile ?n key = key ! ?s # ?rest"
      using d lt by (simp add: Cons_nth_drop_Suc)
    have all: "?tag = ?rest \<longleftrightarrow> ?e = length key"
    proof
      assume "?e = length key"
      then have "length ?tag = length ?rest" using e lt by simp
      then show "?tag = ?rest" by (metis takeWhile_eq_take take_all order_refl)
    next
      assume "?tag = ?rest"
      then have "length ?tag = length ?rest" by (rule arg_cong)
      then show "?e = length key" using e lt by simp
    qed
    have "length ?tag = 0 \<longleftrightarrow> ?e = ?s + 1" using e by linarith
    then have none: "?tag = [] \<longleftrightarrow> ?e = ?s + 1" by (simp only: length_0_conv)
    have "?e - ?s - 1 = length ?tag" using e by linarith
    then have tag: "?tag = take (?e - ?s - 1) ?rest" by (metis takeWhile_eq_take)
    have "hash_part key = (if ?tag = [] \<or> ?tag = ?rest then key else ?tag)"
      by (simp only: hash_part_def c list.case Let_def)
    then have "hash_part key =
      (if ?e = ?s + 1 \<or> ?e = length key then key else take (?e - ?s - 1) ?rest)"
      by (simp only: all none tag [symmetric])
    with False show ?thesis by (simp only: Let_def if_False disj_commute)
  qed
qed

lemma unat_slot: "unat (ucast (x :: 16 word) AND 0x3FFF :: 32 word) = unat x mod 16384"
proof -
  have "ucast x AND 0x3FFF = (take_bit 14 (ucast x) :: 32 word)"
    by (simp add: take_bit_eq_mask mask_eq_exp_minus_1)
  then have "unat (ucast x AND 0x3FFF :: 32 word) = take_bit 14 (unat x)"
    by (simp add: unsigned_take_bit_eq unsigned_ucast_eq)
  then show ?thesis by (simp add: take_bit_nat_def)
qed

lemma GetKeySlot_length:
  assumes "length key < 2 ^ 31"
  shows "GetKeySlot (Some key) = ucast (xmodem (hash_part key)) AND 0x3FFF"
proof -
  let ?s = "find_from (CHR ''{'') key 0"
  let ?e = "find_from (CHR ''}'') key (?s + 1)"
  have "nat (int32 (int (length key))) = length key" using assms by simp
  then have whole: "crc16 key (int (length key)) = xmodem key" by (simp add: crc16_xmodem)
  have part: "crc16 xs (int n) = xmodem (take n xs)" if n: "n < 2 ^ 31" for xs n
    using n by (simp add: crc16_xmodem)
  show ?thesis
  proof (cases "?s = length key \<or> ?e = length key \<or> ?e = ?s + 1")
    case True
    then show ?thesis by (auto simp: GetKeySlot_def hash_part_eq Let_def whole)
  next
    case False
    have "?s < length key"
      using False length_takeWhile_le [of "\<lambda>c. c \<noteq> CHR ''{''" key]
      by (simp add: find_from_takeWhile)
    then have "?e \<le> length key"
      using length_takeWhile_le [of "\<lambda>c. c \<noteq> CHR ''}''" "drop (?s + 1) key"]
      by (simp add: find_from_takeWhile)
    with assms have "?e - ?s - 1 < 2 ^ 31" by simp
    from part [OF this] False show ?thesis by (simp add: GetKeySlot_def hash_part_eq Let_def)
  qed
qed

lemma slot_bound: "unat (GetKeySlot key) < 16384"
  by (simp add: GetKeySlot_def Let_def unat_slot split: option.splits)


lemma hash_part_tag:
  assumes "CHR ''{'' \<notin> set a" and "CHR ''}'' \<notin> set tag" and "tag \<noteq> []"
  shows "hash_part (a @ CHR ''{'' # tag @ CHR ''}'' # b) = tag"
proof -
  have "dropWhile (\<lambda>c. c \<noteq> CHR ''{'') (a @ CHR ''{'' # tag @ CHR ''}'' # b) =
    CHR ''{'' # tag @ CHR ''}'' # b"
    using assms(1) by (subst dropWhile_append2) auto
  moreover have "takeWhile (\<lambda>c. c \<noteq> CHR ''}'') (tag @ CHR ''}'' # b) = tag"
    using assms(2) by (subst takeWhile_append2) auto
  ultimately show ?thesis using assms(3) by (simp add: hash_part_def)
qed

text \<open>C30: The slot of a key is the CRC-16/XMODEM checksum, modulo 16384, of its hash tag:
  the table and the step of the code compute the checksum that is defined bit by bit, the two
  searches find the tag the redis cluster specification names, and the mask keeps the slot
  below 16384.\<close>

theorem slot_of_hash_tag:
  assumes "length key < 2 ^ 31"
  shows "unat (GetKeySlot (Some key)) = unat (xmodem (hash_part key)) mod 16384"
  by (simp only: GetKeySlot_length [OF assms] unat_slot)

theorem slot_of_hash_tag_witness:
  "unat (GetKeySlot (Some ''{user}1'')) = 5474 \<and> hash_part ''{user}1'' = ''user'' \<and>
   xmodem ''123456789'' = 0x31C3"
proof -
  have "hash_part ''{user}1'' = ''user''" by (simp add: hash_part_def)
  moreover have "unat (xmodem ''user'') mod 16384 = 5474"
    by (simp add: xmodem_def crc16_step_byte [symmetric] crc16_step_def crc16tab_def of_char_def)
  moreover have "xmodem ''123456789'' = 0x31C3"
    by (simp add: xmodem_def crc16_step_byte [symmetric] crc16_step_def crc16tab_def of_char_def)
  ultimately show ?thesis using slot_of_hash_tag [of "''{user}1''"] by simp
qed

text \<open>Keys that share a hash tag share their slot, whatever surrounds the tag, so one node
  serves them all and a batch of such keys can be fetched with one command.\<close>

lemma same_tag_same_slot:
  assumes "CHR ''{'' \<notin> set a" and "CHR ''{'' \<notin> set a'" and "CHR ''}'' \<notin> set tag" and "tag \<noteq> []"
    and "length (a @ CHR ''{'' # tag @ CHR ''}'' # b) < 2 ^ 31"
    and "length (a' @ CHR ''{'' # tag @ CHR ''}'' # b') < 2 ^ 31"
  shows "GetKeySlot (Some (a @ CHR ''{'' # tag @ CHR ''}'' # b)) =
    GetKeySlot (Some (a' @ CHR ''{'' # tag @ CHR ''}'' # b'))"
  by (simp only: GetKeySlot_length [OF assms(5)] GetKeySlot_length [OF assms(6)]
    hash_part_tag [OF assms(1,3,4)] hash_part_tag [OF assms(2,3,4)])

lemma same_tag_same_slot_example:
  "GetKeySlot (Some (''a'' @ CHR ''{'' # ''u'' @ CHR ''}'' # ''x'')) =
   GetKeySlot (Some ([] @ CHR ''{'' # ''u'' @ CHR ''}'' # ''yz''))"
  by (rule same_tag_same_slot) simp_all

end
