(* ===== verification/CString.thy ===== *)
theory CString
  imports Prelude
begin

text \<open>
  The functions of the C and C++ standard libraries on strings that the program uses:
  \<open>atoi\<close>, \<open>std::to_string\<close>, \<open>strstr\<close>, \<open>std::string::find\<close> and \<open>substr\<close>. A string is the
  list of its characters; what takes a \<open>c_str()\<close> sees it up to its first null character.
  The string functions of boost are a parameter (the record \<open>boost\<close>).
\<close>

section \<open>Numbers\<close>

definition isspace :: "char \<Rightarrow> bool" where
  "isspace c \<longleftrightarrow> (let n = of_char c :: nat in n = 32 \<or> 9 \<le> n \<and> n \<le> 13)"

definition isdigit :: "char \<Rightarrow> bool" where
  "isdigit c \<longleftrightarrow> (let n = of_char c :: nat in 48 \<le> n \<and> n \<le> 57)"

definition digit_value :: "char \<Rightarrow> int" where
  "digit_value c = int (of_char c) - 48"

definition digits_value :: "string \<Rightarrow> int" where
  "digits_value = foldl (\<lambda>v c. 10 * v + digit_value c) 0"

definition atoi :: "string \<Rightarrow> int res" where
  "atoi s =
     (let s1 = dropWhile isspace s;
          (neg, s2) = (case s1 of
              [] \<Rightarrow> (False, [])
            | c # cs \<Rightarrow> if c = CHR ''-'' then (True, cs)
                       else if c = CHR ''+'' then (False, cs) else (False, s1));
          v = digits_value (takeWhile isdigit s2);
          r = (if neg then - v else v)
      in if - (2 ^ 31) \<le> r \<and> r < 2 ^ 31 then Inr r else Inl Unrepresentable)"

definition digit_char :: "nat \<Rightarrow> char" where
  "digit_char n = char_of (48 + n)"

fun to_string :: "nat \<Rightarrow> string" where
  "to_string n =
     (if n < 10 then [digit_char n] else to_string (n div 10) @ [digit_char (n mod 10)])"

declare to_string.simps [simp del]

lemma digit_char_value: "n < 10 \<Longrightarrow> digit_value (digit_char n) = int n"
  by (simp add: digit_value_def digit_char_def)

lemma digit_char_isdigit: "n < 10 \<Longrightarrow> isdigit (digit_char n)"
  by (simp add: isdigit_def digit_char_def)

lemma isdigit_not_special:
  assumes "isdigit c"
  shows "\<not> isspace c" "c \<noteq> CHR ''-''" "c \<noteq> CHR ''+''" "c \<noteq> CHR '':''"
  using assms by (auto simp: isdigit_def isspace_def Let_def)

lemma digits_value_append [simp]: "digits_value (s @ [c]) = 10 * digits_value s + digit_value c"
  by (simp add: digits_value_def)

lemma to_string_props:
  "to_string n \<noteq> [] \<and> (\<forall>c\<in>set (to_string n). isdigit c) \<and> digits_value (to_string n) = int n"
proof (induction n rule: to_string.induct)
  case (1 n)
  show ?case
  proof (cases "n < 10")
    case True
    then show ?thesis
      by (simp add: to_string.simps [of n] digit_char_isdigit digit_char_value
        digits_value_append [of "[]", simplified] digits_value_def)
  next
    case False
    then have "to_string n = to_string (n div 10) @ [digit_char (n mod 10)]"
      by (simp add: to_string.simps [of n])
    moreover have "10 * int (n div 10) + int (n mod 10) = int n" by presburger
    ultimately show ?thesis
      using "1.IH" [OF False] by (auto simp: digit_char_isdigit digit_char_value)
  qed
qed

text \<open>\<open>atoi\<close> reads back what \<open>to_string\<close> prints, also when something else follows.\<close>

lemma atoi_to_string:
  assumes "n < 2 ^ 31" and "rest = [] \<or> \<not> isdigit (hd rest)"
  shows "atoi (to_string n @ rest) = Inr (int n)"
proof -
  obtain c cs where c: "to_string n = c # cs" using to_string_props [of n] by (cases "to_string n") auto
  then have d: "isdigit c" using to_string_props [of n] by simp
  have "takeWhile isdigit (to_string n @ rest) = to_string n"
    using to_string_props [of n] assms(2) by (cases rest) (simp_all add: takeWhile_tail)
  moreover have "int n < 2 ^ 31" using assms(1) by simp
  ultimately show ?thesis
    using isdigit_not_special [OF d] c to_string_props [of n] by (simp add: atoi_def)
qed

section \<open>Searching\<close>

definition c_str :: "string \<Rightarrow> string" where
  "c_str = takeWhile (\<lambda>c. c \<noteq> CHR 0x00)"

fun strstr :: "string \<Rightarrow> string \<Rightarrow> bool" where
  "strstr [] needle = (needle = [])"
| "strstr (c # cs) needle = (take (length needle) (c # cs) = needle \<or> strstr cs needle)"

fun find :: "char \<Rightarrow> string \<Rightarrow> nat option" where
  "find x [] = None"
| "find x (c # cs) = (if c = x then Some 0 else map_option Suc (find x cs))"

lemma find_Some: "find x s = Some i \<Longrightarrow> i < length s \<and> s ! i = x \<and> x \<notin> set (take i s)"
proof (induction s arbitrary: i)
  case (Cons c cs)
  then show ?case by (cases i) (auto split: if_splits)
qed simp

lemma find_None [simp]: "find x s = None \<longleftrightarrow> x \<notin> set s"
  by (induction s) auto

lemma find_append_Cons: "x \<notin> set xs \<Longrightarrow> find x (xs @ x # ys) = Some (length xs)"
  by (induction xs) auto

section \<open>Strings of boost\<close>

record boost =
  trim :: "string \<Rightarrow> string"
  split :: "string \<Rightarrow> string \<Rightarrow> string list"
    \<comment> \<open>the fields between the given separators, adjacent ones merged
        (\<open>boost::is_any_of\<close>, \<open>token_compress_on\<close>)\<close>
  split_each :: "string \<Rightarrow> string \<Rightarrow> string list"
    \<comment> \<open>the same without merging, so that fields may be empty\<close>

end
