(* ===== verification/RedisClient.thy ===== *)
theory RedisClient
  imports ChannelPool CString
begin

text \<open>
  \<open>frame/client/redis/redis_client.h\<close> and \<open>redis_client.cpp\<close>: a client of a redis cluster.
  It asks the cluster for its nodes, parses the answer into a slot map and one connection pool
  per master, in one of two channel pools, and sends each command to the node that serves the
  slot of its key.

  Parameters are the libraries the file calls: \<open>trim\<close> and \<open>split\<close> of boost (a record in
  \<open>CString\<close>), what the RPC \<open>cluster nodes\<close> answers, and which attempts to open a channel succeed.
\<close>

section \<open>Nodes of the cluster\<close>

text \<open>
  The members of \<open>NodeInfo\<close> that the code sets. The other ones (\<open>flags\<close>, \<open>is_fail\<close>, \<open>is_master\<close>,
  \<open>is_slave\<close>, \<open>master_id\<close>, \<open>ping_sent\<close>, \<open>pong_recv\<close>, \<open>epoch\<close>, \<open>connected\<close>) are declared, and
  neither written nor read anywhere: the parser looks at the columns 0, 1, 2, 7 and from 8 on of
  a line, and passes over the configuration epoch in column 6.
\<close>

record node_info =
  strinfo :: string
  id_of_node :: string
  ip :: string
  port :: "16 word option" \<comment> \<open>\<open>None\<close>: not initialised\<close>
  mSlots :: "(32 word \<times> 32 word) list"

definition new_node_info :: node_info where
  "new_node_info = \<lparr>strinfo = [], id_of_node = [], ip = [], port = None, mSlots = []\<rparr>"

definition CheckSlot :: "32 word \<Rightarrow> node_info \<Rightarrow> bool" where
  "CheckSlot slot_index node =
     list_ex (\<lambda>(first, second). slot_index \<ge> first \<and> slot_index \<le> second) (mSlots node)"

definition ParseNodeString :: "string \<Rightarrow> node_info \<Rightarrow> (bool \<times> node_info) res" where
  "ParseNodeString nodeString node =
     (case find (CHR '':'') nodeString of
        None \<Rightarrow> Inr (False, node)
      | Some ColonPos \<Rightarrow>
          bind_res (atoi (c_str (drop (ColonPos + 1) nodeString))) (\<lambda>v.
            Inr (True, node\<lparr>port := Some (word_of_int v), ip := take ColonPos nodeString\<rparr>)))"

definition ParseSlotString :: "string \<Rightarrow> node_info \<Rightarrow> node_info res" where
  "ParseSlotString SlotString node =
     bind_res
       (case find (CHR ''-'') SlotString of
          None \<Rightarrow> bind_res (atoi (c_str SlotString)) (\<lambda>v. Inr (word_of_int v, word_of_int v))
        | Some BarPos \<Rightarrow>
            bind_res (atoi (c_str (drop (BarPos + 1) SlotString))) (\<lambda>e.
            bind_res (atoi (c_str (take BarPos SlotString))) (\<lambda>s.
            Inr (word_of_int s, word_of_int e))))
       (\<lambda>(StartSlot, EndSlot). Inr (node\<lparr>mSlots := mSlots node @ [(StartSlot, EndSlot)]\<rparr>))"

section \<open>The slot map\<close>

definition resize :: "nat \<Rightarrow> 'a \<Rightarrow> 'a list \<Rightarrow> 'a list" where
  \<comment> \<open>\<open>std::vector::resize(n, x)\<close>\<close>
  "resize n x xs = take n xs @ replicate (n - length xs) x"

text \<open>
  One assignment of the inner loop of \<open>InitSlotNodeMap\<close>. \<open>start + 1\<close> is computed in 32 bits:
  for the greatest number the vector is emptied before the write.
\<close>

definition set_slot :: "32 word \<Rightarrow> int \<Rightarrow> int list \<Rightarrow> int list res" where
  "set_slot start i v =
     (if unat start < length v then Inr (v[unat start := i])
      else let v1 = resize (unat (start + 1)) (-1) v
           in if unat start < length v1 then Inr (v1[unat start := i]) else Inl Bad_Ptr)"

text \<open>The loop \<open>for (start = start_slot; start <= end_slot; ++start)\<close>; \<open>None\<close> when it does not
  end.\<close>

partial_function (option) set_slots ::
    "32 word \<Rightarrow> 32 word \<Rightarrow> int \<Rightarrow> int list \<Rightarrow> int list res option" where
  "set_slots start end_slot i v =
     (if start \<le> end_slot
      then (case set_slot start i v of
              Inl e \<Rightarrow> Some (Inl e)
            | Inr v1 \<Rightarrow> set_slots (start + 1) end_slot i v1)
      else Some (Inr v))"

definition add_range :: "int \<Rightarrow> 32 word \<times> 32 word \<Rightarrow> int list \<Rightarrow> int list res" where
  "add_range i r v =
     (case set_slots (fst r) (snd r) i v of None \<Rightarrow> Inl No_Return | Some m \<Rightarrow> m)"

definition InitSlotNodeMap :: "int list \<Rightarrow> node_info list \<Rightarrow> int list res" where
  "InitSlotNodeMap v nodes =
     fold_res (\<lambda>(i, node). fold_res (add_range (int32 (int i))) (mSlots node))
       (enumerate 0 nodes) (resize 16384 (-1) v)"

section \<open>The client\<close>

record 'c redis_client =
  url :: string
  lb :: string
  time_out :: nat
  max_retry :: int
  cfg_pool_size :: int
  channel_pool_vec :: "'c channel_pool list"
  pool_index :: int

definition lines_differ :: "boost \<Rightarrow> string \<Rightarrow> string \<Rightarrow> bool" where
  "lines_differ b l0 l1 =
     (let fields_0 = split b '' '' l0; fields_1 = split b '' '' l1
      in if length fields_0 < 8 \<or> length fields_1 < 8 then True
         else if length fields_0 \<noteq> length fields_1 then True
         else if fields_0 ! 0 \<noteq> fields_1 ! 0 \<or> fields_0 ! 1 \<noteq> fields_1 ! 1 then True
         else list_ex (\<lambda>j. fields_0 ! j \<noteq> fields_1 ! j) [8..<length fields_1])"

definition is_channel_pool_changed :: "boost \<Rightarrow> 'c redis_client \<Rightarrow> bool" where
  "is_channel_pool_changed b cl =
     (let lines0 = valid_lines (channel_pool_vec cl ! 0);
          lines1 = valid_lines (channel_pool_vec cl ! 1)
      in if length lines0 \<noteq> length lines1 then True
         else list_ex (\<lambda>i. lines_differ b (lines0 ! i) (lines1 ! i)) [0..<length lines0])"

text \<open>
  What asking the cluster for its nodes can give: the channel cannot be initialised, the RPC
  fails, the reply is an error, or the text of the reply.
\<close>

datatype cluster_reply = Init_Failed | Rpc_Failed | Error_Reply | Nodes string

text \<open>One line of the reply: its node when it is a connected master.\<close>

definition parse_line :: "boost \<Rightarrow> string \<Rightarrow> node_info option res" where
  "parse_line b line =
     (let nodeinfo = split b '' '' line
      in if length nodeinfo < 8 then Inr None
         else if strstr (c_str (nodeinfo ! 7)) ''disconnected'' then Inr None
         else if \<not> strstr (c_str (nodeinfo ! 2)) ''master'' then Inr None
         else bind_res
           (ParseNodeString (nodeinfo ! 1)
             (new_node_info\<lparr>strinfo := line, id_of_node := nodeinfo ! 0\<rparr>)) (\<lambda>(_, node).
           bind_res (fold_res ParseSlotString (drop 8 nodeinfo) node) (\<lambda>node.
           Inr (Some node))))"

definition parse_lines :: "boost \<Rightarrow> string list \<Rightarrow> (string list \<times> node_info list) res" where
  "parse_lines b vlines =
     fold_res (\<lambda>line (valid, vNodes).
         bind_res (parse_line b line) (\<lambda>r.
           case r of None \<Rightarrow> Inr (valid, vNodes)
           | Some node \<Rightarrow> Inr (valid @ [line], vNodes @ [node])))
       vlines ([], [])"

definition InitChannel ::
  "(string \<Rightarrow> nat \<Rightarrow> 'c option) \<Rightarrow> nat \<Rightarrow> string \<Rightarrow> 32 word \<Rightarrow> 32 word \<Rightarrow>
   (string \<times> 'c connect_pool) option list \<Rightarrow> (bool \<times> (string \<times> 'c connect_pool) option list) res"
where
  "InitChannel connect idx host prt poolsize channels =
     (if host = [] then Inr (False, channels)
      else
        let ip_port = host @ '':'' @ to_string (unat prt)
        in bind_res (new_pool (connect ip_port) (sint poolsize) 100) (\<lambda>conn_pool.
           if idx < length channels then Inr (True, channels[idx := Some (ip_port, conn_pool)])
           else Inl Bad_Ptr))"

text \<open>The last loop of \<open>init_channel_pool\<close>: a node without an address is the local host.\<close>

definition init_node_channel ::
  "(string \<Rightarrow> nat \<Rightarrow> 'c option) \<Rightarrow> int \<Rightarrow> nat \<times> node_info \<Rightarrow>
   (string \<times> 'c connect_pool) option list \<Rightarrow> (string \<times> 'c connect_pool) option list res"
where
  "init_node_channel connect psize r channels =
     (let (i, node) = r
      in case port node of
           None \<Rightarrow> Inl Uninitialised
         | Some p \<Rightarrow>
             let host = (if ip node = [] \<and> p > 0 then ''127.0.0.1'' else ip node)
             in bind_res (InitChannel connect i host (ucast p) (word_of_int psize) channels)
                  (\<lambda>(_, channels). Inr channels))"

definition put_pool :: "nat \<Rightarrow> 'c channel_pool \<Rightarrow> 'c redis_client \<Rightarrow> 'c redis_client" where
  "put_pool k cp cl = cl\<lparr>channel_pool_vec := (channel_pool_vec cl)[k := cp]\<rparr>"

definition init_channel_pool ::
  "boost \<Rightarrow> (string \<Rightarrow> nat \<Rightarrow> 'c option) \<Rightarrow> cluster_reply \<Rightarrow> nat \<Rightarrow> 'c redis_client \<Rightarrow>
   'c redis_client res"
where
  "init_channel_pool b connect reply k cl =
     (case reply of
        Init_Failed \<Rightarrow> Inl (Thrown_Other ''Fail to init channel to redis-server'')
      | Rpc_Failed \<Rightarrow> Inr cl
      | Error_Reply \<Rightarrow> Inr cl
      | Nodes text \<Rightarrow>
          let s = trim b text; vlines = split b [CHR 0x0A] s
          in bind_res (parse_lines b vlines) (\<lambda>(valid, vNodes).
             let cp1 = (channel_pool_vec cl ! k)\<lparr>valid_lines := valid\<rparr>; cl1 = put_pool k cp1 cl
             in if \<not> is_channel_pool_changed b cl1 then Inr cl1
                else bind_res (InitSlotNodeMap (slot_ipport_index_vec cp1) vNodes) (\<lambda>slots.
                     bind_res (fold_res (init_node_channel connect (cfg_pool_size cl))
                         (enumerate 0 vNodes)
                         (resize (length vNodes) None (m_channel_list cp1))) (\<lambda>channels.
                     Inr (put_pool k (cp1\<lparr>slot_ipport_index_vec := slots,
                                           m_channel_list := channels\<rparr>) cl1)))))"

definition new_client ::
  "boost \<Rightarrow> (string \<Rightarrow> nat \<Rightarrow> 'c option) \<Rightarrow> cluster_reply \<Rightarrow>
   string \<Rightarrow> string \<Rightarrow> nat \<Rightarrow> int \<Rightarrow> int \<Rightarrow> int \<Rightarrow> 'c redis_client res"
where
  "new_client b connect reply addr balancer timeout psize max_psize retry =
     no_throw (init_channel_pool b connect reply 0
       \<lparr>url = addr, lb = balancer, time_out = timeout, max_retry = retry, cfg_pool_size = psize,
        channel_pool_vec = [new_channel_pool, new_channel_pool], pool_index = 0\<rparr>)"

text \<open>
  One round of the loop of \<open>update_channel_pool\<close>: whether the thread goes on, and the client.
  No branch throws a \<open>std::exception\<close>, so the inner handler only stands here for the reader.
\<close>

definition update_channel_pool ::
  "boost \<Rightarrow> (string \<Rightarrow> nat \<Rightarrow> 'c option) \<Rightarrow> cluster_reply \<Rightarrow> 'c redis_client \<Rightarrow>
   (bool \<times> 'c redis_client) res"
where
  "update_channel_pool b connect reply cl =
     (let bak_pool_index = 1 - pool_index cl
      in case init_channel_pool b connect reply (nat bak_pool_index) cl of
           Inl (Thrown _) \<Rightarrow> Inr (False, cl)
         | Inl e \<Rightarrow> no_throw (Inl e)
         | Inr cl1 \<Rightarrow>
             if is_channel_pool_changed b cl1
             then Inr (True, cl1\<lparr>pool_index := bak_pool_index\<rparr>)
             else Inr (True, cl1))"

definition get_cur_channel_pool :: "'c redis_client \<Rightarrow> 'c channel_pool" where
  "get_cur_channel_pool cl = channel_pool_vec cl ! nat (pool_index cl)"

section \<open>Commands\<close>

text \<open>What \<open>CallMethod\<close> is called with: the channel, the components of the command, and the
  settings of the controller that differ from its defaults.\<close>

record 'c redis_call =
  call_channel :: 'c
  components :: "string list"
  call_timeout :: "int option"
  call_retry :: "int option"

definition send_on ::
  "(string \<Rightarrow> nat \<Rightarrow> 'c option) \<Rightarrow> string \<Rightarrow> string list \<Rightarrow> int \<Rightarrow> int \<Rightarrow> 'c redis_client \<Rightarrow>
   (int \<times> 'c redis_call option \<times> 'c redis_client) res"
where
  "send_on connect key parts timeout_ms retry cl =
     (let k = nat (pool_index cl); cp = channel_pool_vec cl ! k;
          index = GetKeyNodeIndex (Some key) cp
      in bind_res (GetConnection connect index cp) (\<lambda>(channel, cp1).
         case channel of
           None \<Rightarrow> Inr (-1, None, put_pool k cp1 cl)
         | Some c \<Rightarrow>
             bind_res (FreeConnection channel index cp1) (\<lambda>cp2.
               Inr (0, Some \<lparr>call_channel = c, components = parts,
                   call_timeout = (if timeout_ms > 0 then Some timeout_ms else None),
                   call_retry = (if retry > 0 then Some retry else None)\<rparr>,
                 put_pool k cp2 cl))))"

definition fetch ::
  "(string \<Rightarrow> nat \<Rightarrow> 'c option) \<Rightarrow> string \<Rightarrow> int \<Rightarrow> int \<Rightarrow> 'c redis_client \<Rightarrow>
   (int \<times> 'c redis_call option \<times> 'c redis_client) res"
where
  "fetch connect key timeout_ms retry cl =
     send_on connect key [''GET'', key] timeout_ms retry cl"

text \<open>
  The components of a batch: \<open>parts\<close> is a vector of string pieces, of which a piece set in the
  loop points into the local copy \<open>k\<close> of the key, which is gone when the command is built from
  the pieces (\<open>Gone\<close>).
\<close>

datatype piece = Empty_Piece | Live string | Gone

fun set_parts :: "int \<Rightarrow> int list \<Rightarrow> piece list \<Rightarrow> piece list res" where
  "set_parts start_index [] parts = Inr parts"
| "set_parts start_index (i # js) parts =
     (let j = size_of_int (i + 1 - start_index)
      in if j < length parts then set_parts start_index js (parts[j := Gone]) else Inl Bad_Ptr)"

fun read_piece :: "piece \<Rightarrow> string res" where
  "read_piece Empty_Piece = Inr []"
| "read_piece (Live s) = Inr s"
| "read_piece Gone = Inl Bad_Ptr"

fun read_pieces :: "piece list \<Rightarrow> string list res" where
  "read_pieces [] = Inr []"
| "read_pieces (p # ps) =
     bind_res (read_piece p) (\<lambda>s. bind_res (read_pieces ps) (\<lambda>ss. Inr (s # ss)))"

text \<open>The size \<open>parts\<close> is given is computed in \<open>size_t\<close>; a vector of more than
  \<open>2\<^sup>5\<^sup>9 - 1\<close> pieces is refused with an exception. An index that is negative is a huge
  \<open>size_t\<close> in the comparison with \<open>data.size()\<close>, so the loop does not run then.\<close>

definition parts_size :: "nat \<Rightarrow> int \<Rightarrow> int \<Rightarrow> nat" where
  "parts_size data_size start_index end_index =
     size_of_int (int (min (size_of_int end_index) data_size) - start_index + 1)"

definition multi_fetch ::
  "(string \<Rightarrow> nat \<Rightarrow> 'c option) \<Rightarrow> string list \<Rightarrow> int \<Rightarrow> int \<Rightarrow> int \<Rightarrow> int \<Rightarrow> 'c redis_client \<Rightarrow>
   (int \<times> 'c redis_call option \<times> 'c redis_client) res"
where
  "multi_fetch connect data start_index end_index timeout_ms retry cl =
     (let n = parts_size (length data) start_index end_index;
          idxs = (if start_index < 0 then []
                  else map int [nat start_index..<nat (min end_index (int (length data)))])
      in if n > 2 ^ 59 - 1 then Inl (Thrown ''length_error'')
         else if n = 0 then Inl Bad_Ptr
         else
           bind_res (set_parts start_index idxs
               (Live ''MGET'' # replicate (n - 1) Empty_Piece)) (\<lambda>parts.
           bind_res (read_pieces parts) (\<lambda>comps.
           if 0 \<le> start_index \<and> start_index < int (length data)
           then send_on connect (data ! nat start_index) comps timeout_ms retry cl
           else Inl Bad_Ptr)))"

definition response_handler :: "bool \<Rightarrow> 'm option \<Rightarrow> ('m option \<Rightarrow> 'r) \<Rightarrow> 'r" where
  \<comment> \<open>\<open>cntl_failed\<close>: \<open>cntl->Failed()\<close>; the callback gets a null message then\<close>
  "response_handler cntl_failed msg call_back = call_back (if cntl_failed then None else msg)"

end
