(* ===== verification/Managers.thy ===== *)
theory Managers
  imports RedisClient
begin

text \<open>
  The registries of the process: the factories of node classes (\<open>frame/register.h\<close>), the RPC
  channels (\<open>frame/gtransport_manager.cpp\<close>), the redis clients
  (\<open>frame/client/redis/redis_client_manager.cpp\<close>) and the configurations of the nodes
  (\<open>frame/node_manager.cpp\<close>). Each is an unordered map that is filled from a file.

  The configuration library hocon is a parameter: a record of its accessors, each of which may
  throw. An object and the configuration made from it are not told apart.
\<close>

section \<open>Configurations\<close>

record 'cfg hocon =
  parse_file_any_syntax :: "string \<Rightarrow> 'cfg res"
  key_set :: "'cfg \<Rightarrow> string list"
  get_object :: "'cfg \<Rightarrow> string \<Rightarrow> 'cfg res"
  get_string :: "'cfg \<Rightarrow> string \<Rightarrow> string res"
  get_int :: "'cfg \<Rightarrow> string \<Rightarrow> int res"
  get_bool :: "'cfg \<Rightarrow> string \<Rightarrow> bool res"
  get_object_list :: "'cfg \<Rightarrow> string \<Rightarrow> 'cfg list res"

text \<open>The idiom \<open>if (std::find(keys, k) != end) x = get(k)\<close> with a default.\<close>

definition get_or :: "'cfg hocon \<Rightarrow> ('cfg \<Rightarrow> string \<Rightarrow> 'a res) \<Rightarrow> 'cfg \<Rightarrow> string \<Rightarrow> 'a \<Rightarrow> 'a res" where
  "get_or hc getter conf key x = (if key \<in> set (key_set hc conf) then getter conf key else Inr x)"

section \<open>Classes of nodes\<close>

text \<open>
  \<open>global_service_map\<close>: a factory is named by its class; \<open>None\<close> as an entry is the null
  pointer that \<open>operator[]\<close> puts under a name it does not find.
\<close>

type_synonym service_map = "string \<rightharpoonup> string option"

definition service_register :: "string \<Rightarrow> service_map \<Rightarrow> service_map" where
  "service_register cls = umap_insert cls (Some cls)"

definition GET_SERVICE_FACTORY :: "bool \<Rightarrow> string \<Rightarrow> service_map \<Rightarrow> (string option \<times> service_map) res" where
  "GET_SERVICE_FACTORY fatal cls m =
     (case m cls of
        Some f \<Rightarrow> Inr (f, m)
      | None \<Rightarrow> log_fatal fatal (None, m(cls \<mapsto> None)))"

section \<open>Channels\<close>

record channel_options =
  protocol :: string
  connection_type :: string
  timeout_ms :: int
  opt_max_retry :: int
  backup_request_ms :: int

text \<open>\<open>chan_init ns lb options\<close> is the channel \<open>Channel::Init\<close> makes, \<open>None\<close> when it fails.\<close>

definition add_transport ::
  "'cfg hocon \<Rightarrow> (string \<Rightarrow> string \<Rightarrow> channel_options \<Rightarrow> 'ch option) \<Rightarrow> 'cfg \<Rightarrow> string \<Rightarrow>
   (string \<rightharpoonup> 'ch) \<Rightarrow> (bool \<times> (string \<rightharpoonup> 'ch)) res"
where
  "add_transport hc chan_init root downstream_name m =
     bind_res (get_object hc root downstream_name) (\<lambda>ds.
     bind_res (get_string hc ds ''ns'') (\<lambda>ns.
     bind_res (get_string hc ds ''load_balancer'') (\<lambda>balancer.
     bind_res (get_int hc ds ''timeout_ms'') (\<lambda>timeout.
     bind_res (get_int hc ds ''backup_timeout_ms'') (\<lambda>backup.
     bind_res (get_string hc ds ''connection_type'') (\<lambda>conn_type.
     bind_res (get_int hc ds ''max_retry'') (\<lambda>retry.
     bind_res (get_string hc ds ''protocal'') (\<lambda>proto.
       case chan_init (c_str ns) (c_str balancer) \<lparr>protocol = proto, connection_type = conn_type,
              timeout_ms = timeout, opt_max_retry = retry, backup_request_ms = backup\<rparr> of
         None \<Rightarrow> Inr (False, m)
       | Some channel \<Rightarrow>
           Inr (True, if m downstream_name = None then m(downstream_name \<mapsto> channel) else m)))))))))"

definition transport_init ::
  "'cfg hocon \<Rightarrow> (string \<Rightarrow> string \<Rightarrow> channel_options \<Rightarrow> 'ch option) \<Rightarrow> string \<Rightarrow>
   (string \<rightharpoonup> 'ch) \<Rightarrow> (bool \<times> (string \<rightharpoonup> 'ch)) res"
where
  "transport_init hc chan_init conf_path m =
     no_throw (bind_res (parse_file_any_syntax hc conf_path) (\<lambda>root.
       loop_res (add_transport hc chan_init root) (key_set hc root) m))"

definition get_transport :: "string \<Rightarrow> (string \<rightharpoonup> 'ch) \<Rightarrow> 'ch option" where
  "get_transport transport_name m = m transport_name"

section \<open>Redis clients\<close>

definition add_client ::
  "'cfg hocon \<Rightarrow> boost \<Rightarrow> (string \<Rightarrow> nat \<Rightarrow> 'c option) \<Rightarrow> (string \<Rightarrow> cluster_reply) \<Rightarrow> 'cfg \<Rightarrow> string \<Rightarrow>
   (string \<rightharpoonup> 'c redis_client) \<Rightarrow> (string \<rightharpoonup> 'c redis_client) res"
where
  "add_client hc b connect cluster root client_name m =
     bind_res (get_object hc root client_name) (\<lambda>redis_conf.
     bind_res (get_string hc redis_conf ''address'') (\<lambda>address.
     bind_res (get_int hc redis_conf ''pool_size'') (\<lambda>psize.
     bind_res (get_int hc redis_conf ''max_pool_size'') (\<lambda>max_psize.
     bind_res (get_int hc redis_conf ''timeout_ms'') (\<lambda>timeout.
     bind_res (new_client b connect (cluster address) address [] (size_of_int timeout)
         psize max_psize 0) (\<lambda>client.
     Inr (umap_insert client_name client m)))))))"

definition clients_init ::
  "'cfg hocon \<Rightarrow> boost \<Rightarrow> (string \<Rightarrow> nat \<Rightarrow> 'c option) \<Rightarrow> (string \<Rightarrow> cluster_reply) \<Rightarrow> string \<Rightarrow>
   (string \<rightharpoonup> 'c redis_client) \<Rightarrow> (bool \<times> (string \<rightharpoonup> 'c redis_client)) res"
where
  "clients_init hc b connect cluster path m =
     bind_res (parse_file_any_syntax hc path) (\<lambda>root.
     bind_res (fold_res (add_client hc b connect cluster root) (key_set hc root) m) (\<lambda>m1.
     Inr (True, m1)))"

definition get_client :: "string \<Rightarrow> (string \<rightharpoonup> 'c redis_client) \<Rightarrow> 'c redis_client option" where
  "get_client client_id m = m client_id"

section \<open>Node configurations\<close>

text \<open>\<open>known\<close>: whether the name is one of a channel or of a redis client.\<close>

definition add_node_conf ::
  "'cfg hocon \<Rightarrow> (string \<Rightarrow> bool) \<Rightarrow> 'cfg \<Rightarrow> string \<Rightarrow>
   (string \<rightharpoonup> 'cfg) \<Rightarrow> (bool \<times> (string \<rightharpoonup> 'cfg)) res"
where
  "add_node_conf hc known root node_name m =
     bind_res (get_object hc root node_name) (\<lambda>node_conf.
     bind_res (get_string hc node_conf ''class'') (\<lambda>clazz.
     bind_res (get_or hc (get_string hc) node_conf ''downstream'' []) (\<lambda>downstream.
       let m1 = (if m node_name \<noteq> None then m else m(node_name \<mapsto> node_conf))
       in if downstream \<noteq> [] \<and> \<not> known downstream then Inr (False, m1) else Inr (True, m1))))"

definition nodes_init ::
  "'cfg hocon \<Rightarrow> (string \<rightharpoonup> 'ch) \<Rightarrow> (string \<rightharpoonup> 'c redis_client) \<Rightarrow> string \<Rightarrow>
   (string \<rightharpoonup> 'cfg) \<Rightarrow> (bool \<times> (string \<rightharpoonup> 'cfg)) res"
where
  "nodes_init hc transports clients file_path m =
     bind_res (parse_file_any_syntax hc file_path) (\<lambda>root.
       loop_res (add_node_conf hc
           (\<lambda>n. get_transport n transports \<noteq> None \<or> get_client n clients \<noteq> None) root)
         (key_set hc root) m)"

definition get_node_info :: "string \<Rightarrow> (string \<rightharpoonup> 'cfg) \<Rightarrow> 'cfg option" where
  "get_node_info node_name m = m node_name"

end
