(* ===== verification/CacheManager.thy ===== *)
theory CacheManager
  imports CString "HOL-Library.AList"
begin

text \<open>
  The cache shared by the processes of a host: \<open>frame/objectcache.h\<close> wraps the C library
  shmcache, \<open>frame/cache_manager.cpp\<close> guards it, \<open>frame/single_object.h\<close> makes the one object.
  The library is a parameter: what its three functions return, and its context, whose type is
  left open. A \<open>const char*\<close> with a length is a string of bytes; that shared memory may be
  reused while a reader still holds a pointer into it is left out.
\<close>

section \<open>The library\<close>

record 'm shmcache =
  shmcache_init_from_file :: "string \<Rightarrow> int \<times> 'm"
  shmcache_set_ex :: "'m \<Rightarrow> string \<Rightarrow> string \<Rightarrow> int \<Rightarrow> int \<times> 'm"
    \<comment> \<open>key, value and the time it expires\<close>
  shmcache_get :: "int \<Rightarrow> 'm \<Rightarrow> string \<Rightarrow> int \<times> string"
    \<comment> \<open>the time, and the key; the value counts when the code is 0\<close>

section \<open>The object cache\<close>

text \<open>
  \<open>ObjectCache\<close> has no initialiser: \<open>ctx_\<close> and \<open>init_status_\<close> are indeterminate (\<open>None\<close>) until
  \<open>InitCache\<close> was called.
\<close>

record 'm object_cache =
  ctx :: "'m option"
  init_status :: "int option"

definition GetInstance :: "'m object_cache option \<Rightarrow> 'm object_cache" where
  "GetInstance inst = (case inst of None \<Rightarrow> \<lparr>ctx = None, init_status = None\<rparr> | Some oc \<Rightarrow> oc)"

definition InitCache :: "'m shmcache \<Rightarrow> string \<Rightarrow> 'm object_cache \<Rightarrow> int \<times> 'm object_cache" where
  "InitCache shm ini_cfg oc =
     (let (status, c) = shmcache_init_from_file shm (c_str ini_cfg)
      in (status, oc\<lparr>ctx := Some c, init_status := Some status\<rparr>))"

definition bytes :: "string option \<Rightarrow> nat \<Rightarrow> string res" where
  \<comment> \<open>the first \<open>n\<close> bytes behind a pointer\<close>
  "bytes v n =
     (case v of None \<Rightarrow> Inl Null_Deref | Some s \<Rightarrow> if n \<le> length s then Inr (take n s) else Inl Bad_Ptr)"

definition oc_set ::
  "'m shmcache \<Rightarrow> int \<Rightarrow> string \<Rightarrow> string option \<Rightarrow> nat \<Rightarrow> int \<Rightarrow> 'm object_cache \<Rightarrow> (int \<times> 'm object_cache) res"
where
  "oc_set shm now key v value_len ttl oc =
     (case init_status oc of
        None \<Rightarrow> Inl Uninitialised
      | Some status \<Rightarrow>
          if status \<noteq> 0 then Inr (status, oc)
          else (case ctx oc of
              None \<Rightarrow> Inl Uninitialised
            | Some c \<Rightarrow> bind_res (bytes v value_len) (\<lambda>data.
                let (ret, c') = shmcache_set_ex shm c key data (now + ttl)
                in Inr (ret, oc\<lparr>ctx := Some c'\<rparr>))))"

definition oc_get ::
  "'m shmcache \<Rightarrow> int \<Rightarrow> string \<Rightarrow> 'm object_cache \<Rightarrow> (int \<times> string option) res"
where
  "oc_get shm now key oc =
     (case init_status oc of
        None \<Rightarrow> Inl Uninitialised
      | Some status \<Rightarrow>
          if status \<noteq> 0 then Inr (status, None)
          else (case ctx oc of
              None \<Rightarrow> Inl Uninitialised
            | Some c \<Rightarrow> let (ret, v) = shmcache_get shm now c key
                in if ret \<noteq> 0 then Inr (ret, None) else Inr (0, Some v)))"

section \<open>The cache manager\<close>

text \<open>Its state is the instance of the object cache, which is made on first use.\<close>

type_synonym 'm cache_manager = "'m object_cache option"

definition cache_init :: "'m shmcache \<Rightarrow> string \<Rightarrow> 'm cache_manager \<Rightarrow> int \<times> 'm cache_manager" where
  "cache_init shm file_path inst =
     (let (ret, oc) = InitCache shm file_path (GetInstance inst)
      in if ret \<noteq> 0 then (ret, Some oc) else (0, Some oc))"

definition Get :: "'m shmcache \<Rightarrow> int \<Rightarrow> string \<Rightarrow> 'm cache_manager \<Rightarrow>
    (int \<times> string option \<times> 'm cache_manager) res" where
  "Get shm now key inst =
     (if key = [] then Inr (-1, None, inst)
      else let object_cache = GetInstance inst
           in bind_res (oc_get shm now key object_cache) (\<lambda>(ret, v).
                if ret = 0 then Inr (0, v, Some object_cache) else Inr (-1, None, Some object_cache)))"

definition Set :: "'m shmcache \<Rightarrow> int \<Rightarrow> string \<Rightarrow> string option \<Rightarrow> nat \<Rightarrow> int \<Rightarrow> 'm cache_manager \<Rightarrow>
    (int \<times> 'm cache_manager) res" where
  "Set shm now key v value_len expired_time inst =
     (if key = [] \<or> v = None \<or> value_len = 0 \<or> expired_time \<le> 0 then Inr (-1, inst)
      else bind_res (oc_set shm now key v value_len expired_time (GetInstance inst))
             (\<lambda>(ret, oc). Inr (ret, Some oc)))"

section \<open>What the library documents\<close>

text \<open>
  A value that was stored is found until it expires. What is found after a call of
  \<open>shmcache_set_ex\<close> is the stored value or what was found before it: entries may be evicted, and a
  call that fails stores nothing.
\<close>

definition shm_stores :: "'m shmcache \<Rightarrow> bool" where
  "shm_stores shm \<longleftrightarrow>
     (\<forall>c k v ex c' now. shmcache_set_ex shm c k v ex = (0, c') \<and> now \<le> ex \<longrightarrow>
        shmcache_get shm now c' k = (0, v)) \<and>
     (\<forall>c k v ex r c' now k' v'. shmcache_set_ex shm c k v ex = (r, c') \<and>
        shmcache_get shm now c' k' = (0, v') \<longrightarrow>
        k' = k \<and> v' = v \<or> shmcache_get shm now c k' = (0, v'))"

lemma shm_storesD:
  "shm_stores shm \<Longrightarrow> shmcache_set_ex shm c k v ex = (0, c') \<Longrightarrow> now \<le> ex \<Longrightarrow>
   shmcache_get shm now c' k = (0, v)"
  "shm_stores shm \<Longrightarrow> shmcache_set_ex shm c k v ex = (r, c') \<Longrightarrow> shmcache_get shm now c' k' = (0, v') \<Longrightarrow>
   k' = k \<and> v' = v \<or> shmcache_get shm now c k' = (0, v')"
  unfolding shm_stores_def by blast+

definition ready :: "'m cache_manager \<Rightarrow> 'm \<Rightarrow> bool" where
  \<comment> \<open>the cache was initialised\<close>
  "ready inst c \<longleftrightarrow> inst = Some \<lparr>ctx = Some c, init_status = Some 0\<rparr>"

lemma cache_init_ready:
  assumes "cache_init shm path inst = (0, inst')"
  shows "\<exists>c. ready inst' c"
  using assms
  by (cases "GetInstance inst") (auto simp: cache_init_def InitCache_def ready_def Let_def split: prod.splits if_splits)

lemma Get_ready:
  "ready inst c \<Longrightarrow> key \<noteq> [] \<Longrightarrow> Get shm now key inst =
     (case shmcache_get shm now c key of
        (ret, v) \<Rightarrow> Inr (if ret = 0 then (0, Some v, inst) else (-1, None, inst)))"
  by (auto simp: Get_def ready_def oc_get_def GetInstance_def Let_def split: prod.splits)

lemma Set_ready:
  "ready inst c \<Longrightarrow> key \<noteq> [] \<Longrightarrow> v \<noteq> [] \<Longrightarrow> 0 < ttl \<Longrightarrow>
   Set shm now key (Some v) (length v) ttl inst =
     (case shmcache_set_ex shm c key v (now + ttl) of
        (ret, c') \<Rightarrow> Inr (ret, Some \<lparr>ctx = Some c', init_status = Some 0\<rparr>))"
  by (auto simp: Set_def ready_def oc_set_def GetInstance_def bytes_def Let_def split: prod.splits)

lemma Set_refused:
  "key = [] \<or> v = None \<or> n = 0 \<or> ttl \<le> 0 \<Longrightarrow> Set shm now key v n ttl inst = Inr (-1, inst)"
  by (simp add: Set_def)

text \<open>A library for examples: a table of values with the time they expire.\<close>

definition table_shm :: "(string \<times> string \<times> int) list shmcache" where
  "table_shm =
     \<lparr>shmcache_init_from_file = (\<lambda>f. (0, [])),
      shmcache_set_ex = (\<lambda>t k v ex. (0, AList.update k (v, ex) t)),
      shmcache_get = (\<lambda>now t k. case map_of t k of
         None \<Rightarrow> (2, []) | Some (v, ex) \<Rightarrow> if now \<le> ex then (0, v) else (110, []))\<rparr>"

lemma table_shm_stores: "shm_stores table_shm"
  by (auto simp: shm_stores_def table_shm_def update_conv' split: option.splits if_splits)

end
