(* ===== verification/RedisService.thy ===== *)
theory RedisService
  imports Managers CacheManager
begin

text \<open>
  \<open>service/base/redis_service.cpp\<close> and \<open>.h\<close>, what a request does apart from the interleaving of
  its callbacks (which is in \<open>RedisJoin\<close>): the configuration, the keys of a request, cache look-ups, the
  grouping by slot, the batches, what a callback makes of a reply, the parsing, and the merge into
  the cache.

  The \<open>FetchInfo\<close> objects are shared by the node, the requests and the cached data, and are
  changed through \<open>const_cast\<close>: they live in a list, and a pointer to one is its index. User code
  (key generators and parse functions), the RPC library's replies, snappy and the iteration order
  of unordered maps are parameters. Indices are counted in \<open>nat\<close>: requests for \<open>2\<^sup>3\<^sup>0\<close> keys or more,
  where the \<open>int\<close> of the loops would overflow, are out of scope.
\<close>

section \<open>Data\<close>

record fetch_info =
  prefix :: string
  postfix :: string
  compress :: string
  key_gen_func :: string
  redis_client_id :: string
  fi_key :: string
  response_func :: string
  use_cache :: bool
  expire_time :: nat
  keys :: "string list"
  fi_id :: string

definition new_fetch_info :: fetch_info where
  "new_fetch_info =
     \<lparr>prefix = [], postfix = [], compress = [], key_gen_func = [], redis_client_id = [], fi_key = [],
      response_func = [], use_cache = False, expire_time = 0, keys = [], fi_id = []\<rparr>"

type_synonym info_ptr = nat

text \<open>Replies of the RPC library, and what the code asks of its controller.\<close>

datatype reply = Nil_Reply | String_Reply string | Array_Reply "reply list" | Other_Reply string

record cntl =
  failed :: bool
  error_text :: string

record redis_result_item =
  item_info :: "info_ptr option" \<comment> \<open>\<open>fetch_info_ptr\<close>\<close>
  result_str_vec :: "string option list"
  result_str_len_vec :: "nat list"
  total_result_str_size :: nat
  start_index :: nat
  m_get_size :: nat
  code :: int
  error_msg :: string
  result_guard :: "reply list option"

definition new_item :: redis_result_item where
  "new_item = \<lparr>item_info = None, result_str_vec = [], result_str_len_vec = [],
     total_result_str_size = 0, start_index = 0, m_get_size = 0, code = 2, error_msg = [],
     result_guard = None\<rparr>"

abbreviation (input) "SUCCESS \<equiv> (0::int)"
abbreviation (input) "RPC_FAILED \<equiv> (1::int)"
abbreviation (input) "OTHER_ERROR \<equiv> (2::int)"

record cache_data_item =
  data_map :: "(string \<times> string) list"
  cache_info :: info_ptr

text \<open>A call of a parse function: key, data and length, the index of the batch and the number of
  batches, and whether the data come from the cache.\<close>

record parse_call =
  pc_key :: string
  pc_data :: "string option"
  pc_len :: nat
  pc_index :: nat
  pc_size :: nat
  pc_info :: info_ptr
  pc_cached :: bool

record ('m, 'c) service_env =
  clients :: "string \<rightharpoonup> 'c redis_client"
  key_func_map :: "string \<rightharpoonup> (string list \<Rightarrow> string \<Rightarrow> string \<Rightarrow> string list res)"
  parse_func_map :: "string \<rightharpoonup> (parse_call \<Rightarrow> int res)"
  shm :: "'m shmcache"
  own_context :: "string option res"
  uncompress :: "string option \<Rightarrow> nat \<Rightarrow> bool \<times> string"
  slot_order :: "(nat \<times> string list) list \<Rightarrow> (nat \<times> string list) list"
  data_order :: "(string \<times> string) list \<Rightarrow> (string \<times> string) list"
  result_order :: "(string \<times> redis_result_item list) list \<Rightarrow> (string \<times> redis_result_item list) list"
  enable_paral_parse :: bool
  enable_multi_get :: bool
  batch_size :: int
  fatal_aborts :: bool

section \<open>Configuration\<close>

definition add_fetch_info :: "'cfg hocon \<Rightarrow> 'cfg \<Rightarrow> fetch_info list \<Rightarrow> fetch_info list res" where
  "add_fetch_info hc conf fis =
     bind_res (get_string hc conf ''prefix'') (\<lambda>pre.
     bind_res (get_string hc conf ''postfix'') (\<lambda>post.
     bind_res (get_string hc conf ''redis_client_id'') (\<lambda>client.
     bind_res (get_string hc conf ''key_gen_func'') (\<lambda>kgen.
     bind_res (get_string hc conf ''response_func'') (\<lambda>resp.
     bind_res (get_string hc conf ''compress'') (\<lambda>comp.
     bind_res (get_or hc (get_bool hc) conf ''use_cache'' False) (\<lambda>cached.
     bind_res (get_or hc (get_int hc) conf ''expire_time_s'' 0) (\<lambda>expire.
       Inr (fis @ [new_fetch_info
         \<lparr>prefix := pre, postfix := post, redis_client_id := client, key_gen_func := kgen,
          response_func := resp, compress := comp, use_cache := cached,
          expire_time := size_of_int expire\<rparr>])))))))))"

definition redis_init :: "'cfg hocon \<Rightarrow> ('cfg \<Rightarrow> unit res) \<Rightarrow> 'cfg \<Rightarrow> fetch_info list \<Rightarrow> fetch_info list res" where
  \<comment> \<open>\<open>init_redis_conf\<close> is virtual\<close>
  "redis_init hc init_redis_conf conf fis =
     bind_res (get_object_list hc conf ''fetch_infos'') (\<lambda>objs.
     bind_res (fold_res (add_fetch_info hc) objs fis) (\<lambda>fis1.
     bind_res (init_redis_conf conf) (\<lambda>_. Inr fis1)))"

definition register_key_func ::
  "string \<Rightarrow> (string list \<Rightarrow> string \<Rightarrow> string \<Rightarrow> string list res) \<Rightarrow> ('m, 'c) service_env \<Rightarrow> ('m, 'c) service_env"
where
  "register_key_func nm f env = env\<lparr>key_func_map := umap_insert nm f (key_func_map env)\<rparr>"

definition register_parse_func ::
  "string \<Rightarrow> (parse_call \<Rightarrow> int res) \<Rightarrow> ('m, 'c) service_env \<Rightarrow> ('m, 'c) service_env"
where
  "register_parse_func nm f env = env\<lparr>parse_func_map := umap_insert nm f (parse_func_map env)\<rparr>"

definition get_parse_func :: "('m, 'c) service_env \<Rightarrow> string \<Rightarrow> parse_call \<Rightarrow> int res" where
  "get_parse_func env nm =
     (case parse_func_map env nm of Some f \<Rightarrow> f | None \<Rightarrow> (\<lambda>_. Inr 1))"

section \<open>The keys of a request\<close>

text \<open>
  \<open>get_from_cache\<close>: the keys that are not cached, in order. A cached single blank stands for a
  key redis does not have, and is read as the empty string.
\<close>

definition look_up ::
  "('m, 'c) service_env \<Rightarrow> int \<Rightarrow> string \<Rightarrow>
   (string \<times> string) list \<times> string list \<times> 'm cache_manager \<Rightarrow>
   ((string \<times> string) list \<times> string list \<times> 'm cache_manager) res"
where
  "look_up env now key st =
     (let (found, miss_keys, inst) = st
      in bind_res (Get (shm env) now key inst) (\<lambda>(ret, v, inst1).
           case v of
             Some value \<Rightarrow>
               if ret = 0
               then Inr (AList.update key (if value = '' '' then [] else value) found, miss_keys, inst1)
               else Inr (found, miss_keys @ [key], inst1)
           | None \<Rightarrow> Inr (found, miss_keys @ [key], inst1)))"

definition get_from_cache ::
  "('m, 'c) service_env \<Rightarrow> int \<Rightarrow> string list \<Rightarrow> info_ptr \<Rightarrow> cache_data_item list \<Rightarrow> 'm cache_manager \<Rightarrow>
   (string list \<times> cache_data_item list \<times> 'm cache_manager) res"
where
  "get_from_cache env now ks p cache_data_vec inst =
     bind_res (fold_res (look_up env now) ks ([], [], inst)) (\<lambda>(found, miss_keys, inst1).
       Inr (miss_keys,
            if found \<noteq> [] then cache_data_vec @ [\<lparr>data_map = found, cache_info = p\<rparr>] else cache_data_vec,
            inst1))"

text \<open>\<open>slot_keys_map[slot].push_back(key)\<close> on the entries of the map.\<close>

fun push_key :: "nat \<Rightarrow> string \<Rightarrow> (nat \<times> string list) list \<Rightarrow> (nat \<times> string list) list" where
  "push_key slot key [] = [(slot, [key])]"
| "push_key slot key ((s, ks) # m) =
     (if s = slot then (s, ks @ [key]) # m else (s, ks) # push_key slot key m)"

definition key_slot :: "string \<Rightarrow> nat" where
  "key_slot key = unat (GetKeySlot (Some key))"

definition slot_keys_map :: "string list \<Rightarrow> (nat \<times> string list) list" where
  "slot_keys_map ks = fold (\<lambda>key. push_key (key_slot key) key) ks []"

text \<open>
  One \<open>FetchInfo\<close> of \<open>make_up_fetch_info_vec\<close>: the first group of keys stays in it, each other
  group gets a copy of it.
\<close>

record 'm making =
  infos :: "fetch_info list"
  added :: "fetch_info list" \<comment> \<open>\<open>add_fetch_info_vec\<close>\<close>
  cache_data_vec :: "cache_data_item list"
  cache :: "'m cache_manager"

definition set_keys :: "info_ptr \<Rightarrow> string list \<Rightarrow> 'm making \<Rightarrow> 'm making" where
  "set_keys p ks st = st\<lparr>infos := (infos st)[p := (infos st ! p)\<lparr>keys := ks\<rparr>]\<rparr>"

definition spread_slots :: "('m, 'c) service_env \<Rightarrow> info_ptr \<Rightarrow> string list \<Rightarrow> 'm making \<Rightarrow> 'm making" where
  "spread_slots env p ks st =
     (case slot_order env (slot_keys_map ks) of
        [] \<Rightarrow> st
      | (s, first_keys) # rest \<Rightarrow>
          (let st1 = set_keys p first_keys st; info = infos st1 ! p
           in st1\<lparr>added := added st1 @ map (\<lambda>(s, slot_keys). info\<lparr>keys := slot_keys, fi_id := []\<rparr>) rest\<rparr>))"

definition make_up_info ::
  "('m, 'c) service_env \<Rightarrow> int \<Rightarrow> info_ptr \<Rightarrow> 'm making \<Rightarrow> 'm making res"
where
  "make_up_info env now p st =
     (let info = infos st ! p
      in case key_func_map env (key_gen_func info) of
           None \<Rightarrow> Inr st
         | Some key_func \<Rightarrow>
             bind_res (key_func (keys info) (prefix info) (postfix info)) (\<lambda>all_keys.
             let st1 = set_keys p all_keys st
             in if all_keys = [] then Inr st1
                else bind_res
                  (if use_cache info
                   then bind_res (get_from_cache env now all_keys p (cache_data_vec st1) (cache st1))
                     (\<lambda>(miss_keys, cdv, inst).
                       Inr (set_keys p miss_keys (st1\<lparr>cache_data_vec := cdv, cache := inst\<rparr>)))
                   else Inr st1) (\<lambda>st2.
                let ks = keys (infos st2 ! p)
                in if ks = [] then Inr st2
                   else case get_client (redis_client_id info) (clients env) of
                          None \<Rightarrow> Inr st2
                        | Some _ \<Rightarrow> Inr (spread_slots env p ks st2))))"

definition number_infos :: "fetch_info list \<Rightarrow> fetch_info list" where
  "number_infos fis = map (\<lambda>i. (fis ! i)\<lparr>fi_id := to_string i\<rparr>) [0..<length fis]"

definition make_up_fetch_info_vec ::
  "('m, 'c) service_env \<Rightarrow> int \<Rightarrow> fetch_info list \<Rightarrow> 'm cache_manager \<Rightarrow>
   (fetch_info list \<times> cache_data_item list \<times> 'm cache_manager) res"
where
  "make_up_fetch_info_vec env now fis inst =
     bind_res (fold_res (make_up_info env now) [0..<length fis]
         \<lparr>infos = fis, added = [], cache_data_vec = [], cache = inst\<rparr>) (\<lambda>st.
       Inr (number_infos (infos st @ added st), cache_data_vec st, cache st))"

end
