(* ===== verification/RedisReply.thy ===== *)
theory RedisReply
  imports RedisService
begin

text \<open>
  The second half of \<open>service/base/redis_service.cpp\<close>: the batches a list of keys is fetched in, what
  the callback of an RPC makes of the reply, the calls of the parse functions, and the merge of
  the results into the cache.
\<close>

section \<open>Batches\<close>

definition batch_plan :: "('m, 'c) service_env \<Rightarrow> nat \<Rightarrow> (nat \<times> nat) res" where
  \<comment> \<open>for \<open>n\<close> keys, the initial \<open>item_size_cond\<close> (and size of the result vector) and \<open>step\<close>\<close>
  "batch_plan env n =
     (if enable_multi_get env
      then let bs = size_of_int (batch_size env)
           in if bs = 0 then Inl Div_By_Zero
              else let batch_count = n div bs + (if n mod bs \<noteq> 0 then 1 else 0)
                   in if batch_count = 0 then Inl Div_By_Zero
                      else Inr (batch_count, n div batch_count + (if n mod batch_count \<noteq> 0 then 1 else 0))
      else Inr (n, 1))"

text \<open>\<open>for (int i = 0; i < keys.size(); i += step)\<close>, for a positive step.\<close>

function batch_starts :: "nat \<Rightarrow> nat \<Rightarrow> nat \<Rightarrow> nat list" where
  "batch_starts n step i = (if i < n \<and> 0 < step then i # batch_starts n step (i + step) else [])"
  by auto
termination by (relation "measure (\<lambda>(n, step, i). n - i)") auto

declare batch_starts.simps [simp del]

section \<open>Replies\<close>

definition push_result :: "string option \<Rightarrow> nat \<Rightarrow> redis_result_item \<Rightarrow> redis_result_item" where
  "push_result v n item = item
     \<lparr>result_str_vec := result_str_vec item @ [v],
      result_str_len_vec := result_str_len_vec item @ [n],
      total_result_str_size := total_result_str_size item + n\<rparr>"

fun push_sub_reply :: "bool \<Rightarrow> reply \<Rightarrow> redis_result_item \<Rightarrow> redis_result_item res" where
  "push_sub_reply fatal Nil_Reply item = Inr (push_result None 0 item)"
| "push_sub_reply fatal (String_Reply s) item = Inr (push_result (Some s) (length s) item)"
| "push_sub_reply fatal _ item = log_fatal fatal (push_result None 0 item)"
    \<comment> \<open>\<open>data()\<close> of another reply: a failed check, else an empty piece\<close>

text \<open>\<open>response.reset()\<close> comes before the use of the response in the second case.\<close>

definition check_suc_rpc_response ::
  "bool \<Rightarrow> reply list option \<Rightarrow> cntl \<Rightarrow> fetch_info \<Rightarrow> redis_result_item \<Rightarrow> string \<Rightarrow> redis_result_item res"
where
  "check_suc_rpc_response fatal response ctl info item key =
     (let about = key @ '' redis_id: '' @ redis_client_id info @ '' error_msg: '' @ error_text ctl
      in case response of
           None \<Rightarrow> Inr (item
             \<lparr>error_msg := ''response is nullptr or dynamic_pointer_cast failed, key:'' @ about,
              code := OTHER_ERROR\<rparr>)
         | Some [] \<Rightarrow> Inl Null_Deref
         | Some (Nil_Reply # _) \<Rightarrow> Inr (push_result None 0 (item
             \<lparr>error_msg := '' reply is nil; key:'' @ about, code := SUCCESS\<rparr>))
         | Some (Other_Reply m # _) \<Rightarrow> Inr (item
             \<lparr>error_msg := '' reply is not a string or array; key:'' @ about @ '' error_message: '' @ m,
              code := OTHER_ERROR\<rparr>)
         | Some (String_Reply s # rs) \<Rightarrow>
             Inr (push_result (Some s) (length s) (item\<lparr>code := SUCCESS\<rparr>)\<lparr>result_guard := response\<rparr>)
         | Some (Array_Reply subs # rs) \<Rightarrow>
             bind_res (fold_res (push_sub_reply fatal) subs (item\<lparr>code := SUCCESS\<rparr>)) (\<lambda>item1.
               Inr (item1\<lparr>result_guard := response\<rparr>)))"

section \<open>Parsing\<close>

text \<open>The calls of a parse function, up to the first that fails.\<close>

fun run_calls :: "(parse_call \<Rightarrow> int res) \<Rightarrow> parse_call res list \<Rightarrow> parse_call list \<times> cxx_error option" where
  "run_calls f [] = ([], None)"
| "run_calls f (Inl e # cs) = ([], Some e)"
| "run_calls f (Inr c # cs) =
     (case f c of
        Inl e \<Rightarrow> ([c], Some e)
      | Inr _ \<Rightarrow> (let (calls, e) = run_calls f cs in (c # calls, e)))"

definition plain_data :: "('m, 'c) service_env \<Rightarrow> fetch_info \<Rightarrow> string option \<Rightarrow> nat \<Rightarrow> string option \<times> nat" where
  "plain_data env info v n =
     (if compress info = ''snappy''
      then let (ok, s) = uncompress env v n in (Some s, length s)
      else (v, n))"

definition response_call ::
  "('m, 'c) service_env \<Rightarrow> fetch_info list \<Rightarrow> info_ptr \<Rightarrow> nat \<Rightarrow> nat \<Rightarrow> redis_result_item \<Rightarrow> nat \<Rightarrow> parse_call res"
where
  "response_call env fis p index num item i =
     (if i \<ge> length (result_str_len_vec item) then Inl Bad_Ptr
      else let info = fis ! p;
               (v, n) = plain_data env info (result_str_vec item ! i) (result_str_len_vec item ! i)
           in if start_index item + i \<ge> length (keys info) then Inl (Thrown ''out_of_range'')
              else Inr \<lparr>pc_key = keys info ! (start_index item + i), pc_data = v, pc_len = n,
                     pc_index = index, pc_size = num, pc_info = p, pc_cached = False\<rparr>)"

definition parse_redis_response ::
  "('m, 'c) service_env \<Rightarrow> fetch_info list \<Rightarrow> nat \<Rightarrow> nat \<Rightarrow> redis_result_item \<Rightarrow> parse_call list \<times> cxx_error option"
where
  "parse_redis_response env fis index num item =
     (case item_info item of
        None \<Rightarrow> ([], Some Null_Deref)
      | Some p \<Rightarrow>
          (case own_context env of
             Inl e \<Rightarrow> ([], Some e)
           | Inr _ \<Rightarrow> run_calls (get_parse_func env (response_func (fis ! p)))
               (map (response_call env fis p index num item) [0..<length (result_str_vec item)])))"

definition cached_calls ::
  "('m, 'c) service_env \<Rightarrow> fetch_info list \<Rightarrow> cache_data_item \<Rightarrow> parse_call res list"
where
  "cached_calls env fis cd =
     map (\<lambda>(key, value). case own_context env of
         Inl e \<Rightarrow> Inl e
       | Inr _ \<Rightarrow>
           let (v, n) = plain_data env (fis ! cache_info cd) (Some value) (length value)
           in Inr \<lparr>pc_key = key, pc_data = v, pc_len = n, pc_index = 0, pc_size = 1,
                pc_info = cache_info cd, pc_cached = True\<rparr>)
       (data_order env (data_map cd))"

fun parse_cached_data ::
  "('m, 'c) service_env \<Rightarrow> fetch_info list \<Rightarrow> cache_data_item list \<Rightarrow> parse_call list \<times> cxx_error option"
where
  "parse_cached_data env fis [] = ([], None)"
| "parse_cached_data env fis (cd # cds) =
     (if \<not> use_cache (fis ! cache_info cd) then parse_cached_data env fis cds
      else case run_calls (get_parse_func env (response_func (fis ! cache_info cd))) (cached_calls env fis cd) of
             (calls, Some e) \<Rightarrow> (calls, Some e)
           | (calls, None) \<Rightarrow>
               let (calls', e) = parse_cached_data env fis cds in (calls @ calls', e))"

section \<open>The callback of an RPC\<close>

text \<open>
  What becomes of the result item of the batch that starts at key \<open>i\<close>, and the calls of the parse
  function; exceptions are caught.
\<close>

definition callback_item ::
  "('m, 'c) service_env \<Rightarrow> fetch_info list \<Rightarrow> info_ptr \<Rightarrow> nat \<Rightarrow> nat \<Rightarrow> cntl \<Rightarrow> reply list option \<Rightarrow>
   nat \<Rightarrow> redis_result_item \<Rightarrow> (redis_result_item \<times> parse_call list) res"
where
  "callback_item env fis p i step ctl response num item0 =
     (let info = fis ! p; key = keys info ! i;
          item = item0\<lparr>item_info := Some p,
                       m_get_size := min (i + step) (length (keys info)) - i, start_index := i\<rparr>
      in bind_res
        (if \<not> failed ctl then check_suc_rpc_response (fatal_aborts env) response ctl info item key
         else Inr (item
           \<lparr>error_msg := '' key:'' @ key @ ''redis_id: '' @ redis_client_id info @ '' error_msg: '' @ error_text ctl,
            code := RPC_FAILED\<rparr>)) (\<lambda>item1.
         if enable_paral_parse env
         then case parse_redis_response env fis (i div step) num item1 of
                (calls, None) \<Rightarrow> Inr (item1, calls)
              | (calls, Some (Thrown m)) \<Rightarrow> Inr (item1, calls)
              | (calls, Some e) \<Rightarrow> Inl e
         else Inr (item1, [])))"

definition rpc_callback ::
  "('m, 'c) service_env \<Rightarrow> fetch_info list \<Rightarrow> info_ptr \<Rightarrow> nat \<Rightarrow> nat \<Rightarrow> cntl \<Rightarrow> reply list option \<Rightarrow>
   redis_result_item list \<Rightarrow> (redis_result_item list \<times> parse_call list) res"
where
  "rpc_callback env fis p i step ctl response items =
     (let index = i div step
      in if index \<ge> length items then Inr (items, [])
         else bind_res (callback_item env fis p i step ctl response (length items) (items ! index))
                (\<lambda>(item, calls). Inr (items[index := item], calls)))"

section \<open>Merging into the cache\<close>

definition cache_result ::
  "('m, 'c) service_env \<Rightarrow> int \<Rightarrow> fetch_info list \<Rightarrow> int \<Rightarrow> redis_result_item \<Rightarrow> nat \<Rightarrow>
   'm cache_manager \<Rightarrow> 'm cache_manager res"
where
  "cache_result env now fis expire item i inst =
     (if i \<ge> length (result_str_len_vec item) then Inr inst
      else
        let (v, n) = (case result_str_vec item ! i of
                        None \<Rightarrow> (Some '' '', 1)
                      | Some s \<Rightarrow> (Some s, result_str_len_vec item ! i))
        in case item_info item of
             None \<Rightarrow> Inl Null_Deref
           | Some p \<Rightarrow>
               if start_index item + i \<ge> length (keys (fis ! p)) then Inl (Thrown ''out_of_range'')
               else bind_res (Set (shm env) now (keys (fis ! p) ! (start_index item + i)) v n expire inst)
                      (\<lambda>(ret, inst1). Inr inst1))"

definition cache_results ::
  "('m, 'c) service_env \<Rightarrow> int \<Rightarrow> fetch_info list \<Rightarrow> redis_result_item list \<Rightarrow>
   'm cache_manager \<Rightarrow> 'm cache_manager res"
where
  "cache_results env now fis items inst =
     (case items of
        [] \<Rightarrow> Inr inst
      | first # _ \<Rightarrow>
          (case item_info first of
             None \<Rightarrow> Inl Null_Deref
           | Some p \<Rightarrow>
               if \<not> use_cache (fis ! p) then Inr inst
               else fold_res (\<lambda>item. fold_res
                        (cache_result env now fis (int32 (int (expire_time (fis ! p)))) item)
                        [0..<length (result_str_vec item)])
                      items inst))"

definition merge_cache_data ::
  "('m, 'c) service_env \<Rightarrow> int \<Rightarrow> fetch_info list \<Rightarrow> (string \<times> redis_result_item list) list option \<Rightarrow>
   'm cache_manager \<Rightarrow> 'm cache_manager res"
where
  "merge_cache_data env now fis result_map inst =
     (case result_map of
        None \<Rightarrow> Inr inst
      | Some m \<Rightarrow> fold_res (\<lambda>(i, items). cache_results env now fis items) (result_order env m) inst)"

end
