(* ===== verification/RedisJoin.thy ===== *)
theory RedisJoin
  imports RedisReply
begin

text \<open>
  \<open>RedisService::do_service\<close>: the thread of the node goes over the \<open>FetchInfo\<close>s and sends their
  batches, the callbacks run in threads of their own, and whoever counts the last batch of the last
  \<open>FetchInfo\<close> merges the results into the cache, waits for the cached data to be parsed, and goes on
  to \<open>process_response\<close> and to the output nodes. One step is one shared effect of one thread.

  What \<open>fetch\<close> and \<open>multi_fetch\<close> return and what the replies are is a parameter; \<open>process_response\<close>,
  which is virtual, and \<open>run_output_nodes_if_ready\<close> are entries of the log and do not throw.
\<close>

section \<open>Threads\<close>

text \<open>
  The effects a thread has still to perform. The flag is the argument of the two \<open>finish\<close>
  functions: whether a callback calls them (\<open>send_rpc\<close>).
\<close>

datatype fetch_op =
    Info info_ptr \<comment> \<open>the body of the loop over the \<open>FetchInfo\<close>s\<close>
  | Issue info_ptr nat \<comment> \<open>send the batch that starts at this key\<close>
  | Reply info_ptr nat \<comment> \<open>the callback, up to the call of \<open>deep_cond_finish_func\<close>\<close>
  | Deep info_ptr bool \<comment> \<open>\<open>item_size_cond->fetch_sub(1)\<close>\<close>
  | Cond info_ptr bool \<comment> \<open>\<open>cond->fetch_sub(1)\<close>\<close>
  | Merge_Cache info_ptr bool
  | Parse_Cached
  | Wait_Cached \<comment> \<open>\<open>get_future().get()\<close>\<close>
  | Respond \<comment> \<open>\<open>process_response\<close>\<close>
  | Notify_Outputs
  | Parse_Rest \<comment> \<open>the end of \<open>do_service\<close>: parse the cached data if they are still there\<close>

datatype fetch_event =
    Replied info_ptr nat
  | Merged
  | Parsed_Cached
  | Responded
  | Notified

record 'm fetch_run =
  cond :: atomic_int
  item_conds :: "atomic_int list" \<comment> \<open>\<open>item_size_cond\<close> of each \<open>FetchInfo\<close>\<close>
  results :: "redis_result_item list list" \<comment> \<open>\<open>result_map\<close>, by the position that is the id\<close>
  cached :: "cache_data_item list"
  promise :: "bool option" \<comment> \<open>no promise, or whether its value is set\<close>
  shared_cache :: "'m cache_manager"
  parses :: "parse_call list"
  threads :: "fetch_op list list"
  fetch_log :: "fetch_event list"

text \<open>What the client returns for a batch, and what the callback is called with.\<close>

record net =
  send_ret :: "info_ptr \<Rightarrow> nat \<Rightarrow> int"
  answer :: "info_ptr \<Rightarrow> nat \<Rightarrow> cntl \<times> reply list option"
  merge_time :: int

definition parse_cached :: "('m, 'c) service_env \<Rightarrow> fetch_info list \<Rightarrow> 'm fetch_run \<Rightarrow> 'm fetch_run res" where
  "parse_cached env fis s =
     (case parse_cached_data env fis (cached s) of
        (calls, Some e) \<Rightarrow> Inl e
      | (calls, None) \<Rightarrow> Inr (s\<lparr>parses := parses s @ calls, cached := [], promise := Some True,
          fetch_log := fetch_log s @ [Parsed_Cached]\<rparr>))"

text \<open>
  One effect: what the thread does next, the threads it starts, and the state. A thread that
  waits for a promise whose value is not set has no step (below).
\<close>

fun op_step ::
  "('m, 'c) service_env \<Rightarrow> net \<Rightarrow> fetch_info list \<Rightarrow> fetch_op \<Rightarrow> 'm fetch_run \<Rightarrow>
   (fetch_op list \<times> fetch_op list list \<times> 'm fetch_run) res"
where
  "op_step env net fis (Info p) s =
     (if get_client (redis_client_id (fis ! p)) (clients env) = None \<or> keys (fis ! p) = []
      then Inr ([Cond p False], [], s)
      else bind_res (batch_plan env (length (keys (fis ! p)))) (\<lambda>(count, step).
        Inr (map (Issue p) (batch_starts (length (keys (fis ! p))) step 0), [],
             s\<lparr>item_conds := (item_conds s)[p := of_nat count],
               results := (results s)[p := replicate count new_item]\<rparr>)))"
| "op_step env net fis (Issue p i) s =
     (if send_ret net p i = -1 then Inr ([Deep p False], [], s)
      else Inr ([], [[Reply p i, Deep p True]], s))"
| "op_step env net fis (Reply p i) s =
     bind_res (batch_plan env (length (keys (fis ! p)))) (\<lambda>(count, step).
     bind_res (rpc_callback env fis p i step (fst (answer net p i)) (snd (answer net p i)) (results s ! p))
       (\<lambda>(items, calls). Inr ([], [], s\<lparr>results := (results s)[p := items], parses := parses s @ calls,
          fetch_log := fetch_log s @ [Replied p i]\<rparr>)))"
| "op_step env net fis (Deep p b) s =
     (let (old_item_size, c) = fetch_sub1 (item_conds s ! p)
      in Inr (if old_item_size = 1 then [Cond p b] else [], [], s\<lparr>item_conds := (item_conds s)[p := c]\<rparr>))"
| "op_step env net fis (Cond p b) s =
     (let (old, c) = fetch_sub1 (cond s)
      in Inr (if old = 1 then [Merge_Cache p b] else [], [], s\<lparr>cond := c\<rparr>))"
| "op_step env net fis (Merge_Cache p b) s =
     (case merge_cache_data env (merge_time net) fis (Some (zip (map fi_id fis) (results s))) (shared_cache s) of
        Inr inst \<Rightarrow> Inr
          ((if promise s = None then [] else (if b then [] else [Parse_Cached]) @ [Wait_Cached])
             @ [Respond, Notify_Outputs], [],
           s\<lparr>shared_cache := inst, fetch_log := fetch_log s @ [Merged]\<rparr>)
      | Inl (Thrown m) \<Rightarrow> if b then Inr ([Deep p True], [], s) else Inl (Thrown m)
      | Inl e \<Rightarrow> Inl e)"
| "op_step env net fis Parse_Cached s = bind_res (parse_cached env fis s) (\<lambda>s1. Inr ([], [], s1))"
| "op_step env net fis Wait_Cached s = Inr ([], [], s)"
| "op_step env net fis Respond s = Inr ([], [], s\<lparr>fetch_log := fetch_log s @ [Responded]\<rparr>)"
| "op_step env net fis Notify_Outputs s = Inr ([], [], s\<lparr>fetch_log := fetch_log s @ [Notified]\<rparr>)"
| "op_step env net fis Parse_Rest s =
     (if cached s \<noteq> [] then bind_res (parse_cached env fis s) (\<lambda>s1. Inr ([], [], s1))
      else Inr ([], [], s))"

definition blocked :: "fetch_op \<Rightarrow> 'm fetch_run \<Rightarrow> bool" where
  "blocked op s \<longleftrightarrow> op = Wait_Cached \<and> promise s = Some False"

definition thread_step ::
  "('m, 'c) service_env \<Rightarrow> net \<Rightarrow> fetch_info list \<Rightarrow> nat \<Rightarrow> 'm fetch_run \<Rightarrow> 'm fetch_run res"
where
  "thread_step env net fis k s =
     (case threads s ! k of
        [] \<Rightarrow> Inr s
      | op # rest \<Rightarrow>
          bind_res (op_step env net fis op s) (\<lambda>(next_ops, started, t).
            Inr (t\<lparr>threads := (threads s)[k := next_ops @ rest] @ started\<rparr>)))"

inductive fetch_step :: "('m, 'c) service_env \<Rightarrow> net \<Rightarrow> fetch_info list \<Rightarrow> 'm fetch_run \<Rightarrow> 'm fetch_run \<Rightarrow> bool"
  for env net fis where
  "k < length (threads s) \<Longrightarrow> threads s ! k = op # rest \<Longrightarrow> \<not> blocked op s \<Longrightarrow>
   thread_step env net fis k s = Inr t \<Longrightarrow> fetch_step env net fis s t"

inductive_cases fetch_stepE: "fetch_step env net fis s t"

section \<open>The start\<close>

definition first_run :: "fetch_info list \<Rightarrow> cache_data_item list \<Rightarrow> 'm cache_manager \<Rightarrow> 'm fetch_run" where
  "first_run fis cdv inst =
     \<lparr>cond = of_nat (length fis), item_conds = replicate (length fis) 0, results = replicate (length fis) [],
      cached = cdv, promise = (if cdv \<noteq> [] then Some False else None), shared_cache = inst, parses = [],
      threads = [map Info [0..<length fis] @ [Parse_Rest]], fetch_log = []\<rparr>"

text \<open>The returned code, the \<open>FetchInfo\<close>s afterwards (a member of the node) and the run.\<close>

definition redis_do_service ::
  "('m, 'c) service_env \<Rightarrow> int \<Rightarrow> fetch_info list \<Rightarrow> 'm cache_manager \<Rightarrow>
   (int \<times> fetch_info list \<times> 'm fetch_run) res"
where
  "redis_do_service env now fis inst =
     (if fis = []
      then bind_res (merge_cache_data env now fis None inst) (\<lambda>inst1.
        Inr (0, fis, (first_run [] [] inst1)\<lparr>threads := [[]], fetch_log := [Merged, Responded, Notified]\<rparr>))
      else bind_res (make_up_fetch_info_vec env now fis inst) (\<lambda>(fis1, cdv, inst1).
        Inr (0, fis1, first_run fis1 cdv inst1)))"

end
