(* ===== verification/RedisData.thy ===== *)
theory RedisData
  imports RedisService
begin

text \<open>
  \<open>RedisDataService\<close> of the unit test (\<open>unittest/redis_service/src\<close>), the one redis node class of the
  repository: a generator of three keys that share a hash tag when the prefix has one, and a parse function that
  accepts what it is given. Both only log besides.
\<close>

definition test_key_gen :: "string list \<Rightarrow> string \<Rightarrow> string \<Rightarrow> string list res" where
  "test_key_gen ks pre post = Inr (((ks @ [pre @ ''1'']) @ [pre @ ''2'']) @ [pre @ ''3''])"

definition test_response :: "parse_call \<Rightarrow> int res" where
  "test_response call = Inr 1"

definition init_redis_conf :: "('m, 'c) service_env \<Rightarrow> ('m, 'c) service_env" where
  "init_redis_conf env =
     (let env1 = register_key_func ''test_key_gen'' test_key_gen env
      in register_parse_func ''test_response'' test_response env1)"

lemma init_redis_conf_funcs:
  assumes "key_func_map env = Map.empty" and "parse_func_map env = Map.empty"
  shows "key_func_map (init_redis_conf env) = [''test_key_gen'' \<mapsto> test_key_gen]"
    and "parse_func_map (init_redis_conf env) = [''test_response'' \<mapsto> test_response]"
  using assms
  by (simp_all add: init_redis_conf_def register_key_func_def register_parse_func_def umap_insert_def)

text \<open>The keys of the class lie in one slot, so one batch command can fetch them.\<close>

lemma test_keys_slot:
  assumes "CHR ''{'' \<notin> set a" and "CHR ''}'' \<notin> set tag" and "tag \<noteq> []" and "length a + length tag + length b + 3 < 2 ^ 31"
    and "test_key_gen [] (a @ CHR ''{'' # tag @ CHR ''}'' # b) post = Inr ks" and "k \<in> set ks" and "k' \<in> set ks"
  shows "key_slot k = key_slot k'"
proof -
  obtain c c' where k: "k = a @ CHR ''{'' # tag @ CHR ''}'' # (b @ [c])" "k' = a @ CHR ''{'' # tag @ CHR ''}'' # (b @ [c'])"
    using assms(5-7) by (auto simp: test_key_gen_def)
  have "GetKeySlot (Some k) = GetKeySlot (Some k')"
    unfolding k by (rule same_tag_same_slot) (use assms in simp_all)
  then show ?thesis by (simp add: key_slot_def)
qed

end
