(* ===== verification/ManagersSpec.thy ===== *)
theory ManagersSpec
  imports Managers
begin

text \<open>
  What the registries hold after they were filled: an old entry, or else what the file says. The
  theory also has a configuration library of its own, for examples: a configuration is a tree.
\<close>

section \<open>Configurations as trees\<close>

datatype conf_tree =
    Text string
  | Num int
  | Flag bool
  | Obj "(string \<times> conf_tree) list"
  | Objs "conf_tree list"

fun tree_keys :: "conf_tree \<Rightarrow> string list" where
  "tree_keys (Obj kvs) = map fst kvs"
| "tree_keys _ = []"

fun tree_get :: "conf_tree \<Rightarrow> string \<Rightarrow> conf_tree option" where
  "tree_get (Obj kvs) k = map_of kvs k"
| "tree_get _ k = None"

definition tree_hocon :: "(string \<times> conf_tree) list \<Rightarrow> conf_tree hocon" where
  "tree_hocon files =
     \<lparr>parse_file_any_syntax = (\<lambda>f. case map_of files f of Some t \<Rightarrow> Inr t | None \<Rightarrow> Inl (Thrown ''io'')),
      key_set = tree_keys,
      get_object = (\<lambda>t k. case tree_get t k of Some (Obj kvs) \<Rightarrow> Inr (Obj kvs) | _ \<Rightarrow> Inl (Thrown k)),
      get_string = (\<lambda>t k. case tree_get t k of Some (Text s) \<Rightarrow> Inr s | _ \<Rightarrow> Inl (Thrown k)),
      get_int = (\<lambda>t k. case tree_get t k of Some (Num i) \<Rightarrow> Inr i | _ \<Rightarrow> Inl (Thrown k)),
      get_bool = (\<lambda>t k. case tree_get t k of Some (Flag b) \<Rightarrow> Inr b | _ \<Rightarrow> Inl (Thrown k)),
      get_object_list = (\<lambda>t k. case tree_get t k of Some (Objs ts) \<Rightarrow> Inr ts | _ \<Rightarrow> Inl (Thrown k))\<rparr>"

section \<open>Channels\<close>

definition channel_of ::
  "'cfg hocon \<Rightarrow> (string \<Rightarrow> string \<Rightarrow> channel_options \<Rightarrow> 'ch option) \<Rightarrow> 'cfg \<Rightarrow> string \<Rightarrow> 'ch \<Rightarrow> bool"
where
  \<comment> \<open>the channel has the name service, the balancer and the options of its entry\<close>
  "channel_of hc chan_init root nm ch \<longleftrightarrow>
     (\<exists>ds ns lb opts. get_object hc root nm = Inr ds \<and>
        get_string hc ds ''ns'' = Inr ns \<and> get_string hc ds ''load_balancer'' = Inr lb \<and>
        get_string hc ds ''protocal'' = Inr (protocol opts) \<and>
        get_string hc ds ''connection_type'' = Inr (connection_type opts) \<and>
        get_int hc ds ''timeout_ms'' = Inr (timeout_ms opts) \<and>
        get_int hc ds ''max_retry'' = Inr (opt_max_retry opts) \<and>
        get_int hc ds ''backup_timeout_ms'' = Inr (backup_request_ms opts) \<and>
        chan_init (c_str ns) (c_str lb) opts = Some ch)"

lemma add_transport_ins:
  assumes "add_transport hc chan_init root nm m = Inr (True, m')"
  shows "\<exists>ch. channel_of hc chan_init root nm ch \<and> m' = umap_insert nm ch m"
proof -
  obtain ds ns lb timeout backup ct retry proto ch where a:
    "get_object hc root nm = Inr ds" "get_string hc ds ''ns'' = Inr ns"
    "get_string hc ds ''load_balancer'' = Inr lb" "get_int hc ds ''timeout_ms'' = Inr timeout"
    "get_int hc ds ''backup_timeout_ms'' = Inr backup" "get_string hc ds ''connection_type'' = Inr ct"
    "get_int hc ds ''max_retry'' = Inr retry" "get_string hc ds ''protocal'' = Inr proto"
    "chan_init (c_str ns) (c_str lb) \<lparr>protocol = proto, connection_type = ct, timeout_ms = timeout,
       opt_max_retry = retry, backup_request_ms = backup\<rparr> = Some ch"
    "m' = (if m nm = None then m(nm \<mapsto> ch) else m)"
    using assms by (auto simp: add_transport_def res_simps split: option.splits)
  from a(1-9) have "channel_of hc chan_init root nm ch" unfolding channel_of_def
    by (intro exI [of _ ds] exI [of _ ns] exI [of _ lb]
        exI [of _ "\<lparr>protocol = proto, connection_type = ct, timeout_ms = timeout,
       opt_max_retry = retry, backup_request_ms = backup\<rparr>"]) simp
  with a(10) show ?thesis by (auto simp: umap_insert_def)
qed

section \<open>Node configurations\<close>

definition downstream_of :: "'cfg hocon \<Rightarrow> 'cfg \<Rightarrow> string \<Rightarrow> string option" where
  \<comment> \<open>the other party a node names\<close>
  "downstream_of hc root nm =
     (case get_object hc root nm of
        Inl e \<Rightarrow> None
      | Inr conf \<Rightarrow> if ''downstream'' \<in> set (key_set hc conf)
          then (case get_string hc conf ''downstream'' of Inr ds \<Rightarrow> if ds = [] then None else Some ds | Inl e \<Rightarrow> None)
          else None)"

definition dangling :: "'cfg hocon \<Rightarrow> (string \<Rightarrow> bool) \<Rightarrow> 'cfg \<Rightarrow> string \<Rightarrow> bool" where
  "dangling hc known root nm \<longleftrightarrow> (\<exists>ds. downstream_of hc root nm = Some ds \<and> \<not> known ds)"

lemma add_node_conf_cases:
  assumes "add_node_conf hc known root nm m = Inr (g, m')"
  shows "g \<longleftrightarrow> \<not> dangling hc known root nm"
    and "\<exists>conf. get_object hc root nm = Inr conf \<and> m' = umap_insert nm conf m"
proof -
  obtain conf clazz ds where a: "get_object hc root nm = Inr conf" "get_string hc conf ''class'' = Inr clazz"
    "get_or hc (get_string hc) conf ''downstream'' [] = Inr ds"
    "g = (\<not> (ds \<noteq> [] \<and> \<not> known ds))" "m' = (if m nm \<noteq> None then m else m(nm \<mapsto> conf))"
    using assms by (auto simp: add_node_conf_def res_simps Let_def split: if_splits)
  show "g \<longleftrightarrow> \<not> dangling hc known root nm"
    using a by (auto simp: dangling_def downstream_of_def get_or_def split: if_splits)
  show "\<exists>conf. get_object hc root nm = Inr conf \<and> m' = umap_insert nm conf m"
    using a by (auto simp: umap_insert_def)
qed

lemma nodes_loop_go:
  "loop_res (add_node_conf hc known root) nms m = Inr (go, m') \<Longrightarrow>
   go \<longleftrightarrow> (\<forall>nm\<in>set nms. \<not> dangling hc known root nm)"
proof (induction nms arbitrary: m)
  case (Cons nm nms)
  then obtain g u where u: "add_node_conf hc known root nm m = Inr (g, u)"
    "(if g then loop_res (add_node_conf hc known root) nms u else Inr (False, u)) = Inr (go, m')"
    by (auto simp: res_simps)
  show ?case using add_node_conf_cases(1) [OF u(1)] u(2) Cons.IH [of u] by (cases g) auto
qed simp

section \<open>Properties\<close>

text \<open>What \<open>GtransportManager::init\<close> that returns true leaves behind: a name that had a channel
  keeps it, every other name of the file has the channel \<open>Channel::Init\<close> made from the entry's
  name service, balancer and options, and no other name has one.\<close>

lemma transports_ready:
  assumes "transport_init hc chan_init path m = Inr (True, m')"
  shows "\<exists>root. parse_file_any_syntax hc path = Inr root \<and>
    (\<forall>nm. case get_transport nm m of
       Some ch \<Rightarrow> get_transport nm m' = Some ch
     | None \<Rightarrow> if nm \<in> set (key_set hc root)
         then \<exists>ch. channel_of hc chan_init root nm ch \<and> get_transport nm m' = Some ch
         else get_transport nm m' = None)"
proof -
  obtain root where r: "parse_file_any_syntax hc path = Inr root"
    "loop_res (add_transport hc chan_init root) (key_set hc root) m = Inr (True, m')"
    using assms by (auto simp: transport_init_def no_throw_def bind_res_def split: sum.splits cxx_error.splits)
  from umap.loop_ins [OF r(2)] add_transport_ins
  have "umap.entered (channel_of hc chan_init root) (set (key_set hc root)) m m'" by metis
  with r(1) show ?thesis
    unfolding umap.entered_def get_transport_def by (intro exI [of _ root] conjI)
qed

text \<open>C39: \<open>NodeManager::init\<close> checks the links between the files: it returns true exactly if every
  node that names a downstream names a channel or a redis client that exists, and then
  \<open>get_node_info\<close> finds the configuration of every node of the file (the old one, if the name
  had one).\<close>

theorem nodes_validated:
  assumes "nodes_init hc transports clients path m = Inr (go, m')"
  shows "\<exists>root. parse_file_any_syntax hc path = Inr root \<and>
    (go \<longleftrightarrow> (\<forall>nm ds. nm \<in> set (key_set hc root) \<and> downstream_of hc root nm = Some ds \<longrightarrow>
       get_transport ds transports \<noteq> None \<or> get_client ds clients \<noteq> None)) \<and>
    (go \<longrightarrow> (\<forall>nm. case get_node_info nm m of
       Some conf \<Rightarrow> get_node_info nm m' = Some conf
     | None \<Rightarrow> if nm \<in> set (key_set hc root)
         then \<exists>conf. get_object hc root nm = Inr conf \<and> get_node_info nm m' = Some conf
         else get_node_info nm m' = None))"
proof -
  let ?known = "\<lambda>n. get_transport n transports \<noteq> None \<or> get_client n clients \<noteq> None"
  obtain root where r: "parse_file_any_syntax hc path = Inr root"
    "loop_res (add_node_conf hc ?known root) (key_set hc root) m = Inr (go, m')"
    using assms by (auto simp: nodes_init_def res_simps)
  have "umap.entered (\<lambda>nm conf. get_object hc root nm = Inr conf) (set (key_set hc root)) m m'" if go
  proof (rule umap.loop_ins)
    show "loop_res (add_node_conf hc ?known root) (key_set hc root) m = Inr (True, m')"
      using r(2) that by simp
  qed (rule add_node_conf_cases(2))
  then have "go \<longrightarrow> (\<forall>nm. case get_node_info nm m of
       Some conf \<Rightarrow> get_node_info nm m' = Some conf
     | None \<Rightarrow> if nm \<in> set (key_set hc root)
         then \<exists>conf. get_object hc root nm = Inr conf \<and> get_node_info nm m' = Some conf
         else get_node_info nm m' = None)"
    unfolding umap.entered_def get_node_info_def by (rule impI)
  moreover have "go \<longleftrightarrow> (\<forall>nm ds. nm \<in> set (key_set hc root) \<and> downstream_of hc root nm = Some ds \<longrightarrow>
       ?known ds)"
    unfolding nodes_loop_go [OF r(2)] dangling_def by blast
  ultimately show ?thesis using r(1) by blast
qed

text \<open>The files of the repository: a channel \<open>ds1\<close>, and a node that uses it.\<close>

definition ds1_options :: channel_options where
  "ds1_options = \<lparr>protocol = ''baidu_std'', connection_type = ''pooled'', timeout_ms = 200,
     opt_max_retry = -1, backup_request_ms = 200\<rparr>"

definition downstream_conf :: conf_tree where
  "downstream_conf = Obj [(''ds1'', Obj [(''ns'', Text ''consul''), (''load_balancer'', Text ''rr''),
     (''timeout_ms'', Num 200), (''backup_timeout_ms'', Num 200), (''max_retry'', Num (-1)),
     (''connection_type'', Text ''pooled''), (''protocal'', Text ''baidu_std'')])]"

definition caller_conf :: conf_tree where
  "caller_conf = Obj [(''caller'', Obj [(''class'', Text ''CallerService''), (''downstream'', Text ''ds1'')])]"

abbreviation ds_hocon :: "conf_tree hocon" where
  "ds_hocon \<equiv> tree_hocon [(''downstream.conf'', downstream_conf), (''node_service.conf'', caller_conf)]"

lemma ds1_init:
  "transport_init ds_hocon (\<lambda>ns lb opts. Some (ns, lb, opts)) ''downstream.conf'' Map.empty =
   Inr (True, [''ds1'' \<mapsto> (''consul'', ''rr'', ds1_options)])"
  by (simp add: transport_init_def no_throw_def tree_hocon_def downstream_conf_def add_transport_def
      c_str_def ds1_options_def)

lemma transports_ready_example:
  "\<exists>ch. channel_of ds_hocon (\<lambda>ns lb opts. Some (ns, lb, opts)) downstream_conf ''ds1'' ch \<and>
     get_transport ''ds1'' [''ds1'' \<mapsto> (''consul'', ''rr'', ds1_options)] = Some ch \<and>
     get_transport ''ds2'' [''ds1'' \<mapsto> (''consul'', ''rr'', ds1_options)] = None"
proof -
  have f: "parse_file_any_syntax ds_hocon ''downstream.conf'' = Inr downstream_conf"
    "set (key_set ds_hocon downstream_conf) = {''ds1''}"
    by (simp_all add: tree_hocon_def downstream_conf_def)
  obtain root where root: "parse_file_any_syntax ds_hocon ''downstream.conf'' = Inr root"
    and ready: "\<forall>nm. case get_transport nm Map.empty of
       Some ch \<Rightarrow> get_transport nm [''ds1'' \<mapsto> (''consul'', ''rr'', ds1_options)] = Some ch
     | None \<Rightarrow> if nm \<in> set (key_set ds_hocon root)
         then \<exists>ch. channel_of ds_hocon (\<lambda>ns lb opts. Some (ns, lb, opts)) root nm ch \<and>
           get_transport nm [''ds1'' \<mapsto> (''consul'', ''rr'', ds1_options)] = Some ch
         else get_transport nm [''ds1'' \<mapsto> (''consul'', ''rr'', ds1_options)] = None"
    using transports_ready [OF ds1_init] by (elim exE conjE)
  have "root = downstream_conf" using root f(1) by simp
  with spec [OF ready, of "''ds1''"] spec [OF ready, of "''ds2''"] f(2) show ?thesis
    by (simp add: get_transport_def)
qed

lemma caller_refused:
  "nodes_init ds_hocon Map.empty Map.empty ''node_service.conf'' Map.empty =
   Inr (False, [''caller'' \<mapsto> Obj [(''class'', Text ''CallerService''), (''downstream'', Text ''ds1'')]])"
  by (simp add: nodes_init_def tree_hocon_def caller_conf_def add_node_conf_def get_or_def
      get_transport_def get_client_def)

theorem nodes_validated_witness:
  "\<exists>nm ds. nm \<in> set (key_set ds_hocon caller_conf) \<and> downstream_of ds_hocon caller_conf nm = Some ds \<and>
     get_transport ds Map.empty = None \<and> get_client ds Map.empty = None"
proof -
  have "parse_file_any_syntax ds_hocon ''node_service.conf'' = Inr caller_conf"
    by (simp add: tree_hocon_def)
  with nodes_validated [OF caller_refused] show ?thesis by (auto simp del: not_None_eq)
qed

end
