(* ===== verification/RedisReplySpec.thy ===== *)
theory RedisReplySpec
  imports RedisReply RedisData ManagersSpec
begin

text \<open>
  The batches cut the list of keys without a gap, the results are handed to the parse functions key
  by key, and what is written into the cache is what a later request finds there.
\<close>

section \<open>Batches\<close>

lemma batch_starts_shift:
  assumes "k \<le> c" and "0 < c" and "(c - 1) * step < n" and "n \<le> c * step"
  shows "batch_starts n step (k * step) = map (\<lambda>j. j * step) [k..<c]"
  using assms(1)
proof (induction "c - k" arbitrary: k)
  case 0
  then have "k = c" by simp
  with assms(4) show ?case by (subst batch_starts.simps) simp
next
  case (Suc d)
  have "0 < step" using assms(3,4) by (cases step) auto
  have "k * step \<le> (c - 1) * step" using Suc.hyps(2) by (intro mult_right_mono) auto
  then have "k * step < n" using assms(3) by linarith
  then have "batch_starts n step (k * step) = k * step # batch_starts n step (Suc k * step)"
    using \<open>0 < step\<close> by (subst batch_starts.simps) (simp add: add.commute)
  moreover have "batch_starts n step (Suc k * step) = map (\<lambda>j. j * step) [Suc k..<c]"
    using Suc.hyps(1) [of "Suc k"] Suc.hyps(2) by simp
  moreover have "k < c" using Suc.hyps(2) by simp
  ultimately show ?case by (simp add: upt_conv_Cons)
qed

lemma ceil_bounds:
  fixes n b :: nat
  assumes "0 < b" and "0 < n" and c: "c = n div b + (if n mod b \<noteq> 0 then 1 else 0)"
  shows "0 < c" and "(c - 1) * b < n" and "n \<le> c * b" and "\<And>d. n \<le> d * b \<Longrightarrow> c \<le> d"
proof -
  have n: "n = n div b * b + n mod b" by simp
  have r: "n mod b < b" using assms(1) by simp
  show "0 < c" using assms by (cases "n mod b = 0") (auto simp: div_greater_zero_iff dest: dvd_imp_le)
  show "(c - 1) * b < n"
  proof (cases "n mod b = 0")
    case True
    then have "c = n div b" "n = c * b" using c by auto
    moreover have "0 < c" using \<open>n = c * b\<close> assms(2) by (cases c) auto
    ultimately show ?thesis using assms(1) by (cases c) auto
  next
    case False
    then have "n div b * b < n" using n by linarith
    then show ?thesis using False c by simp
  qed
  have "n \<le> n div b * b + b" using n r by linarith
  then show "n \<le> c * b" using n c by (cases "n mod b = 0") (auto simp: add.commute)
  show "c \<le> d" if "n \<le> d * b" for d
  proof (rule ccontr)
    assume "\<not> c \<le> d"
    then have "d * b \<le> (c - 1) * b" by (intro mult_right_mono) auto
    with \<open>(c - 1) * b < n\<close> that show False by linarith
  qed
qed

lemma batch_plan_spec:
  assumes "batch_plan env n = Inr (c, step)" and "0 < n"
  shows "0 < c" and "0 < step" and "(c - 1) * step < n" and "n \<le> c * step" and "c \<le> n"
    and "enable_multi_get env \<Longrightarrow> step \<le> size_of_int (batch_size env)"
    and "\<not> enable_multi_get env \<Longrightarrow> step = 1"
proof -
  let ?b = "size_of_int (batch_size env)"
  have "0 < c \<and> 0 < step \<and> (c - 1) * step < n \<and> n \<le> c * step \<and> c \<le> n \<and>
    (enable_multi_get env \<longrightarrow> step \<le> ?b) \<and> (\<not> enable_multi_get env \<longrightarrow> step = 1)"
  proof (cases "enable_multi_get env")
    case True
    then have b: "0 < ?b" and c: "c = n div ?b + (if n mod ?b \<noteq> 0 then 1 else 0)"
      and st: "step = n div c + (if n mod c \<noteq> 0 then 1 else 0)"
      using assms(1) by (auto simp: batch_plan_def Let_def split: if_splits)
    note cb = ceil_bounds [OF b assms(2) c]
    note sb = ceil_bounds [OF cb(1) assms(2) st]
    have "step \<le> ?b" using sb(4) [of ?b] cb(3) by (simp add: mult.commute)
    then have "(c - 1) * step \<le> (c - 1) * ?b" by simp
    then have "(c - 1) * step < n" using cb(2) by linarith
    moreover have "n \<le> n * ?b" using b by simp
    then have "c \<le> n" by (rule cb(4))
    moreover have "n \<le> c * step" using sb(3) by (simp add: mult.commute)
    ultimately show ?thesis using True cb(1) sb(1) \<open>step \<le> ?b\<close> by blast
  next
    case False
    then show ?thesis using assms by (auto simp: batch_plan_def)
  qed
  then show "0 < c" "0 < step" "(c - 1) * step < n" "n \<le> c * step" "c \<le> n"
    "enable_multi_get env \<Longrightarrow> step \<le> ?b" "\<not> enable_multi_get env \<Longrightarrow> step = 1" by simp_all
qed

lemma batch_starts_plan:
  assumes "batch_plan env n = Inr (c, step)" and "0 < n"
  shows "batch_starts n step 0 = map (\<lambda>j. j * step) [0..<c]"
  using batch_starts_shift [of 0 c step n] batch_plan_spec [OF assms] by simp

lemma concat_slices:
  "concat (map (\<lambda>j. take step (drop (j * step) xs)) [0..<c]) = take (c * step) xs"
proof (induction c)
  case (Suc c)
  have "take (Suc c * step) xs = take (c * step) xs @ take step (drop (c * step) xs)"
    by (simp only: mult_Suc add.commute [of step] take_add)
  with Suc show ?case by simp
qed simp

section \<open>What a batch makes of its reply\<close>

text \<open>The content of redis, and the replies it gives to \<open>MGET\<close> and \<open>GET\<close>.\<close>

definition value_reply :: "string option \<Rightarrow> reply" where
  "value_reply v = (case v of None \<Rightarrow> Nil_Reply | Some s \<Rightarrow> String_Reply s)"

definition value_size :: "string option \<Rightarrow> nat" where
  "value_size v = (case v of None \<Rightarrow> 0 | Some s \<Rightarrow> length s)"

definition answers :: "bool \<Rightarrow> (string \<Rightarrow> string option) \<Rightarrow> string list \<Rightarrow> reply list" where
  \<comment> \<open>to the keys of one batch\<close>
  "answers multi db batch =
     (if multi then [Array_Reply (map (\<lambda>k. value_reply (db k)) batch)]
      else map (\<lambda>k. value_reply (db k)) batch)"

lemma push_values:
  "fold_res (push_sub_reply fatal) (map (\<lambda>k. value_reply (db k)) ks) item =
   Inr (item\<lparr>result_str_vec := result_str_vec item @ map db ks,
             result_str_len_vec := result_str_len_vec item @ map (\<lambda>k. value_size (db k)) ks,
             total_result_str_size := total_result_str_size item + (\<Sum>k\<leftarrow>ks. value_size (db k))\<rparr>)"
proof (induction ks arbitrary: item)
  case (Cons k ks)
  then show ?case
    by (cases "db k") (simp_all add: value_reply_def value_size_def push_result_def add.assoc)
qed simp

definition agrees :: "fetch_info list \<Rightarrow> (string \<Rightarrow> string option) \<Rightarrow> redis_result_item \<Rightarrow> bool" where
  \<comment> \<open>the results of an item are the values of its keys\<close>
  "agrees fis db item \<longleftrightarrow>
     (result_str_vec item \<noteq> [] \<longrightarrow>
       (\<exists>p. item_info item = Some p \<and>
          (let batch = take (length (result_str_vec item)) (drop (start_index item) (keys (fis ! p)))
           in result_str_vec item = map db batch \<and>
              result_str_len_vec item = map (\<lambda>k. value_size (db k)) batch)))"

lemma checked_item:
  assumes "\<not> multi \<Longrightarrow> length batch = 1"
  shows "\<exists>item1. check_suc_rpc_response fatal (Some (answers multi db batch)) ctl info item key = Inr item1 \<and>
    result_str_vec item1 = result_str_vec item @ map db batch \<and>
    result_str_len_vec item1 = result_str_len_vec item @ map (\<lambda>k. value_size (db k)) batch \<and>
    item_info item1 = item_info item \<and> start_index item1 = start_index item \<and> code item1 = SUCCESS"
proof (cases multi)
  case True
  then show ?thesis by (simp add: answers_def check_suc_rpc_response_def push_values Let_def)
next
  case False
  then obtain k where "batch = [k]" using assms by (auto simp: length_Suc_conv)
  with False show ?thesis
    by (cases "db k")
      (simp_all add: answers_def check_suc_rpc_response_def value_reply_def value_size_def push_result_def Let_def)
qed

lemma run_calls_ok:
  assumes "\<And>c. \<exists>r. f c = Inr r"
  shows "run_calls f (map Inr cs) = (cs, None)"
proof (induction cs)
  case (Cons c cs)
  obtain r where "f c = Inr r" using assms by blast
  with Cons show ?case by simp
qed simp

definition parses_all :: "('m, 'c) service_env \<Rightarrow> fetch_info \<Rightarrow> bool" where
  \<comment> \<open>the parse function does not fail, and gets the values as they are\<close>
  "parses_all env info \<longleftrightarrow> enable_paral_parse env \<and> compress info \<noteq> ''snappy'' \<and>
     own_context env \<in> range Inr \<and> (\<forall>c. get_parse_func env (response_func info) c \<in> range Inr)"

definition key_call :: "(string \<Rightarrow> string option) \<Rightarrow> info_ptr \<Rightarrow> nat \<Rightarrow> nat \<Rightarrow> string \<Rightarrow> parse_call" where
  "key_call db p index num k =
     \<lparr>pc_key = k, pc_data = db k, pc_len = value_size (db k), pc_index = index, pc_size = num,
      pc_info = p, pc_cached = False\<rparr>"

lemma callback_batch:
  assumes "\<not> failed ctl" and "parses_all env (fis ! p)"
    and b: "batch = take step (drop i (keys (fis ! p)))"
    and "\<not> enable_multi_get env \<Longrightarrow> length batch = 1"
  shows "\<exists>item. callback_item env fis p i step ctl (Some (answers (enable_multi_get env) db batch)) num new_item =
      Inr (item, map (key_call db p (i div step) num) batch) \<and>
    agrees fis db item \<and> item_info item = Some p \<and> start_index item = i \<and> code item = SUCCESS"
proof -
  let ?ks = "keys (fis ! p)"
  let ?item = "new_item\<lparr>item_info := Some p, m_get_size := min (i + step) (length ?ks) - i, start_index := i\<rparr>"
  obtain item1 where i1: "check_suc_rpc_response (fatal_aborts env) (Some (answers (enable_multi_get env) db batch))
      ctl (fis ! p) ?item (?ks ! i) = Inr item1"
    "result_str_vec item1 = map db batch" "result_str_len_vec item1 = map (\<lambda>k. value_size (db k)) batch"
    "item_info item1 = Some p" "start_index item1 = i" "code item1 = SUCCESS"
    using checked_item [of "enable_multi_get env" batch, OF assms(4)] by (fastforce simp: new_item_def)
  have bl: "length batch = min step (length ?ks - i)" using b by simp
  have nth: "i + j < length ?ks \<and> ?ks ! (i + j) = batch ! j" if "j < length batch" for j
    using that b by auto
  have "map (response_call env fis p (i div step) num item1) [0..<length (result_str_vec item1)] =
      map Inr (map (key_call db p (i div step) num) batch)"
  proof (rule nth_equalityI)
    fix j assume "j < length (map (response_call env fis p (i div step) num item1) [0..<length (result_str_vec item1)])"
    then have j: "j < length batch" using i1(2) by simp
    with nth [OF j] i1 assms(2)
    show "map (response_call env fis p (i div step) num item1) [0..<length (result_str_vec item1)] ! j =
        map Inr (map (key_call db p (i div step) num) batch) ! j"
      by (simp add: response_call_def plain_data_def parses_all_def key_call_def Let_def)
  qed (simp add: i1(2))
  moreover have "run_calls (get_parse_func env (response_func (fis ! p))) (map Inr cs) = (cs, None)" for cs
    using assms(2) by (intro run_calls_ok) (auto simp: parses_all_def)
  ultimately have "parse_redis_response env fis (i div step) num item1 =
      (map (key_call db p (i div step) num) batch, None)"
    using i1(4) assms(2) by (auto simp: parse_redis_response_def parses_all_def simp del: map_map)
  moreover have "take (length batch) (drop i ?ks) = batch"
    unfolding b by (cases "step \<le> length (drop i ?ks)") (simp_all add: min_def)
  then have "agrees fis db item1" using i1(2-5) by (simp add: agrees_def Let_def)
  ultimately show ?thesis using i1 assms(1,2)
    by (simp add: callback_item_def Let_def parses_all_def)
qed

section \<open>What the cache gives back\<close>

text \<open>
  The cached form of a value: a blank for a key that redis does not have. What is read back:
  the value, except that a blank is read as the empty string.
\<close>

definition cached_form :: "string option \<Rightarrow> string" where
  "cached_form v = (case v of None \<Rightarrow> '' '' | Some s \<Rightarrow> s)"

definition shown :: "string option \<Rightarrow> string" where
  "shown v = (case v of None \<Rightarrow> [] | Some s \<Rightarrow> if s = '' '' then [] else s)"

definition coherent :: "'m shmcache \<Rightarrow> 'm \<Rightarrow> (string \<Rightarrow> string option) \<Rightarrow> bool" where
  \<comment> \<open>whatever the cache finds, at whatever time, is the cached form of what redis has\<close>
  "coherent m c db \<longleftrightarrow>
     (\<forall>now k v. shmcache_get m now c k = (0, v) \<longrightarrow> v = cached_form (db k))"

lemma shown_cached: "(if cached_form v = '' '' then [] else cached_form v) = shown v"
  by (cases v) (simp_all add: cached_form_def shown_def)

lemma coherent_set:
  assumes "shm_stores m" and "coherent m c db"
    and "shmcache_set_ex m c k (cached_form (db k)) ex = (r, c')"
  shows "coherent m c' db"
  unfolding coherent_def
proof (intro allI impI)
  fix now k' v assume g: "shmcache_get m now c' k' = (0, v)"
  from shm_storesD(2) [OF assms(1,3) g]
  show "v = cached_form (db k')" using assms(2) g by (auto simp: coherent_def)
qed

lemma cache_result_coherent:
  assumes "shm_stores (shm env)" and "ready inst c" and "coherent (shm env) c db"
    and "agrees fis db item" and "i < length (result_str_vec item)"
  shows "\<exists>inst' c'. cache_result env now fis expire item i inst = Inr inst' \<and> ready inst' c' \<and>
    coherent (shm env) c' db"
proof -
  let ?n = "length (result_str_vec item)"
  obtain p where p: "item_info item = Some p"
    "result_str_vec item = map db (take ?n (drop (start_index item) (keys (fis ! p))))"
    "result_str_len_vec item = map (\<lambda>k. value_size (db k)) (take ?n (drop (start_index item) (keys (fis ! p))))"
    using assms(4,5) by (auto simp: agrees_def Let_def)
  let ?batch = "take ?n (drop (start_index item) (keys (fis ! p)))"
  have len: "length ?batch = ?n" using arg_cong [OF p(2), of length] by simp
  define k where "k = keys (fis ! p) ! (start_index item + i)"
  have k: "start_index item + i < length (keys (fis ! p))" "?batch ! i = k"
    using len assms(5) by (auto simp: k_def)
  have v: "result_str_vec item ! i = db k" "result_str_len_vec item ! i = value_size (db k)"
    "\<not> i \<ge> length (result_str_len_vec item)"
    using assms(5) len k(2) by (subst p(2) p(3); simp)+
  have "cache_result env now fis expire item i inst =
      bind_res (Set (shm env) now k (Some (cached_form (db k))) (length (cached_form (db k))) expire inst)
        (\<lambda>(ret, inst1). Inr inst1)"
    using p(1) v k(1) by (cases "db k")
      (simp_all add: cache_result_def k_def [symmetric] cached_form_def value_size_def Let_def)
  moreover have "\<exists>ret inst' c'. Set (shm env) now k (Some (cached_form (db k))) (length (cached_form (db k))) expire inst
      = Inr (ret, inst') \<and> ready inst' c' \<and> coherent (shm env) c' db"
  proof (cases "k = [] \<or> cached_form (db k) = [] \<or> expire \<le> 0")
    case True
    then have "Set (shm env) now k (Some (cached_form (db k))) (length (cached_form (db k))) expire inst = Inr (-1, inst)"
      by (intro Set_refused) auto
    then show ?thesis using assms(2,3) by blast
  next
    case False
    obtain r c' where st: "shmcache_set_ex (shm env) c k (cached_form (db k)) (now + expire) = (r, c')" by force
    from coherent_set [OF assms(1,3) st] Set_ready [OF assms(2), of k "cached_form (db k)" expire "shm env" now] False st
    show ?thesis by (auto simp: ready_def)
  qed
  ultimately show ?thesis by auto
qed

lemma fold_results_coherent:
  assumes "shm_stores (shm env)" and "agrees fis db item"
    and "set is \<subseteq> {..<length (result_str_vec item)}" and "ready inst c" and "coherent (shm env) c db"
  shows "\<exists>inst' c'. fold_res (cache_result env now fis expire item) is inst = Inr inst' \<and> ready inst' c' \<and>
    coherent (shm env) c' db"
  using assms(3-5)
proof (induction "is" arbitrary: inst c)
  case (Cons i js)
  then have i: "i < length (result_str_vec item)" by simp
  from cache_result_coherent [OF assms(1) Cons.prems(2,3) assms(2) i, of now expire]
  obtain inst1 c1 where "cache_result env now fis expire item i inst = Inr inst1" "ready inst1 c1"
    "coherent (shm env) c1 db" by blast
  with Cons.IH [of inst1 c1] Cons.prems(1) show ?case by auto
qed auto

lemma fold_items_coherent:
  assumes "shm_stores (shm env)" and "\<And>item. item \<in> set items \<Longrightarrow> agrees fis db item"
    and "ready inst c" and "coherent (shm env) c db"
  shows "\<exists>inst' c'. fold_res (\<lambda>item. fold_res (cache_result env now fis expire item)
      [0..<length (result_str_vec item)]) items inst = Inr inst' \<and> ready inst' c' \<and> coherent (shm env) c' db"
  using assms(2-4)
proof (induction items arbitrary: inst c)
  case (Cons item items)
  have "set [0..<length (result_str_vec item)] \<subseteq> {..<length (result_str_vec item)}" by auto
  from fold_results_coherent [OF assms(1) Cons.prems(1) this Cons.prems(2,3), of now expire]
  obtain inst1 c1 where "fold_res (cache_result env now fis expire item) [0..<length (result_str_vec item)] inst = Inr inst1"
    "ready inst1 c1" "coherent (shm env) c1 db" by auto
  with Cons.IH [of inst1 c1] Cons.prems(1) show ?case by simp
qed auto

definition result_map_ok :: "fetch_info list \<Rightarrow> (string \<Rightarrow> string option) \<Rightarrow> (string \<times> redis_result_item list) list \<Rightarrow> bool" where
  \<comment> \<open>the results are the values of the keys, and the first batch of each \<open>FetchInfo\<close> was answered\<close>
  "result_map_ok fis db m \<longleftrightarrow>
     (\<forall>(i, items)\<in>set m. (\<forall>item\<in>set items. agrees fis db item) \<and>
        (items \<noteq> [] \<longrightarrow> item_info (items ! 0) \<noteq> None))"

lemma cache_results_coherent:
  assumes "shm_stores (shm env)" and "\<forall>item\<in>set items. agrees fis db item"
    and "items \<noteq> [] \<longrightarrow> item_info (items ! 0) \<noteq> None" and "ready inst c" and "coherent (shm env) c db"
  shows "\<exists>inst' c'. cache_results env now fis items inst = Inr inst' \<and> ready inst' c' \<and> coherent (shm env) c' db"
proof (cases items)
  case Nil
  then show ?thesis using assms(4,5) by (auto simp: cache_results_def)
next
  case (Cons first rest)
  then obtain p where p: "item_info first = Some p" using assms(3) by auto
  show ?thesis
  proof (cases "use_cache (fis ! p)")
    case True
    with fold_items_coherent [OF assms(1) _ assms(4,5), of items fis now "int32 (int (expire_time (fis ! p)))"]
      assms(2) Cons p show ?thesis by (simp add: cache_results_def)
  next
    case False
    then show ?thesis using assms(4,5) Cons p by (auto simp: cache_results_def)
  qed
qed

lemma merge_coherent:
  assumes "shm_stores (shm env)" and "result_map_ok fis db m" and "set (result_order env m) = set m"
    and "ready inst c" and "coherent (shm env) c db"
  shows "\<exists>inst' c'. merge_cache_data env now fis (Some m) inst = Inr inst' \<and> ready inst' c' \<and>
    coherent (shm env) c' db"
proof -
  have "\<exists>inst' c'. fold_res (\<lambda>(i, items). cache_results env now fis items) xs inst = Inr inst' \<and>
      ready inst' c' \<and> coherent (shm env) c' db"
    if "set xs \<subseteq> set m" "ready inst c" "coherent (shm env) c db" for xs inst c
    using that
  proof (induction xs arbitrary: inst c)
    case (Cons x xs)
    obtain i items where x: "x = (i, items)" by force
    then have "(\<forall>item\<in>set items. agrees fis db item) \<and> (items \<noteq> [] \<longrightarrow> item_info (items ! 0) \<noteq> None)"
      using Cons.prems(1) assms(2) by (auto simp: result_map_ok_def)
    then obtain inst1 c1 where "cache_results env now fis items inst = Inr inst1" "ready inst1 c1"
      "coherent (shm env) c1 db"
      using cache_results_coherent [OF assms(1) _ _ Cons.prems(2,3)] by blast
    with Cons.IH [of inst1 c1] Cons.prems(1) x show ?case by simp
  qed auto
  from this [of "result_order env m", OF _ assms(4,5)] assms(3) show ?thesis
    by (simp add: merge_cache_data_def)
qed

lemma look_up_ready:
  assumes "ready inst c" and "coherent (shm env) c db"
  shows "\<exists>hit. look_up env now key (found, miss, inst) =
    Inr (if hit then AList.update key (shown (db key)) found else found,
         if hit then miss else miss @ [key], inst)"
proof (cases "key = []")
  case True
  then have "look_up env now key (found, miss, inst) = Inr (found, miss @ [key], inst)"
    by (simp add: look_up_def Get_def)
  then show ?thesis by (intro exI [of _ False]) simp
next
  case False
  obtain r v where g: "shmcache_get (shm env) now c key = (r, v)" by force
  show ?thesis
  proof (cases "r = 0")
    case True
    then have "v = cached_form (db key)" using assms(2) g by (auto simp: coherent_def)
    then show ?thesis using True Get_ready [OF assms(1) False, of "shm env" now] g shown_cached [of "db key"]
      by (intro exI [of _ True]) (simp add: look_up_def)
  next
    case ne: False
    then show ?thesis using Get_ready [OF assms(1) False, of "shm env" now] g
      by (intro exI [of _ False]) (simp add: look_up_def)
  qed
qed

lemma look_ups_ready:
  assumes "ready inst c" and "coherent (shm env) c db"
  shows "\<exists>found' miss'. fold_res (look_up env now) ks (found, miss, inst) = Inr (found', miss @ miss', inst) \<and>
    fst ` set found' \<union> set miss' = fst ` set found \<union> set ks \<and>
    ((\<forall>(k, v)\<in>set found. v = shown (db k)) \<longrightarrow> (\<forall>(k, v)\<in>set found'. v = shown (db k)))"
proof (induction ks arbitrary: found miss)
  case (Cons k ks)
  obtain hit where h: "look_up env now k (found, miss, inst) =
    Inr (if hit then AList.update k (shown (db k)) found else found,
         if hit then miss else miss @ [k], inst)"
    using look_up_ready [OF assms] by blast
  show ?case
  proof (cases hit)
    case True
    let ?f = "AList.update k (shown (db k)) found"
    obtain f' m' where "fold_res (look_up env now) ks (?f, miss, inst) = Inr (f', miss @ m', inst)"
      "fst ` set f' \<union> set m' = fst ` set ?f \<union> set ks"
      "(\<forall>(k, v)\<in>set ?f. v = shown (db k)) \<longrightarrow> (\<forall>(k, v)\<in>set f'. v = shown (db k))"
      using Cons.IH [of ?f miss] by blast
    moreover have "fst ` set ?f = insert k (fst ` set found)" by (induction found) auto
    moreover have "set ?f \<subseteq> insert (k, shown (db k)) (set found)" by (induction found) auto
    ultimately show ?thesis using h True by auto
  next
    case False
    obtain f' m' where "fold_res (look_up env now) ks (found, miss @ [k], inst) = Inr (f', (miss @ [k]) @ m', inst)"
      "fst ` set f' \<union> set m' = fst ` set found \<union> set ks"
      "(\<forall>(k, v)\<in>set found. v = shown (db k)) \<longrightarrow> (\<forall>(k, v)\<in>set f'. v = shown (db k))"
      using Cons.IH [of found "miss @ [k]"] by blast
    then show ?thesis using h False by (intro exI [of _ f'] exI [of _ "k # m'"]) auto
  qed
qed auto

section \<open>Properties\<close>

text \<open>C24: The batches partition the keys: there are as many batches as \<open>item_size_cond\<close> counts and the result
  vector has entries, the batch that starts at key \<open>i\<close> has entry \<open>i / step\<close>, none is empty or
  longer than \<open>batch_size\<close>, and one after the other they are the list of the keys.\<close>

theorem batches_partition:
  assumes "batch_plan env (length ks) = Inr (batch_count, step)" and "ks \<noteq> []"
  shows "length (batch_starts (length ks) step 0) = batch_count \<and>
    (\<forall>j<batch_count. batch_starts (length ks) step 0 ! j div step = j) \<and>
    concat (map (\<lambda>i. take step (drop i ks)) (batch_starts (length ks) step 0)) = ks \<and>
    (\<forall>i\<in>set (batch_starts (length ks) step 0). take step (drop i ks) \<noteq> []) \<and>
    step \<le> (if enable_multi_get env then size_of_int (batch_size env) else 1)"
proof -
  have n: "0 < length ks" using assms(2) by simp
  note plan = batch_plan_spec [OF assms(1) n]
  note starts = batch_starts_plan [OF assms(1) n]
  have "concat (map (\<lambda>i. take step (drop i ks)) (map (\<lambda>j. j * step) [0..<batch_count])) = ks"
    using concat_slices [of step ks batch_count] plan(4) by (simp add: comp_def)
  moreover have "take step (drop (j * step) ks) \<noteq> []" if "j < batch_count" for j
  proof -
    have "j * step \<le> (batch_count - 1) * step" using that by (intro mult_right_mono) auto
    then have "j * step < length ks" using plan(3) by linarith
    then show ?thesis using plan(2) by simp
  qed
  ultimately show ?thesis using plan unfolding starts by auto
qed

text \<open>C20: Every key is parsed once, with its own value: if each batch of a \<open>FetchInfo\<close> is answered with the
  values of its keys (\<open>MGET\<close>: one array; \<open>GET\<close>: one reply), the calls of the parse function,
  batch by batch, are the keys in order with their values.\<close>

theorem parse_each_key:
  assumes "parses_all env (fis ! p)" and "\<not> failed ctl" and "keys (fis ! p) \<noteq> []"
    and "batch_plan env (length (keys (fis ! p))) = Inr (batch_count, step)"
  shows "\<exists>item calls.
    (\<forall>i\<in>set (batch_starts (length (keys (fis ! p))) step 0).
       callback_item env fis p i step ctl
         (Some (answers (enable_multi_get env) db (take step (drop i (keys (fis ! p)))))) batch_count new_item =
       Inr (item i, calls i) \<and> code (item i) = SUCCESS) \<and>
    map (\<lambda>c. (pc_key c, pc_data c)) (concat (map calls (batch_starts (length (keys (fis ! p))) step 0))) =
      map (\<lambda>k. (k, db k)) (keys (fis ! p))"
proof -
  let ?ks = "keys (fis ! p)"
  let ?batch = "\<lambda>i. take step (drop i ?ks)"
  have n: "0 < length ?ks" using assms(3) by simp
  note plan = batch_plan_spec [OF assms(4) n]
  note starts = batch_starts_plan [OF assms(4) n]
  let ?starts = "batch_starts (length ?ks) step 0"
  have one: "length (?batch i) = 1" if "\<not> enable_multi_get env" "i \<in> set ?starts" for i
  proof -
    have s1: "step = 1" using plan(7) that(1) .
    have "i < batch_count" using that(2) unfolding starts unfolding s1 by auto
    then show ?thesis using plan(5) s1 by simp
  qed
  let ?cb = "\<lambda>i. callback_item env fis p i step ctl (Some (answers (enable_multi_get env) db (?batch i))) batch_count new_item"
  have cb: "\<exists>item. ?cb i = Inr (item, map (key_call db p (i div step) batch_count) (?batch i)) \<and> code item = SUCCESS"
    if "i \<in> set ?starts" for i
    using callback_batch [OF assms(2,1) refl one [OF _ that], of db batch_count] by blast
  define item where "item i = (case ?cb i of Inr (it, _) \<Rightarrow> it | Inl _ \<Rightarrow> new_item)" for i
  have "?cb i = Inr (item i, map (key_call db p (i div step) batch_count) (?batch i)) \<and> code (item i) = SUCCESS"
    if "i \<in> set ?starts" for i
    using cb [OF that] by (auto simp: item_def)
  moreover have "map (\<lambda>c. (pc_key c, pc_data c)) (concat (map (\<lambda>i. map (key_call db p (i div step) batch_count) (?batch i)) xs)) =
      map (\<lambda>k. (k, db k)) (concat (map ?batch xs))" for xs
    by (induction xs) (simp_all add: key_call_def)
  moreover have "concat (map ?batch ?starts) = ?ks"
    using concat_slices [of step ?ks batch_count] plan(4) unfolding starts by (simp add: comp_def)
  ultimately show ?thesis
    by (intro exI [of _ item] exI [of _ "\<lambda>i. map (key_call db p (i div step) batch_count) (?batch i)"]) auto
qed

text \<open>C17: The cache never lies, a blank aside: as long as redis does not change, whatever a later request finds
  in the cache after the results of an earlier one were merged is the value redis has; a key redis
  does not have, and the value that is a single blank, are read as the empty string. The keys that
  are not found are left to be fetched.\<close>

theorem cache_sound:
  assumes "shm_stores (shm env)" and "ready inst c" and "coherent (shm env) c db"
    and "result_map_ok fis db m" and "set (result_order env m) = set m"
  shows "\<exists>inst' found miss_keys.
    merge_cache_data env now fis (Some m) inst = Inr inst' \<and>
    get_from_cache env now' ks p cdv inst' =
      Inr (miss_keys, if found \<noteq> [] then cdv @ [\<lparr>data_map = found, cache_info = p\<rparr>] else cdv, inst') \<and>
    fst ` set found \<union> set miss_keys = set ks \<and> (\<forall>(k, v)\<in>set found. v = shown (db k))"
proof -
  obtain inst' c' where m: "merge_cache_data env now fis (Some m) inst = Inr inst'" "ready inst' c'"
    "coherent (shm env) c' db"
    using merge_coherent [OF assms(1,4,5,2,3)] by blast
  obtain found miss_keys where f: "fold_res (look_up env now') ks ([], [], inst') = Inr (found, [] @ miss_keys, inst')"
    "fst ` set found \<union> set miss_keys = fst ` set ([] :: (string \<times> string) list) \<union> set ks"
    "\<forall>(k, v)\<in>set found. v = shown (db k)"
    using look_ups_ready [OF m(2,3), of now' ks "[]" "[]"] by auto
  then show ?thesis using m(1)
    by (intro exI [of _ inst'] exI [of _ found] exI [of _ miss_keys]) (simp add: get_from_cache_def)
qed

text \<open>A reply without an element crashes the callback: the response is released first and read afterwards.\<close>

lemma empty_reply_crashes:
  "\<not> failed ctl \<Longrightarrow> callback_item env fis p i step ctl (Some []) num item = Inl Null_Deref"
  by (simp add: callback_item_def check_suc_rpc_response_def Let_def)

text \<open>A first batch that could not be sent crashes the merge: the result vector has its entry, whose
  \<open>fetch_info_ptr\<close> is null, and \<open>merge_cache_data\<close> looks there for \<open>use_cache\<close>.\<close>

lemma unsent_batch_crashes:
  assumes "items ! 0 = new_item" and "items \<noteq> []"
    and "result_order env m = before @ (i, items) # rest"
    and "fold_res (\<lambda>(i, its). cache_results env now fis its) before inst = Inr inst1"
  shows "merge_cache_data env now fis (Some m) inst = Inl Null_Deref"
proof -
  have "cache_results env now fis items inst1 = Inl Null_Deref"
    using assms(1,2) by (cases items) (simp_all add: cache_results_def new_item_def)
  then show ?thesis using assms(3,4) by (simp add: merge_cache_data_def fold_res_append)
qed

section \<open>The service of the unit test\<close>

text \<open>\<open>RedisDataService\<close>: three keys, fetched in batches of two, and a parse function that accepts all.\<close>

definition test_client :: "unit redis_client" where
  "test_client = \<lparr>url = ''127.0.0.1:6379'', lb = [], time_out = 50, max_retry = 0, cfg_pool_size = 50,
     channel_pool_vec = [], pool_index = 0\<rparr>"

definition test_env_of :: "'c redis_client \<Rightarrow> bool \<Rightarrow> ((string \<times> string \<times> int) list, 'c) service_env" where
  "test_env_of cl multi = init_redis_conf
     \<lparr>clients = [''test_redis'' \<mapsto> cl], key_func_map = Map.empty, parse_func_map = Map.empty,
      shm = table_shm, own_context = Inr (Some ''RedisDataService''), uncompress = (\<lambda>v n. (False, [])),
      slot_order = id, data_order = id, result_order = id,
      enable_paral_parse = True, enable_multi_get = multi, batch_size = 2, fatal_aborts = False\<rparr>"

abbreviation test_env :: "((string \<times> string \<times> int) list, unit) service_env" where
  "test_env \<equiv> test_env_of test_client True"

definition test_conf :: conf_tree where
  "test_conf = Obj [(''class'', Text ''RedisDataService''), (''fetch_infos'', Objs [Obj
     [(''prefix'', Text ''{key}_''), (''postfix'', Text []), (''redis_client_id'', Text ''test_redis''),
      (''key_gen_func'', Text ''test_key_gen''), (''response_func'', Text ''test_response''),
      (''compress'', Text []), (''use_cache'', Flag True), (''expire_time_s'', Num 600)]])]"

definition test_info :: fetch_info where
  "test_info = new_fetch_info\<lparr>prefix := ''{key}_'', redis_client_id := ''test_redis'',
     key_gen_func := ''test_key_gen'', response_func := ''test_response'', use_cache := True, expire_time := 600\<rparr>"

lemma test_init: "redis_init (tree_hocon []) (\<lambda>_. Inr ()) test_conf [] = Inr [test_info]"
  by (simp add: redis_init_def tree_hocon_def test_conf_def add_fetch_info_def get_or_def test_info_def new_fetch_info_def)

definition test_keys :: "string list" where
  "test_keys = [''{key}_1'', ''{key}_2'', ''{key}_3'']"

definition test_fis :: "fetch_info list" where
  "test_fis = [test_info\<lparr>keys := test_keys, fi_id := ''0''\<rparr>]"

lemma test_env_fields [simp]:
  "clients (test_env_of cl multi) = [''test_redis'' \<mapsto> cl]"
  "key_func_map (test_env_of cl multi) = [''test_key_gen'' \<mapsto> test_key_gen]"
  "parse_func_map (test_env_of cl multi) = [''test_response'' \<mapsto> test_response]" "shm (test_env_of cl multi) = table_shm"
  "own_context (test_env_of cl multi) = Inr (Some ''RedisDataService'')" "slot_order (test_env_of cl multi) = id"
  "data_order (test_env_of cl multi) = id" "result_order (test_env_of cl multi) = id" "enable_paral_parse (test_env_of cl multi)"
  "enable_multi_get (test_env_of cl multi) = multi" "batch_size (test_env_of cl multi) = 2" "\<not> fatal_aborts (test_env_of cl multi)"
  by (simp_all add: test_env_of_def init_redis_conf_def register_parse_func_def register_key_func_def umap_insert_def)

lemma test_plan: "batch_plan test_env (length test_keys) = Inr (2, 2)"
  by code_simp

lemma test_starts: "batch_starts (length test_keys) 2 0 = [0, 2]"
  by (simp add: test_keys_def batch_starts.simps)

theorem batches_partition_witness:
  "concat (map (\<lambda>i. take 2 (drop i test_keys)) [0, 2]) = test_keys \<and> length [0, 2 :: nat] = 2"
proof -
  have "test_keys \<noteq> []" by (simp add: test_keys_def)
  from batches_partition [OF test_plan this] show ?thesis unfolding test_starts by blast
qed

definition test_db :: "string \<Rightarrow> string option" where
  "test_db k = (if k = ''{key}_1'' then Some ''one'' else if k = ''{key}_3'' then Some ''three'' else None)"

lemma test_info_fields [simp]:
  "keys (test_fis ! 0) = test_keys" "use_cache (test_fis ! 0)" "expire_time (test_fis ! 0) = 600"
  "response_func (test_fis ! 0) = ''test_response''" "compress (test_fis ! 0) = []"
  by (simp_all add: test_fis_def test_info_def new_fetch_info_def)

lemma test_parses_all: "parses_all test_env (test_fis ! 0)"
  by (simp add: parses_all_def get_parse_func_def test_response_def)

abbreviation test_cntl :: cntl where
  "test_cntl \<equiv> \<lparr>failed = False, error_text = []\<rparr>"

theorem parse_each_key_witness:
  "\<exists>item calls.
     callback_item test_env test_fis 0 0 2 test_cntl
       (Some [Array_Reply [String_Reply ''one'', Nil_Reply]]) 2 new_item = Inr (item (0 :: nat), calls (0 :: nat)) \<and>
     map (\<lambda>c. (pc_key c, pc_data c)) (calls 0 @ calls 2) =
     [(''{key}_1'', Some ''one''), (''{key}_2'', None), (''{key}_3'', Some ''three'')]"
proof -
  have "keys (test_fis ! 0) \<noteq> []" by (simp add: test_keys_def)
  from parse_each_key [where ctl = test_cntl and db = test_db, OF test_parses_all _ this] test_plan
  obtain item calls where c: "\<forall>i\<in>set (batch_starts (length test_keys) 2 0).
       callback_item test_env test_fis 0 i 2 test_cntl
         (Some (answers True test_db (take 2 (drop i test_keys)))) 2 new_item = Inr (item i, calls i)"
    "map (\<lambda>c. (pc_key c, pc_data c)) (concat (map calls (batch_starts (length test_keys) 2 0))) =
      map (\<lambda>k. (k, test_db k)) test_keys"
    by (simp, blast)
  have "answers True test_db (take 2 (drop 0 test_keys)) = [Array_Reply [String_Reply ''one'', Nil_Reply]]"
    by (simp add: answers_def test_keys_def test_db_def value_reply_def)
  moreover note c [unfolded test_starts]
  ultimately show ?thesis
    by (intro exI [of _ item] exI [of _ calls]) (simp add: test_keys_def test_db_def)
qed

text \<open>One batch of two keys, of which redis has one, is merged into an empty cache.\<close>

definition test_item :: redis_result_item where
  "test_item = new_item\<lparr>item_info := Some 0, result_str_vec := [Some ''one'', None], result_str_len_vec := [3, 0],
     code := 0\<rparr>"

lemma test_results_ok: "result_map_ok test_fis test_db [(''0'', [test_item])]"
  by (simp add: result_map_ok_def agrees_def test_item_def new_item_def test_keys_def test_db_def value_size_def)

theorem cache_sound_witness:
  "\<exists>inst' found miss_keys.
     merge_cache_data test_env 0 test_fis (Some [(''0'', [test_item])]) (Some \<lparr>ctx = Some [], init_status = Some 0\<rparr>) =
       Inr inst' \<and>
     get_from_cache test_env 100 test_keys 0 [] inst' =
       Inr (miss_keys, if found \<noteq> [] then [\<lparr>data_map = found, cache_info = 0\<rparr>] else [], inst') \<and>
     fst ` set found \<union> set miss_keys = set test_keys"
proof -
  have c: "coherent (shm test_env) [] test_db" by (simp add: coherent_def table_shm_def)
  have r: "ready (Some \<lparr>ctx = Some [], init_status = Some 0\<rparr>) []" by (simp add: ready_def)
  have m: "shm_stores (shm test_env)" by (simp add: table_shm_stores)
  have o: "set (result_order test_env [(''0'', [test_item])]) = set [(''0'', [test_item])]" by simp
  from cache_sound [OF m r c test_results_ok o, of 0 100 test_keys 0 "[]"]
  obtain inst' found miss_keys where
    "merge_cache_data test_env 0 test_fis (Some [(''0'', [test_item])]) (Some \<lparr>ctx = Some [], init_status = Some 0\<rparr>) =
       Inr inst'"
    "get_from_cache test_env 100 test_keys 0 [] inst' =
       Inr (miss_keys, if found \<noteq> [] then [] @ [\<lparr>data_map = found, cache_info = 0\<rparr>] else [], inst')"
    "fst ` set found \<union> set miss_keys = set test_keys"
    by blast
  then show ?thesis by (intro exI [of _ inst'] exI [of _ found] exI [of _ miss_keys]) simp
qed

lemma empty_reply_crashes_example:
  "callback_item test_env test_fis 0 0 2 \<lparr>failed = False, error_text = []\<rparr> (Some []) 2 new_item = Inl Null_Deref"
  by (rule empty_reply_crashes) simp

lemma unsent_batch_crashes_example:
  "merge_cache_data test_env 0 test_fis (Some [(''0'', [new_item, new_item])]) None = Inl Null_Deref"
  by (rule unsent_batch_crashes [where before = "[]" and rest = "[]" and i = "''0''"]) simp_all

end
