(* ===== verification/RedisKeys.thy ===== *)
theory RedisKeys
  imports RedisReplySpec
begin

text \<open>
  The keys of a request: each \<open>FetchInfo\<close> ends up with keys of one slot, so that its batches can be sent to
  one node of the cluster, and no key is lost. Since the \<open>FetchInfo\<close>s are members of the node, the
  keys of one request are still there in the next one.
\<close>

section \<open>Groups of one slot\<close>

definition one_slot :: "string list \<Rightarrow> bool" where
  "one_slot ks \<longleftrightarrow> (\<forall>k\<in>set ks. \<forall>k'\<in>set ks. key_slot k = key_slot k')"

definition orders_ok :: "('m, 'c) service_env \<Rightarrow> bool" where
  \<comment> \<open>the iteration of an unordered map meets every entry once\<close>
  "orders_ok env \<longleftrightarrow> (\<forall>m. mset (slot_order env m) = mset m)"

lemma push_key_groups:
  assumes "\<forall>(s, ks)\<in>set m. ks \<noteq> [] \<and> (\<forall>k\<in>set ks. key_slot k = s)"
  shows "\<forall>(s, ks)\<in>set (push_key (key_slot key) key m). ks \<noteq> [] \<and> (\<forall>k\<in>set ks. key_slot k = s)"
  using assms by (induction "key_slot key" key m rule: push_key.induct) auto

lemma push_key_mset:
  "(\<Sum>x\<leftarrow>push_key s key m. mset (snd x)) = add_mset key (\<Sum>x\<leftarrow>m. mset (snd x))"
  by (induction s key m rule: push_key.induct) auto

lemma slot_keys_map_spec:
  "(\<forall>(s, ks')\<in>set (slot_keys_map ks). ks' \<noteq> [] \<and> (\<forall>k\<in>set ks'. key_slot k = s)) \<and>
   (\<Sum>x\<leftarrow>slot_keys_map ks. mset (snd x)) = mset ks"
proof -
  have "(\<forall>(s, ks')\<in>set (fold (\<lambda>key. push_key (key_slot key) key) ks m). ks' \<noteq> [] \<and> (\<forall>k\<in>set ks'. key_slot k = s)) \<and>
      (\<Sum>x\<leftarrow>fold (\<lambda>key. push_key (key_slot key) key) ks m. mset (snd x)) = (\<Sum>x\<leftarrow>m. mset (snd x)) + mset ks"
    if "\<forall>(s, ks')\<in>set m. ks' \<noteq> [] \<and> (\<forall>k\<in>set ks'. key_slot k = s)" for m
    using that
  proof (induction ks arbitrary: m)
    case (Cons k ks)
    from Cons.IH [OF push_key_groups [OF Cons.prems, of k]]
    show ?case by (simp add: push_key_mset)
  qed simp
  from this [of "[]"] show ?thesis by (simp add: slot_keys_map_def)
qed

lemma slot_groups:
  assumes "orders_ok env" and "ks \<noteq> []"
  obtains s ks1 rest where "slot_order env (slot_keys_map ks) = (s, ks1) # rest"
    and "mset ks1 + (\<Sum>x\<leftarrow>rest. mset (snd x)) = mset ks"
    and "one_slot ks1" and "\<forall>x\<in>set rest. one_slot (snd x)"
proof -
  let ?o = "slot_order env (slot_keys_map ks)"
  have o: "mset ?o = mset (slot_keys_map ks)" using assms(1) by (simp add: orders_ok_def)
  have sum: "(\<Sum>x\<leftarrow>?o. mset (snd x)) = mset ks"
  proof -
    have "(\<Sum>x\<leftarrow>?o. mset (snd x)) = (\<Sum>x\<leftarrow>slot_keys_map ks. mset (snd x))"
      using arg_cong [OF o, of "\<lambda>M. \<Sum>\<^sub># (image_mset (\<lambda>x. mset (snd x)) M)"]
      by (simp only: mset_map [symmetric] sum_mset_sum_list)
    then show ?thesis using conjunct2 [OF slot_keys_map_spec [of ks]] by simp
  qed
  have one: "one_slot (snd x)" if "x \<in> set ?o" for x
  proof -
    obtain s ks' where x: "x = (s, ks')" by force
    then have "(s, ks') \<in> set (slot_keys_map ks)" using that mset_eq_setD [OF o] by simp
    then have "\<forall>k\<in>set ks'. key_slot k = s" using conjunct1 [OF slot_keys_map_spec [of ks]] by blast
    then show ?thesis by (simp add: one_slot_def x)
  qed
  show thesis
  proof (cases ?o)
    case Nil
    then show ?thesis using sum assms(2) by simp
  next
    case (Cons x rest)
    obtain s ks1 where "x = (s, ks1)" by force
    with Cons sum one [of x] one that show ?thesis by auto
  qed
qed

section \<open>One FetchInfo\<close>

definition known_client :: "('m, 'c) service_env \<Rightarrow> fetch_info \<Rightarrow> bool" where
  "known_client env info \<longleftrightarrow> get_client (redis_client_id info) (clients env) \<noteq> None"

definition routable :: "('m, 'c) service_env \<Rightarrow> fetch_info \<Rightarrow> bool" where
  \<comment> \<open>its keys can be sent to one node\<close>
  "routable env info \<longleftrightarrow> (known_client env info \<longrightarrow> one_slot (keys info))"

definition generated :: "('m, 'c) service_env \<Rightarrow> fetch_info \<Rightarrow> string list" where
  \<comment> \<open>the keys of a \<open>FetchInfo\<close> after its generator ran\<close>
  "generated env info =
     (case key_func_map env (key_gen_func info) of
        None \<Rightarrow> keys info
      | Some f \<Rightarrow> (case f (keys info) (prefix info) (postfix info) of Inl _ \<Rightarrow> [] | Inr ks \<Rightarrow> ks))"

abbreviation with_keys :: "fetch_info \<Rightarrow> string list \<Rightarrow> fetch_info" where
  "with_keys info ks \<equiv> info\<lparr>keys := ks\<rparr>"

definition look_first :: "('m, 'c) service_env \<Rightarrow> int \<Rightarrow> info_ptr \<Rightarrow> bool \<Rightarrow> string list \<Rightarrow> 'm making \<Rightarrow> 'm making res" where
  \<comment> \<open>the keys are looked up in the cache, if the \<open>FetchInfo\<close> says so\<close>
  "look_first env now p cached all_keys st =
     (if cached
      then bind_res (get_from_cache env now all_keys p (cache_data_vec st) (cache st))
        (\<lambda>(miss_keys, cdv, inst). Inr (set_keys p miss_keys (st\<lparr>cache_data_vec := cdv, cache := inst\<rparr>)))
      else Inr st)"

lemma look_first_keys:
  assumes "look_first env now p cached all_keys (set_keys p all_keys st) = Inr st2" and "p < length (infos st)"
  obtains ks where "infos st2 = (infos st)[p := with_keys (infos st ! p) ks]" and "added st2 = added st"
    and "\<not> cached \<Longrightarrow> ks = all_keys"
proof (cases cached)
  case True
  then obtain miss cdv inst where
    "st2 = set_keys p miss ((set_keys p all_keys st)\<lparr>cache_data_vec := cdv, cache := inst\<rparr>)"
    using assms(1) by (auto simp: look_first_def res_simps)
  then show thesis using that [of miss] True assms(2) by (simp add: set_keys_def)
next
  case False
  then show thesis using that [of all_keys] assms by (auto simp: look_first_def set_keys_def)
qed

lemma make_up_info_parts:
  fixes env :: "('m, 'c) service_env" and st :: "'m making"
  assumes mk: "make_up_info env now p st = Inr st'" and p: "p < length (infos st)"
  defines "info \<equiv> infos st ! p"
  obtains (no_func) "key_func_map env (key_gen_func info) = None" "st' = st"
    | (no_keys) "generated env info = []" "st' = set_keys p [] st"
    | (kept) st2 ks where "infos st2 = (infos st)[p := with_keys info ks]" "added st2 = added st"
      "\<not> use_cache info \<longrightarrow> ks = generated env info" "ks = [] \<or> \<not> known_client env info" "st' = st2"
    | (spread) st2 ks where "infos st2 = (infos st)[p := with_keys info ks]" "added st2 = added st"
      "\<not> use_cache info \<longrightarrow> ks = generated env info" "ks \<noteq> []" "st' = spread_slots env p ks st2"
proof (cases "key_func_map env (key_gen_func info)")
  case None
  then have "st' = st" using mk by (simp add: make_up_info_def Let_def info_def)
  with None show ?thesis by (rule no_func)
next
  case (Some f)
  obtain all_keys where ak: "f (keys info) (prefix info) (postfix info) = Inr all_keys"
    using mk Some by (auto simp: make_up_info_def Let_def res_simps info_def)
  have gen: "generated env info = all_keys" using Some ak by (simp add: generated_def)
  show ?thesis
  proof (cases "all_keys = []")
    case True
    then have "st' = set_keys p [] st" using mk Some ak by (auto simp: make_up_info_def Let_def info_def)
    with True gen show ?thesis by (intro no_keys) simp_all
  next
    case False
    let ?rest = "\<lambda>st2 :: 'm making. let ks = keys (infos st2 ! p)
         in if ks = [] then Inr st2 :: 'm making res
            else case get_client (redis_client_id info) (clients env) of
                   None \<Rightarrow> Inr st2 | Some _ \<Rightarrow> Inr (spread_slots env p ks st2)"
    have "bind_res (look_first env now p (use_cache info) all_keys (set_keys p all_keys st)) ?rest = Inr st'"
      using mk Some ak False
      by (simp only: make_up_info_def look_first_def Let_def option.case bind_res_simps if_False info_def)
    then obtain st2 where st2: "look_first env now p (use_cache info) all_keys (set_keys p all_keys st) = Inr st2"
      and rest: "?rest st2 = Inr st'" by (rule bind_res_InrE)
    obtain ks where i2: "infos st2 = (infos st)[p := with_keys info ks]" and a2: "added st2 = added st"
      and c2: "\<not> use_cache info \<longrightarrow> ks = all_keys" using look_first_keys [OF st2 p] by (auto simp: info_def)
    have "keys (infos st2 ! p) = ks" using i2 p by simp
    then have end': "if ks = [] \<or> \<not> known_client env info then st' = st2 else st' = spread_slots env p ks st2"
      using rest by (auto simp: known_client_def split: option.splits)
    have c2': "\<not> use_cache info \<longrightarrow> ks = generated env info" using c2 gen by simp
    show ?thesis
    proof (cases "ks = [] \<or> \<not> known_client env info")
      case True
      with end' kept [OF i2 a2 c2'] show ?thesis by simp
    next
      case False
      with end' spread [OF i2 a2 c2'] show ?thesis by simp
    qed
  qed
qed

lemma make_up_info_step:
  fixes env :: "('m, 'c) service_env" and st :: "'m making"
  assumes mk: "make_up_info env now p st = Inr st'" and "orders_ok env" and p: "p < length (infos st)"
  shows "\<exists>ks groups. infos st' = (infos st)[p := with_keys (infos st ! p) ks] \<and>
    added st' = added st @ map (\<lambda>g. (with_keys (infos st ! p) g)\<lparr>fi_id := []\<rparr>) groups \<and>
    (routable env (infos st ! p) \<longrightarrow> (known_client env (infos st ! p) \<longrightarrow> one_slot ks)) \<and>
    (\<forall>g\<in>set groups. one_slot g) \<and>
    (\<not> use_cache (infos st ! p) \<longrightarrow> mset ks + (\<Sum>g\<leftarrow>groups. mset g) = mset (generated env (infos st ! p)))"
    (is "\<exists>ks groups. ?R ks groups")
  using mk p
proof (cases rule: make_up_info_parts)
  case no_func
  then have "?R (keys (infos st ! p)) []" by (simp add: routable_def generated_def)
  then show ?thesis by blast
next
  case no_keys
  then have "?R [] []" using p by (simp add: set_keys_def one_slot_def)
  then show ?thesis by blast
next
  case (kept st2 ks)
  then have "?R ks []" by (auto simp: one_slot_def)
  then show ?thesis by blast
next
  case (spread st2 ks)
  obtain s ks1 more where g: "slot_order env (slot_keys_map ks) = (s, ks1) # more"
    "mset ks1 + (\<Sum>x\<leftarrow>more. mset (snd x)) = mset ks" "one_slot ks1" "\<forall>x\<in>set more. one_slot (snd x)"
    using slot_groups [OF assms(2) spread(4)] by blast
  have "?R ks1 (map snd more)" using g spread p
    by (auto simp: spread_slots_def set_keys_def Let_def comp_def case_prod_beta)
  then show ?thesis by blast
qed

section \<open>All FetchInfos\<close>

definition config_of :: "fetch_info \<Rightarrow> fetch_info" where
  "config_of info = info\<lparr>keys := [], fi_id := []\<rparr>"

lemma config_of_simps [simp]:
  "config_of (with_keys info ks) = config_of info" "config_of (info\<lparr>fi_id := i\<rparr>) = config_of info"
  by (simp_all add: config_of_def)

definition all_keys :: "fetch_info list \<Rightarrow> string multiset" where
  "all_keys fis = (\<Sum>info\<leftarrow>fis. mset (keys info))"

lemma all_keys_simps [simp]:
  "all_keys [] = {#}" "all_keys (x # xs) = mset (keys x) + all_keys xs"
  "all_keys (xs @ ys) = all_keys xs + all_keys ys"
  by (simp_all add: all_keys_def)

lemma all_keys_update:
  "p < length fis \<Longrightarrow> all_keys (fis[p := info]) + mset (keys (fis ! p)) = all_keys fis + mset (keys info)"
proof (induction fis arbitrary: p)
  case (Cons a fis)
  then show ?case by (cases p) (auto simp: ac_simps)
qed simp

text \<open>What the loop has done after its first \<open>m\<close> rounds.\<close>

definition made_up :: "('m, 'c) service_env \<Rightarrow> fetch_info list \<Rightarrow> nat \<Rightarrow> 'm making \<Rightarrow> bool" where
  "made_up env fis m st \<longleftrightarrow>
     length (infos st) = length fis \<and>
     (\<forall>p<length fis. m \<le> p \<longrightarrow> infos st ! p = fis ! p) \<and>
     (\<forall>p<m. routable env (fis ! p) \<longrightarrow> routable env (infos st ! p)) \<and>
     (\<forall>info\<in>set (added st). one_slot (keys info)) \<and>
     config_of ` set (infos st @ added st) \<subseteq> config_of ` set fis \<and>
     ((\<forall>info\<in>set fis. \<not> use_cache info) \<longrightarrow>
        all_keys (infos st) + all_keys (added st) + all_keys (take m fis) =
        all_keys fis + (\<Sum>info\<leftarrow>take m fis. mset (generated env info)))"

lemma made_up_configs:
  assumes cf: "config_of ` set (infos st @ added st) \<subseteq> config_of ` set fis" and m: "m < length fis"
    and st': "infos st' = (infos st)[m := with_keys (fis ! m) ks]"
      "added st' = added st @ map (\<lambda>g. (with_keys (fis ! m) g)\<lparr>fi_id := []\<rparr>) groups"
  shows "config_of ` set (infos st' @ added st') \<subseteq> config_of ` set fis"
proof -
  have c: "config_of (fis ! m) \<in> config_of ` set fis" using m by simp
  have "set (infos st') \<subseteq> insert (with_keys (fis ! m) ks) (set (infos st))"
    unfolding st'(1) by (rule set_update_subset_insert)
  then have "config_of ` set (infos st') \<subseteq> insert (config_of (fis ! m)) (config_of ` set (infos st))"
    by (auto dest!: subsetD)
  moreover have "config_of ` set (infos st) \<subseteq> config_of ` set fis" using cf by (simp add: image_Un)
  ultimately have "config_of ` set (infos st') \<subseteq> config_of ` set fis" using c by (meson insert_subset subset_trans)
  moreover have "config_of ` set (added st') \<subseteq> config_of ` set fis" using cf st'(2) m by (auto simp: image_Un)
  ultimately show ?thesis by (simp add: image_Un)
qed

lemma made_up_keys:
  assumes sum: "all_keys (infos st) + all_keys (added st) + all_keys (take m fis) =
        all_keys fis + (\<Sum>info\<leftarrow>take m fis. mset (generated env info))"
    and m: "m < length fis" "length (infos st) = length fis" "infos st ! m = fis ! m"
    and st': "infos st' = (infos st)[m := with_keys (fis ! m) ks]"
      "added st' = added st @ map (\<lambda>g. (with_keys (fis ! m) g)\<lparr>fi_id := []\<rparr>) groups"
    and g: "mset ks + (\<Sum>g\<leftarrow>groups. mset g) = mset (generated env (fis ! m))"
  shows "all_keys (infos st') + all_keys (added st') + all_keys (take (Suc m) fis) =
        all_keys fis + (\<Sum>info\<leftarrow>take (Suc m) fis. mset (generated env info))"
proof -
  let ?S = "\<Sum>g\<leftarrow>groups. mset g"
  have a: "all_keys (added st') = all_keys (added st) + ?S"
    unfolding st'(2) by (simp, induction groups) simp_all
  have i: "all_keys (infos st') + mset (keys (fis ! m)) = all_keys (infos st) + mset ks"
    using all_keys_update [of m "infos st" "with_keys (fis ! m) ks"] m st'(1) by simp
  have "all_keys (infos st') + all_keys (added st') + all_keys (take (Suc m) fis) =
      (all_keys (infos st') + mset (keys (fis ! m))) + (all_keys (added st) + ?S + all_keys (take m fis))"
    using m by (simp add: a take_Suc_conv_app_nth ac_simps)
  also have "\<dots> = (all_keys (infos st) + all_keys (added st) + all_keys (take m fis)) + (mset ks + ?S)"
    by (simp add: i ac_simps)
  also have "\<dots> = all_keys fis + (\<Sum>info\<leftarrow>take (Suc m) fis. mset (generated env info))"
    using m unfolding sum g by (simp add: take_Suc_conv_app_nth ac_simps)
  finally show ?thesis .
qed

lemma made_up_step:
  assumes "made_up env fis m st" and "make_up_info env now m st = Inr st'" and "orders_ok env" and m: "m < length fis"
  shows "made_up env fis (Suc m) st'"
proof -
  have len: "length (infos st) = length fis" and same: "\<And>p. p < length fis \<Longrightarrow> m \<le> p \<Longrightarrow> infos st ! p = fis ! p"
    and rt: "\<And>p. p < m \<Longrightarrow> routable env (fis ! p) \<Longrightarrow> routable env (infos st ! p)"
    and ad: "\<And>info. info \<in> set (added st) \<Longrightarrow> one_slot (keys info)"
    and cf: "config_of ` set (infos st @ added st) \<subseteq> config_of ` set fis"
    and sum: "\<forall>info\<in>set fis. \<not> use_cache info \<Longrightarrow>
        all_keys (infos st) + all_keys (added st) + all_keys (take m fis) =
        all_keys fis + (\<Sum>info\<leftarrow>take m fis. mset (generated env info))"
    using assms(1) by (simp_all add: made_up_def)
  have mi: "infos st ! m = fis ! m" using same m by simp
  obtain ks groups where st': "infos st' = (infos st)[m := with_keys (fis ! m) ks]"
    "added st' = added st @ map (\<lambda>g. (with_keys (fis ! m) g)\<lparr>fi_id := []\<rparr>) groups"
    "routable env (fis ! m) \<longrightarrow> (known_client env (fis ! m) \<longrightarrow> one_slot ks)" "\<forall>g\<in>set groups. one_slot g"
    "\<not> use_cache (fis ! m) \<longrightarrow> mset ks + (\<Sum>g\<leftarrow>groups. mset g) = mset (generated env (fis ! m))"
    using make_up_info_step [OF assms(2,3)] len m unfolding mi by auto
  have "routable env (with_keys (fis ! m) ks)" if "routable env (fis ! m)"
    using st'(3) that by (simp add: routable_def known_client_def)
  then have "\<forall>p<Suc m. routable env (fis ! p) \<longrightarrow> routable env (infos st' ! p)"
    using rt st'(1) len m by (auto simp: less_Suc_eq nth_list_update)
  moreover have "\<forall>info\<in>set (added st'). one_slot (keys info)" using ad st'(2,4) by auto
  moreover have "config_of ` set (infos st' @ added st') \<subseteq> config_of ` set fis"
    by (rule made_up_configs [OF cf m st'(1,2)])
  moreover have "all_keys (infos st') + all_keys (added st') + all_keys (take (Suc m) fis) =
        all_keys fis + (\<Sum>info\<leftarrow>take (Suc m) fis. mset (generated env info))"
    if nc: "\<forall>info\<in>set fis. \<not> use_cache info"
    by (rule made_up_keys [OF sum [OF nc] m len mi st'(1,2)]) (use st'(5) nc m in simp)
  ultimately show ?thesis using len same st'(1) unfolding made_up_def by simp
qed

lemma make_up_spec:
  assumes "make_up_fetch_info_vec env now fis inst = Inr (fis', cdv, inst')" and "orders_ok env"
  obtains st where "fis' = number_infos (infos st @ added st)" and "made_up env fis (length fis) st"
proof -
  let ?st0 = "\<lparr>infos = fis, added = [], cache_data_vec = [], cache = inst\<rparr>"
  obtain st where st: "fold_res (make_up_info env now) [0..<length fis] ?st0 = Inr st"
    "fis' = number_infos (infos st @ added st)"
    using assms(1) by (auto simp: make_up_fetch_info_vec_def res_simps)
  have made: "made_up env fis m u" if "fold_res (make_up_info env now) [0..<m] ?st0 = Inr u" "m \<le> length fis" for m u
    using that
  proof (induction m arbitrary: u)
    case 0
    then show ?case by (auto simp: made_up_def)
  next
    case (Suc m)
    then obtain v where "fold_res (make_up_info env now) [0..<m] ?st0 = Inr v" "make_up_info env now m v = Inr u"
      by (auto simp: fold_res_append res_simps)
    with Suc show ?case using made_up_step [OF _ _ assms(2), of fis m v now u] by simp
  qed
  show thesis by (rule that [OF st(2) made [OF st(1) order_refl]])
qed

lemma number_infos_nth: "i < length fis \<Longrightarrow> number_infos fis ! i = (fis ! i)\<lparr>fi_id := to_string i\<rparr>"
  by (simp add: number_infos_def)

lemma all_keys_number [simp]: "all_keys (number_infos fis) = all_keys fis"
proof -
  have "map (\<lambda>info. mset (keys info)) (number_infos fis) = map (\<lambda>info. mset (keys info)) fis"
    by (rule nth_equalityI) (simp_all add: number_infos_def)
  then show ?thesis by (simp only: all_keys_def)
qed

lemma to_string_inj: "to_string m = to_string n \<longleftrightarrow> m = n"
proof
  assume "to_string m = to_string n"
  then have "digits_value (to_string m) = digits_value (to_string n)" by (rule arg_cong)
  then show "m = n" using conjunct2 [OF conjunct2 [OF to_string_props]] by simp
qed simp

lemma no_cache_keys:
  assumes "make_up_fetch_info_vec env now fis inst = Inr (fis', cdv, inst')" and "orders_ok env"
    and "\<forall>info\<in>set fis. \<not> use_cache info"
  shows "all_keys fis' = (\<Sum>info\<leftarrow>fis. mset (generated env info))"
proof -
  obtain st where "fis' = number_infos (infos st @ added st)" "made_up env fis (length fis) st"
    using make_up_spec [OF assms(1,2)] .
  then show ?thesis using assms(3) by (simp add: made_up_def)
qed

section \<open>Properties\<close>

text \<open>C21: What a \<open>FetchInfo\<close> is good for: if the keys of every \<open>FetchInfo\<close> of a known client share a slot before a
  request (a new node has none), then they do so again when they have been generated, looked up
  in the cache and spread; ids are the positions, and thus different; and every \<open>FetchInfo\<close> has the
  configuration of one that was there.\<close>

theorem routable_kept:
  assumes "make_up_fetch_info_vec env now fis inst = Inr (fis', cdv, inst')" and "orders_ok env"
    and "\<And>info. info \<in> set fis \<Longrightarrow> routable env info"
  shows "(\<forall>info\<in>set fis'. routable env info) \<and> map fi_id fis' = map to_string [0..<length fis'] \<and>
    distinct (map fi_id fis') \<and> config_of ` set fis' \<subseteq> config_of ` set fis"
proof -
  obtain st where st: "fis' = number_infos (infos st @ added st)" "made_up env fis (length fis) st"
    using make_up_spec [OF assms(1,2)] .
  let ?all = "infos st @ added st"
  have "routable env info" if "info \<in> set ?all" for info
  proof (cases "info \<in> set (added st)")
    case True
    then show ?thesis using st(2) by (simp add: made_up_def routable_def)
  next
    case False
    then have "info \<in> set (infos st)" using that by simp
    then obtain p where "p < length (infos st)" "info = infos st ! p" by (metis in_set_conv_nth)
    then show ?thesis using st(2) assms(3) by (simp add: made_up_def)
  qed
  then have "routable env (number_infos ?all ! i)" if "i < length ?all" for i
    using that number_infos_nth [OF that] nth_mem [OF that] by (simp add: routable_def known_client_def del: nth_mem)
  moreover have len: "length fis' = length ?all" by (simp add: st(1) number_infos_def)
  ultimately have "\<forall>info\<in>set fis'. routable env info" unfolding st(1) by (metis in_set_conv_nth st(1))
  moreover have ids: "map fi_id fis' = map to_string [0..<length fis']"
    using len by (simp add: st(1) number_infos_def)
  moreover have "distinct (map fi_id fis')" unfolding ids by (simp add: distinct_map inj_on_def to_string_inj)
  moreover have "config_of ` set fis' \<subseteq> config_of ` set ?all"
    by (auto simp: st(1) number_infos_def simp del: set_append)
  moreover have "config_of ` set ?all \<subseteq> config_of ` set fis" using st(2) by (simp add: made_up_def)
  ultimately show ?thesis using subset_trans by blast
qed

text \<open>C37: No key is lost or doubled when the \<open>FetchInfo\<close>s are split: without a cache, the keys to be fetched
  are those the generators left, each as often as they say.\<close>

theorem keys_conserved:
  assumes "make_up_fetch_info_vec env now fis inst = Inr (fis', cdv, inst')" and "orders_ok env"
    and "\<And>info. info \<in> set fis \<Longrightarrow> \<not> use_cache info"
  shows "all_keys fis' = (\<Sum>info\<leftarrow>fis. mset (generated env info))"
  using no_cache_keys [OF assms(1,2)] assms(3) by blast

text \<open>C38: Requests accumulate: the vector that is made up is the member of the node, so with a generator that
  appends its keys, as the one of the unit test does, a request fetches the keys of the request
  before it again, and at least one more for each \<open>FetchInfo\<close>.\<close>

theorem requests_accumulate:
  assumes "make_up_fetch_info_vec env now fis inst = Inr (fis', cdv, inst')" and "orders_ok env"
    and "\<And>info. info \<in> set fis \<Longrightarrow> \<not> use_cache info"
    and "\<And>info. info \<in> set fis \<Longrightarrow> \<exists>new. new \<noteq> [] \<and> generated env info = keys info @ new"
  shows "all_keys fis \<subseteq># all_keys fis' \<and> size (all_keys fis) + length fis \<le> size (all_keys fis')"
proof -
  have "all_keys xs \<subseteq># (\<Sum>info\<leftarrow>xs. mset (generated env info)) \<and>
      size (all_keys xs) + length xs \<le> size (\<Sum>info\<leftarrow>xs. mset (generated env info))"
    if "\<forall>info\<in>set xs. \<exists>new. new \<noteq> [] \<and> generated env info = keys info @ new" for xs
    using that
  proof (induction xs)
    case (Cons info xs)
    then obtain new where new: "new \<noteq> []" "generated env info = keys info @ new" by auto
    then have "1 \<le> length new" by (cases new) auto
    moreover have "mset (keys info) \<subseteq># mset (generated env info)" using new by simp
    moreover have "all_keys xs \<subseteq># (\<Sum>info\<leftarrow>xs. mset (generated env info))" using Cons by simp
    ultimately have "all_keys (info # xs) \<subseteq># (\<Sum>info\<leftarrow>info # xs. mset (generated env info))"
      by (simp del: set_mset_mset) (rule subset_mset.add_mono)
    then show ?case using Cons new \<open>1 \<le> length new\<close> by simp
  qed simp
  moreover have "all_keys fis' = (\<Sum>info\<leftarrow>fis. mset (generated env info))"
    using no_cache_keys [OF assms(1,2)] assms(3) by blast
  ultimately show ?thesis using assms(4) by simp
qed

section \<open>The service of the unit test\<close>

text \<open>Its keys share a hash tag. The first request, and the second one with what the first left.\<close>

definition plain_info :: fetch_info where
  "plain_info = test_info\<lparr>use_cache := False\<rparr>"

definition plain_fis :: "string list \<Rightarrow> fetch_info list" where
  "plain_fis ks = [plain_info\<lparr>keys := ks, fi_id := ''0''\<rparr>]"

lemma fold_push_same:
  "\<forall>k\<in>set ks. key_slot k = s \<Longrightarrow>
   fold (\<lambda>key. push_key (key_slot key) key) ks [(s, ks0)] = [(s, ks0 @ ks)]"
  by (induction ks arbitrary: ks0) auto

lemma one_group: "ks \<noteq> [] \<Longrightarrow> \<forall>k\<in>set ks. key_slot k = s \<Longrightarrow> slot_keys_map ks = [(s, ks)]"
  by (cases ks) (auto simp: slot_keys_map_def fold_push_same)

lemma test_slot: "k \<in> set test_keys \<Longrightarrow> key_slot k = unat (ucast (xmodem ''key'') AND 0x3FFF :: 32 word)"
  by (auto simp: test_keys_def key_slot_def GetKeySlot_length hash_part_def)

lemma plain_info_fields [simp]:
  "keys plain_info = []" "prefix plain_info = ''{key}_''" "postfix plain_info = []" "\<not> use_cache plain_info"
  "key_gen_func plain_info = ''test_key_gen''" "redis_client_id plain_info = ''test_redis''" "fi_id plain_info = []"
  by (simp_all add: plain_info_def test_info_def new_fetch_info_def)

lemma request:
  assumes "set ks \<subseteq> set test_keys"
  shows "make_up_fetch_info_vec (test_env_of cl multi) 0 [plain_info\<lparr>keys := ks, fi_id := i\<rparr>] None =
    Inr (plain_fis (ks @ test_keys), [], None)"
proof -
  have "test_key_gen ks ''{key}_'' [] = Inr (ks @ test_keys)" by (simp add: test_key_gen_def test_keys_def)
  moreover have "ks @ test_keys \<noteq> []" by (simp add: test_keys_def)
  moreover from this have "slot_keys_map (ks @ test_keys) =
      [(unat (ucast (xmodem ''key'') AND 0x3FFF :: 32 word), ks @ test_keys)]"
    using assms test_slot by (intro one_group) auto
  moreover have "to_string 0 = ''0''" by code_simp
  ultimately show ?thesis
    by (simp add: make_up_fetch_info_vec_def make_up_info_def set_keys_def spread_slots_def get_client_def
        number_infos_def plain_fis_def Let_def)
qed

lemma first_request:
  "make_up_fetch_info_vec (test_env_of cl multi) 0 [plain_info] None = Inr (plain_fis test_keys, [], None)"
  using request [where ks = "[]" and i = "[]"] by (simp add: plain_info_def test_info_def new_fetch_info_def)

lemma second_request:
  "make_up_fetch_info_vec test_env 0 (plain_fis test_keys) None = Inr (plain_fis (test_keys @ test_keys), [], None)"
  using request [where ks = test_keys and i = "''0''"] by (simp add: plain_fis_def)

lemma test_orders: "orders_ok test_env"
  by (simp add: orders_ok_def)

lemma plain_no_cache: "info \<in> set (plain_info # plain_fis ks) \<Longrightarrow> \<not> use_cache info"
  by (auto simp: plain_fis_def plain_info_def)

lemma plain_generated: "info \<in> set (plain_info # plain_fis ks) \<Longrightarrow> generated test_env info = keys info @ test_keys"
  by (auto simp: plain_fis_def plain_info_def generated_def test_info_def new_fetch_info_def test_key_gen_def test_keys_def)

theorem routable_kept_witness:
  "routable test_env (plain_fis test_keys ! 0) \<and> map fi_id (plain_fis test_keys) = [''0'']"
proof -
  have "routable test_env info" if "info \<in> set [plain_info]" for info
    using that by (simp add: routable_def one_slot_def plain_info_def test_info_def new_fetch_info_def)
  note kept = routable_kept [OF first_request test_orders this]
  have "plain_fis test_keys ! 0 \<in> set (plain_fis test_keys)" by (simp add: plain_fis_def)
  then have "routable test_env (plain_fis test_keys ! 0)" using conjunct1 [OF kept] by blast
  then show ?thesis by (simp add: plain_fis_def)
qed

theorem keys_conserved_witness: "all_keys (plain_fis test_keys) = mset test_keys"
  using keys_conserved [OF first_request test_orders] plain_no_cache plain_generated [of plain_info]
  by (simp add: plain_info_def test_info_def new_fetch_info_def)

theorem requests_accumulate_witness:
  "all_keys (plain_fis test_keys) \<subseteq># all_keys (plain_fis (test_keys @ test_keys)) \<and>
   size (all_keys (plain_fis test_keys)) + 1 \<le> size (all_keys (plain_fis (test_keys @ test_keys)))"
proof -
  have "\<exists>new. new \<noteq> [] \<and> generated test_env info = keys info @ new" if "info \<in> set (plain_fis test_keys)" for info
    using that plain_generated [of info test_keys] by (simp add: test_keys_def)
  moreover have "\<not> use_cache info" if "info \<in> set (plain_fis test_keys)" for info
    using plain_no_cache [of info test_keys] that by simp
  ultimately have "all_keys (plain_fis test_keys) \<subseteq># all_keys (plain_fis (test_keys @ test_keys)) \<and>
      size (all_keys (plain_fis test_keys)) + length (plain_fis test_keys) \<le> size (all_keys (plain_fis (test_keys @ test_keys)))"
    by (intro requests_accumulate [OF second_request test_orders])
  moreover have "length (plain_fis test_keys) = 1" by (simp add: plain_fis_def)
  ultimately show ?thesis by (simp only: simp_thms)
qed

end
