(* ===== verification/RedisJoinCount.thy ===== *)
theory RedisJoinCount
  imports RedisJoin RedisKeys
begin

text \<open>
  The counters and the results of a redis service: what a request has to do, what each kind of step does,
  how \<open>item_size_cond\<close> and \<open>cond\<close> count the batches and the \<open>FetchInfo\<close>s (\<open>counting\<close>), and how the
  callbacks fill in the results (\<open>collected\<close>). \<open>RedisJoinSpec\<close> goes on with the threads.
\<close>

section \<open>What a request has to do\<close>

definition served :: "('m, 'c) service_env \<Rightarrow> fetch_info list \<Rightarrow> info_ptr \<Rightarrow> bool" where
  "served env fis p \<longleftrightarrow> get_client (redis_client_id (fis ! p)) (clients env) \<noteq> None \<and> keys (fis ! p) \<noteq> []"

definition plan :: "('m, 'c) service_env \<Rightarrow> fetch_info list \<Rightarrow> info_ptr \<Rightarrow> nat \<times> nat" where
  "plan env fis p = (case batch_plan env (length (keys (fis ! p))) of Inr x \<Rightarrow> x | Inl _ \<Rightarrow> (0, 1))"

definition starts_of :: "('m, 'c) service_env \<Rightarrow> fetch_info list \<Rightarrow> info_ptr \<Rightarrow> nat list" where
  "starts_of env fis p =
     (if served env fis p then batch_starts (length (keys (fis ! p))) (snd (plan env fis p)) 0 else [])"

definition sent :: "net \<Rightarrow> info_ptr \<Rightarrow> nat \<Rightarrow> bool" where
  "sent net p i \<longleftrightarrow> send_ret net p i \<noteq> -1"

definition outcome ::
  "('m, 'c) service_env \<Rightarrow> net \<Rightarrow> fetch_info list \<Rightarrow> info_ptr \<Rightarrow> nat \<Rightarrow> (redis_result_item \<times> parse_call list) res"
where
  "outcome env net fis p i =
     callback_item env fis p i (snd (plan env fis p)) (fst (answer net p i)) (snd (answer net p i))
       (fst (plan env fis p)) new_item"

definition item_after :: "('m, 'c) service_env \<Rightarrow> net \<Rightarrow> fetch_info list \<Rightarrow> info_ptr \<Rightarrow> nat \<Rightarrow> redis_result_item" where
  "item_after env net fis p i =
     (if sent net p i then (case outcome env net fis p i of Inr (item, _) \<Rightarrow> item | Inl _ \<Rightarrow> new_item) else new_item)"

definition calls_of :: "('m, 'c) service_env \<Rightarrow> net \<Rightarrow> fetch_info list \<Rightarrow> info_ptr \<Rightarrow> nat \<Rightarrow> parse_call list" where
  "calls_of env net fis p i = (case outcome env net fis p i of Inr (_, calls) \<Rightarrow> calls | Inl _ \<Rightarrow> [])"

definition final_results :: "('m, 'c) service_env \<Rightarrow> net \<Rightarrow> fetch_info list \<Rightarrow> redis_result_item list list" where
  "final_results env net fis =
     map (\<lambda>p. map (item_after env net fis p) (starts_of env fis p)) [0..<length fis]"

definition sent_pairs :: "('m, 'c) service_env \<Rightarrow> net \<Rightarrow> fetch_info list \<Rightarrow> info_ptr \<Rightarrow> (info_ptr \<times> nat) list" where
  "sent_pairs env net fis p = map (Pair p) (filter (sent net p) (starts_of env fis p))"

definition all_sent :: "('m, 'c) service_env \<Rightarrow> net \<Rightarrow> fetch_info list \<Rightarrow> (info_ptr \<times> nat) list" where
  "all_sent env net fis = concat (map (sent_pairs env net fis) [0..<length fis])"

text \<open>The conditions: no counter overflows, and neither a callback, nor the merge of the results, nor the
  parsing of the cached data fails.\<close>

definition workable ::
  "('m, 'c) service_env \<Rightarrow> net \<Rightarrow> fetch_info list \<Rightarrow> cache_data_item list \<Rightarrow> 'm cache_manager \<Rightarrow> 'm cache_manager \<Rightarrow> bool"
where
  "workable env net fis cdv inst inst' \<longleftrightarrow>
     fis \<noteq> [] \<and> length fis < 2 ^ 31 \<and>
     (\<forall>p<length fis. length (keys (fis ! p)) < 2 ^ 31) \<and>
     (\<forall>p<length fis. served env fis p \<longrightarrow> batch_plan env (length (keys (fis ! p))) \<in> range Inr) \<and>
     (\<forall>p<length fis. \<forall>i\<in>set (starts_of env fis p). sent net p i \<longrightarrow> outcome env net fis p i \<in> range Inr) \<and>
     merge_cache_data env (merge_time net) fis (Some (zip (map fi_id fis) (final_results env net fis))) inst = Inr inst' \<and>
     snd (parse_cached_data env fis cdv) = None"

lemma workable_plan:
  assumes "workable env net fis cdv inst inst'" and "p < length fis" and "served env fis p"
  shows "batch_plan env (length (keys (fis ! p))) = Inr (plan env fis p)"
    and "starts_of env fis p = map (\<lambda>j. j * snd (plan env fis p)) [0..<fst (plan env fis p)]"
    and "0 < fst (plan env fis p)" and "fst (plan env fis p) < 2 ^ 31" and "0 < snd (plan env fis p)"
    and "distinct (starts_of env fis p)"
proof -
  let ?n = "length (keys (fis ! p))"
  show b: "batch_plan env ?n = Inr (plan env fis p)"
    using assms by (auto simp: workable_def plan_def)
  obtain c st where p: "plan env fis p = (c, st)" by force
  have n: "0 < ?n" using assms(3) by (simp add: served_def)
  note spec = batch_plan_spec [OF b [unfolded p] n] 
  show s: "starts_of env fis p = map (\<lambda>j. j * snd (plan env fis p)) [0..<fst (plan env fis p)]"
    using assms(3) batch_starts_plan [OF b [unfolded p] n] by (simp add: starts_of_def p)
  have "?n < 2 ^ 31" using assms(1,2) by (auto simp: workable_def)
  then show "0 < fst (plan env fis p)" "fst (plan env fis p) < 2 ^ 31" "0 < snd (plan env fis p)"
    using spec by (simp_all add: p)
  show "distinct (starts_of env fis p)"
    unfolding s using spec by (simp add: distinct_map inj_on_def p)
qed

section \<open>Counting\<close>

fun pend_op :: "info_ptr \<Rightarrow> fetch_op \<Rightarrow> bool" where
  "pend_op p (Issue q i) = (q = p)"
| "pend_op p (Deep q b) = (q = p)"
| "pend_op p _ = False"

fun cond_op :: "info_ptr \<Rightarrow> fetch_op \<Rightarrow> bool" where
  "cond_op p (Cond q b) = (q = p)"
| "cond_op p _ = False"

definition pend :: "info_ptr \<Rightarrow> fetch_op multiset \<Rightarrow> nat" where
  "pend p M = size (filter_mset (pend_op p) M)"

definition live :: "info_ptr \<Rightarrow> fetch_op multiset \<Rightarrow> nat" where
  \<comment> \<open>whether \<open>cond\<close> still waits for this \<open>FetchInfo\<close>\<close>
  "live p M = count M (Info p) + size (filter_mset (cond_op p) M) + (if 0 < pend p M then 1 else 0)"

fun op_ok :: "('m, 'c) service_env \<Rightarrow> net \<Rightarrow> fetch_info list \<Rightarrow> fetch_op \<Rightarrow> bool" where
  "op_ok env net fis (Info p) = (p < length fis)"
| "op_ok env net fis (Issue p i) = (p < length fis \<and> i \<in> set (starts_of env fis p))"
| "op_ok env net fis (Reply p i) = (p < length fis \<and> i \<in> set (starts_of env fis p) \<and> sent net p i)"
| "op_ok env net fis (Deep p b) = (p < length fis)"
| "op_ok env net fis (Cond p b) = (p < length fis)"
| "op_ok env net fis (Merge_Cache p b) = (p < length fis)"
| "op_ok env net fis _ = True"

definition left :: "fetch_info list \<Rightarrow> fetch_op multiset \<Rightarrow> nat" where
  "left fis M = (\<Sum>p<length fis. live p M)"

definition counting ::
  "('m, 'c) service_env \<Rightarrow> net \<Rightarrow> fetch_info list \<Rightarrow> fetch_op multiset \<Rightarrow> atomic_int \<Rightarrow> atomic_int list \<Rightarrow> bool"
where
  "counting env net fis M c ics \<longleftrightarrow>
     length ics = length fis \<and> (\<forall>p<length fis. sint (ics ! p) = int (pend p M)) \<and>
     sint c = int (left fis M) \<and> (\<forall>op\<in>#M. op_ok env net fis op) \<and>
     (\<forall>p. count M (Info p) \<le> 1 \<and> (Info p \<in># M \<longrightarrow> pend p M = 0))"

lemma pend_simps [simp]:
  "pend p {#} = 0" "pend p (M + N) = pend p M + pend p N"
  "pend p (add_mset op M) = (if pend_op p op then 1 else 0) + pend p M"
  by (simp_all add: pend_def)

lemma live_same:
  "count M' (Info q) + size (filter_mset (cond_op q) M') = count M (Info q) + size (filter_mset (cond_op q) M) \<Longrightarrow>
   (0 < pend q M' \<longleftrightarrow> 0 < pend q M) \<Longrightarrow> live q M' = live q M"
  by (simp add: live_def)

lemma left_same: "(\<And>q. q < length fis \<Longrightarrow> live q M' = live q M) \<Longrightarrow> left fis M' = left fis M"
  unfolding left_def by (intro sum.cong) auto

lemma left_cond:
  assumes "p < length fis"
  shows "left fis (add_mset (Cond p b) M) = Suc (left fis M)"
proof -
  have "live q (add_mset (Cond p b) M) = live q M + (if q = p then 1 else 0)" for q
    by (simp add: live_def)
  then have "left fis (add_mset (Cond p b) M) = left fis M + (\<Sum>q<length fis. if q = p then 1 else 0)"
    by (simp add: left_def sum.distrib)
  then show ?thesis using assms by simp
qed

lemma left_0: "left fis M = 0 \<longleftrightarrow> (\<forall>p<length fis. live p M = 0)"
  by (auto simp: left_def)

lemma counting_update:
  \<comment> \<open>a step that moves counts around without changing a counter\<close>
  assumes "counting env net fis (add_mset op M) c ics"
    and "\<And>q. pend q N = (if pend_op q op then 1 else 0)"
    and "\<And>q. count N (Info q) + size (filter_mset (cond_op q) N) = count {#op#} (Info q) + size (filter_mset (cond_op q) {#op#})"
    and "\<And>q. count N (Info q) = 0" and "\<forall>x\<in>#N. op_ok env net fis x"
  shows "counting env net fis (N + M) c ics"
proof -
  have pq: "pend q (N + M) = pend q (add_mset op M)" for q using assms(2) by simp
  have "live q (N + M) = live q (add_mset op M)" for q
    by (rule live_same) (use assms(3) [of q] pq [of q] in auto)
  then have "left fis (N + M) = left fis (add_mset op M)" by (intro left_same)
  moreover have "count (N + M) (Info p) \<le> 1 \<and> (Info p \<in># N + M \<longrightarrow> pend p (N + M) = 0)" for p
  proof -
    have c: "count (N + M) (Info p) \<le> count (add_mset op M) (Info p)" using assms(4) by simp
    have "Info p \<notin># N" using assms(4) [of p] by (simp add: not_in_iff)
    then have "Info p \<in># N + M \<Longrightarrow> Info p \<in># add_mset op M" by auto
    with c pq [of p] assms(1) show ?thesis unfolding counting_def by (metis order_trans)
  qed
  ultimately show ?thesis using assms(1,5) pq unfolding counting_def by (auto simp del: pend_simps)
qed

lemma pend_issues: "pend q (mset (map (Issue p) xs)) = (if q = p then length xs else 0)"
  by (induction xs) auto

lemma count_issues: "count (mset (map (Issue p) xs)) (Info q) = 0"
  by (induction xs) auto

lemma cond_issues: "filter_mset (cond_op q) (mset (map (Issue p) xs)) = {#}"
  by (induction xs) auto

lemma counting_info:
  assumes w: "workable env net fis cdv inst inst'" and inv: "counting env net fis (add_mset (Info p) M) c ics"
    and sv: "served env fis p"
  shows "counting env net fis (mset (map (Issue p) (starts_of env fis p)) + M) c
    (ics[p := of_nat (fst (plan env fis p))])"
proof -
  obtain N where N: "N = mset (map (Issue p) (starts_of env fis p))" by blast
  have p: "p < length fis" "length ics = length fis" "pend p M = 0" "count M (Info p) = 0"
    using inv by (auto simp: counting_def dest: spec [of _ p])
  note pl = workable_plan [OF w p(1) sv]
  have len: "length (starts_of env fis p) = fst (plan env fis p)" by (simp add: pl(2))
  have pN: "pend q N = (if q = p then fst (plan env fis p) else 0)" for q
    by (simp only: N pend_issues len)
  have c0: "count N (Info q) = 0" for q unfolding N by (rule count_issues)
  have f0: "filter_mset (cond_op q) N = {#}" for q unfolding N by (rule cond_issues)
  have "live q (N + M) = live q (add_mset (Info p) M)" for q
    using p(3,4) pl(3) by (cases "q = p") (simp_all add: live_def pN c0 f0)
  then have "left fis (N + M) = left fis (add_mset (Info p) M)" by (intro left_same)
  moreover have "sint (of_nat (fst (plan env fis p)) :: atomic_int) = int (fst (plan env fis p))"
    using pl(4) by (rule sint_of_nat32)
  then have "sint ((ics[p := of_nat (fst (plan env fis p))]) ! q) = int (pend q (N + M))" if "q < length fis" for q
    using inv p that by (cases "q = p") (auto simp: counting_def pN)
  moreover have "count (N + M) (Info q) \<le> 1 \<and> (Info q \<in># N + M \<longrightarrow> pend q (N + M) = 0)" for q
  proof -
    have nN: "Info q \<notin># N" using c0 [of q] by (simp add: not_in_iff)
    have "count (add_mset (Info p) M) (Info q) \<le> 1 \<and>
        (Info q \<in># add_mset (Info p) M \<longrightarrow> pend q (add_mset (Info p) M) = 0)"
      using inv unfolding counting_def by blast
    moreover have "Info p \<notin># M" using p(4) by (simp add: not_in_iff)
    ultimately show ?thesis using nN c0 [of q] pN [of q] by (cases "q = p") auto
  qed
  moreover have "\<forall>x\<in>#N + M. op_ok env net fis x" using inv p(1) by (auto simp: counting_def N)
  ultimately show ?thesis using inv unfolding N [symmetric] counting_def by simp
qed

lemma counting_deep:
  assumes inv: "counting env net fis (add_mset (Deep p b) M) c ics"
  shows "counting env net fis ((if sint (ics ! p) = 1 then {#Cond p b#} else {#}) + M) c (ics[p := ics ! p - 1])"
proof -
  let ?N = "if sint (ics ! p) = 1 then {#Cond p b#} else {#}"
  have p: "p < length fis" "length ics = length fis" "sint (ics ! p) = int (Suc (pend p M))"
    using inv by (auto simp: counting_def)
  have dec: "sint (ics ! p - 1) = int (pend p M)" using p(3) by (simp add: sint_dec32)
  have pq: "pend q (?N + M) = pend q M" for q by simp
  have "live q (?N + M) = live q (add_mset (Deep p b) M)" for q
    using p(3) by (cases "q = p"; cases "pend p M = 0") (simp_all add: live_def)
  then have "left fis (?N + M) = left fis (add_mset (Deep p b) M)" by (intro left_same)
  then have "sint c = int (left fis (?N + M))" using inv by (simp only: counting_def)
  moreover have "count (?N + M) (Info q) \<le> 1 \<and> (Info q \<in># ?N + M \<longrightarrow> pend q (?N + M) = 0)" for q
  proof -
    have "count (add_mset (Deep p b) M) (Info q) \<le> 1 \<and>
        (Info q \<in># add_mset (Deep p b) M \<longrightarrow> pend q (add_mset (Deep p b) M) = 0)"
      using inv unfolding counting_def by blast
    then show ?thesis by (auto split: if_splits)
  qed
  moreover have "\<forall>x\<in>#?N + M. op_ok env net fis x" using inv p(1) by (auto simp: counting_def)
  moreover have "sint ((ics[p := ics ! p - 1]) ! q) = int (pend q (?N + M))" if "q < length fis" for q
  proof (cases "q = p")
    case True
    then show ?thesis using p(1,2) dec unfolding pq by simp
  next
    case False
    then have "sint (ics ! q) = int (pend q (add_mset (Deep p b) M))"
      using inv that unfolding counting_def by blast
    with False show ?thesis unfolding pq by simp
  qed
  ultimately show ?thesis using p(2) unfolding counting_def length_list_update by blast
qed

lemma counting_cond:
  assumes inv: "counting env net fis (add_mset (Cond p b) M) c ics"
  shows "counting env net fis ((if sint c = 1 then {#Merge_Cache p b#} else {#}) + M) (c - 1) ics"
    and "sint c = int (Suc (left fis M))" and "left fis ((if sint c = 1 then {#Merge_Cache p b#} else {#}) + M) = left fis M"
proof -
  let ?N = "if sint c = 1 then {#Merge_Cache p b#} else {#}"
  have p: "p < length fis" using inv by (auto simp: counting_def)
  show c: "sint c = int (Suc (left fis M))" using inv left_cond [OF p, of b M] by (simp add: counting_def)
  then have dec: "sint (c - 1) = int (left fis M)" by (simp add: sint_dec32)
  have pq: "pend q (?N + M) = pend q M" for q by simp
  have "live q (?N + M) = live q M" for q unfolding live_def pq by simp
  then show l: "left fis (?N + M) = left fis M" by (intro left_same)
  have "count (?N + M) (Info q) \<le> 1 \<and> (Info q \<in># ?N + M \<longrightarrow> pend q (?N + M) = 0)" for q
  proof -
    have "count (add_mset (Cond p b) M) (Info q) \<le> 1 \<and>
        (Info q \<in># add_mset (Cond p b) M \<longrightarrow> pend q (add_mset (Cond p b) M) = 0)"
      using inv unfolding counting_def by blast
    then show ?thesis by (auto split: if_splits)
  qed
  moreover have "\<forall>x\<in>#?N + M. op_ok env net fis x" using inv p by (auto simp: counting_def)
  ultimately show "counting env net fis (?N + M) (c - 1) ics"
    using inv dec unfolding counting_def l pq by simp
qed

abbreviation merge_ok :: "('m, 'c) service_env \<Rightarrow> net \<Rightarrow> fetch_info list \<Rightarrow> 'm fetch_run \<Rightarrow> bool" where
  "merge_ok env net fis s \<equiv>
     merge_cache_data env (merge_time net) fis (Some (zip (map fi_id fis) (results s))) (shared_cache s) \<in> range Inr"

text \<open>What a step of each kind does, in a request whose parts do not fail.\<close>

lemma op_cases:
  assumes w: "workable env net fis cdv inst inst'" and ok: "op_ok env net fis op"
    and step: "op_step env net fis op s = Inr (new, started, t)"
    and mo: "\<forall>p b. op = Merge_Cache p b \<longrightarrow> merge_ok env net fis s"
  obtains
    (info) p where "op = Info p" "served env fis p" "new = map (Issue p) (starts_of env fis p)" "started = []"
      "t = s\<lparr>item_conds := (item_conds s)[p := of_nat (fst (plan env fis p))],
         results := (results s)[p := replicate (fst (plan env fis p)) new_item]\<rparr>"
  | (unserved) p where "op = Info p" "\<not> served env fis p" "new = [Cond p False]" "started = []" "t = s"
  | (issue) p i where "op = Issue p i" "sent net p i" "new = []" "started = [[Reply p i, Deep p True]]" "t = s"
  | (unsent) p i where "op = Issue p i" "\<not> sent net p i" "new = [Deep p False]" "started = []" "t = s"
  | (reply) p i items calls where "op = Reply p i" "new = []" "started = []"
      "t = s\<lparr>results := (results s)[p := items], parses := parses s @ calls, fetch_log := fetch_log s @ [Replied p i]\<rparr>"
  | (deep) p b where "op = Deep p b" "new = (if sint (item_conds s ! p) = 1 then [Cond p b] else [])" "started = []"
      "t = s\<lparr>item_conds := (item_conds s)[p := item_conds s ! p - 1]\<rparr>"
  | (cond) p b where "op = Cond p b" "new = (if sint (cond s) = 1 then [Merge_Cache p b] else [])" "started = []"
      "t = s\<lparr>cond := cond s - 1\<rparr>"
  | (merge) p b inst1 where "op = Merge_Cache p b" "started = []"
      "new = (if promise s = None then [] else (if b then [] else [Parse_Cached]) @ [Wait_Cached]) @ [Respond, Notify_Outputs]"
      "merge_cache_data env (merge_time net) fis (Some (zip (map fi_id fis) (results s))) (shared_cache s) = Inr inst1"
      "t = s\<lparr>shared_cache := inst1, fetch_log := fetch_log s @ [Merged]\<rparr>"
  | (parse) calls where "op = Parse_Cached \<or> op = Parse_Rest \<and> cached s \<noteq> []" "new = []" "started = []"
      "parse_cached env fis s = Inr t" "parse_cached_data env fis (cached s) = (calls, None)"
      "t = s\<lparr>parses := parses s @ calls, cached := [], promise := Some True, fetch_log := fetch_log s @ [Parsed_Cached]\<rparr>"
  | (rest) "op = Parse_Rest" "cached s = []" "new = []" "started = []" "t = s"
  | (wait) "op = Wait_Cached" "new = []" "started = []" "t = s"
  | (respond) "op = Respond" "new = []" "started = []" "t = s\<lparr>fetch_log := fetch_log s @ [Responded]\<rparr>"
  | (notify) "op = Notify_Outputs" "new = []" "started = []" "t = s\<lparr>fetch_log := fetch_log s @ [Notified]\<rparr>"
proof (cases op)
  case (Info p)
  then have p: "p < length fis" using ok by simp
  show ?thesis
  proof (cases "served env fis p")
    case True
    then have ns: "\<not> (get_client (redis_client_id (fis ! p)) (clients env) = None \<or> keys (fis ! p) = [])"
      by (simp add: served_def)
    show ?thesis
      by (rule info [OF Info True])
        (use step workable_plan(1) [OF w p True] True in
          \<open>auto simp: Info if_not_P [OF ns] starts_of_def split: prod.splits\<close>)
  next
    case False
    then show ?thesis using step by (intro unserved [OF Info]) (auto simp: Info served_def split: if_splits)
  qed
next
  case (Issue p i)
  then show ?thesis using step issue [of p i] unsent [of p i] by (auto simp: sent_def split: if_splits)
next
  case (Reply p i)
  then show ?thesis using step reply [of p i] by (auto simp: res_simps)
next
  case (Deep p b)
  then show ?thesis using step by (intro deep [OF Deep]) (simp_all add: fetch_sub1_def)
next
  case (Cond p b)
  then show ?thesis using step by (intro cond [OF Cond]) (simp_all add: fetch_sub1_def)
next
  case (Merge_Cache p b)
  then show ?thesis using step mo merge [of p b] by auto
next
  case Parse_Cached
  then show ?thesis using step parse
    by (auto simp: res_simps parse_cached_def split: prod.splits option.splits)
next
  case Parse_Rest
  then show ?thesis using step parse rest
    by (auto simp: res_simps parse_cached_def split: case_splits)
next
  case Wait_Cached
  then show ?thesis using step by (intro wait) simp_all
next
  case Respond
  then show ?thesis using step by (intro respond) simp_all
next
  case Notify_Outputs
  then show ?thesis using step by (intro notify) simp_all
qed

lemma counting_step:
  assumes w: "workable env net fis cdv inst inst'"
    and inv: "counting env net fis (add_mset op M) (cond s) (item_conds s)"
    and step: "op_step env net fis op s = Inr (new, started, t)"
    and mo: "\<forall>p b. op = Merge_Cache p b \<longrightarrow> merge_ok env net fis s"
  shows "counting env net fis (mset new + mset (concat started) + M) (cond t) (item_conds t)"
proof -
  have ok: "op_ok env net fis op" using inv by (simp add: counting_def)
  have keep: "counting env net fis (mset new + mset (concat started) + M) (cond s) (item_conds s)"
    if "\<And>q. pend q (mset new + mset (concat started)) = (if pend_op q op then 1 else 0)"
      "\<And>q. count (mset new + mset (concat started)) (Info q) + size (filter_mset (cond_op q) (mset new + mset (concat started))) =
        count {#op#} (Info q) + size (filter_mset (cond_op q) {#op#})"
      "\<And>q. count (mset new + mset (concat started)) (Info q) = 0" "\<forall>x\<in>#mset new + mset (concat started). op_ok env net fis x"
    using that by (rule counting_update [OF inv])
  from w ok step mo show ?thesis
  proof (cases rule: op_cases)
    case (info p)
    with counting_info [OF w inv [unfolded info(1)]] show ?thesis by simp
  next
    case (deep p b)
    with counting_deep [OF inv [unfolded deep(1)]] show ?thesis by auto
  next
    case (cond p b)
    with counting_cond(1) [OF inv [unfolded cond(1)]] show ?thesis by auto
  qed (use keep ok in \<open>auto split: if_splits\<close>)
qed

section \<open>Collecting the results\<close>

fun replied :: "fetch_event list \<Rightarrow> (info_ptr \<times> nat) multiset" where
  "replied [] = {#}"
| "replied (Replied p i # es) = add_mset (p, i) (replied es)"
| "replied (_ # es) = replied es"

fun to_reply :: "('m, 'c) service_env \<Rightarrow> net \<Rightarrow> fetch_info list \<Rightarrow> fetch_op \<Rightarrow> (info_ptr \<times> nat) multiset" where
  "to_reply env net fis (Info p) = mset (sent_pairs env net fis p)"
| "to_reply env net fis (Issue p i) = (if sent net p i then {#(p, i)#} else {#})"
| "to_reply env net fis (Reply p i) = {#(p, i)#}"
| "to_reply env net fis _ = {#}"

abbreviation unreplied :: "('m, 'c) service_env \<Rightarrow> net \<Rightarrow> fetch_info list \<Rightarrow> fetch_op multiset \<Rightarrow> (info_ptr \<times> nat) multiset" where
  "unreplied env net fis M \<equiv> \<Sum>\<^sub># (image_mset (to_reply env net fis) M)"

definition results_now ::
  "('m, 'c) service_env \<Rightarrow> net \<Rightarrow> fetch_info list \<Rightarrow> fetch_event list \<Rightarrow> info_ptr \<Rightarrow> redis_result_item list"
where
  "results_now env net fis es p =
     map (\<lambda>i. if (p, i) \<in># replied es then item_after env net fis p i else new_item) (starts_of env fis p)"

definition collected ::
  "('m, 'c) service_env \<Rightarrow> net \<Rightarrow> fetch_info list \<Rightarrow> cache_data_item list \<Rightarrow> fetch_op multiset \<Rightarrow> 'm fetch_run \<Rightarrow> bool"
where
  "collected env net fis cdv M s \<longleftrightarrow>
     replied (fetch_log s) + unreplied env net fis M = mset (all_sent env net fis) \<and>
     length (results s) = length fis \<and>
     (\<forall>p<length fis. results s ! p = (if Info p \<in># M then [] else results_now env net fis (fetch_log s) p)) \<and>
     mset (parses s) = (\<Sum>x\<in>#replied (fetch_log s). mset (calls_of env net fis (fst x) (snd x))) +
       (if promise s = Some True then mset (fst (parse_cached_data env fis cdv)) else {#}) \<and>
     count (mset (fetch_log s)) Parsed_Cached = (if promise s = Some True then 1 else 0) \<and>
     cached s = (if promise s = Some False then cdv else [])"

lemma replied_append [simp]: "replied (xs @ ys) = replied xs + replied ys"
  by (induction xs rule: replied.induct) auto

lemma distinct_all_sent:
  assumes "workable env net fis cdv inst inst'"
  shows "distinct (all_sent env net fis)"
proof -
  have "distinct (concat (map (sent_pairs env net fis) [0..<n]))" if "n \<le> length fis" for n
    using that
  proof (induction n)
    case (Suc n)
    have "distinct (starts_of env fis n)"
      using workable_plan(6) [OF assms, of n] Suc.prems by (cases "served env fis n") (auto simp: starts_of_def)
    then have "distinct (sent_pairs env net fis n)" by (simp add: sent_pairs_def distinct_map inj_on_def)
    moreover have "set (sent_pairs env net fis n) \<inter> set (concat (map (sent_pairs env net fis) [0..<n])) = {}"
      by (auto simp: sent_pairs_def)
    ultimately show ?case using Suc by (simp add: Int_commute)
  qed simp
  then show ?thesis by (simp add: all_sent_def)
qed

lemma all_sent_sent: "(p, i) \<in># mset (all_sent env net fis) \<Longrightarrow> sent net p i"
  by (auto simp: all_sent_def sent_pairs_def)

lemma collected_fresh:
  assumes "workable env net fis cdv inst inst'" and "collected env net fis cdv (add_mset op M) s"
    and "x \<in># to_reply env net fis op"
  shows "x \<notin># replied (fetch_log s)" and "x \<notin># unreplied env net fis M"
proof -
  have "count (mset (all_sent env net fis)) x \<le> 1"
    using distinct_all_sent [OF assms(1)] by (cases x) (simp add: distinct_count_atmost_1)
  then have "count (replied (fetch_log s) + (to_reply env net fis op + unreplied env net fis M)) x \<le> 1"
    using assms(2) by (simp add: collected_def)
  moreover have "1 \<le> count (to_reply env net fis op) x" using assms(3) by (simp add: Suc_le_eq)
  ultimately have "count (replied (fetch_log s)) x = 0 \<and> count (unreplied env net fis M) x = 0"
    unfolding count_union by linarith
  then show "x \<notin># replied (fetch_log s)" "x \<notin># unreplied env net fis M" unfolding not_in_iff by blast+
qed

lemma collected_sent:
  assumes "collected env net fis cdv M s" and "(p, i) \<in># replied (fetch_log s)"
  shows "sent net p i"
proof -
  have "(p, i) \<in># mset (all_sent env net fis)"
    using assms unfolding collected_def by (metis union_iff)
  then show ?thesis by (rule all_sent_sent)
qed

lemma results_now_cong:
  assumes "\<And>i. i \<in> set (starts_of env fis p) \<Longrightarrow> (p, i) \<in># replied es \<longleftrightarrow> (p, i) \<in># replied es'"
  shows "results_now env net fis es p = results_now env net fis es' p"
  unfolding results_now_def using assms by (intro map_cong) auto

lemma unreplied_issues:
  "unreplied env net fis (mset (map (Issue p) xs)) = mset (map (Pair p) (filter (sent net p) xs))"
  by (induction xs) auto

text \<open>The steps that do not touch the results.\<close>

lemma collected_keep:
  assumes "collected env net fis cdv (add_mset op M) s"
    and "unreplied env net fis N = to_reply env net fis op"
    and "\<And>p. p < length fis \<Longrightarrow> Info p \<in># N + M \<longleftrightarrow> Info p \<in># add_mset op M"
    and "results t = results s" and "replied (fetch_log t) = replied (fetch_log s)"
    and "parses t = parses s" and "promise t = promise s" and "cached t = cached s"
    and "count (mset (fetch_log t)) Parsed_Cached = count (mset (fetch_log s)) Parsed_Cached"
  shows "collected env net fis cdv (N + M) t"
proof -
  have "results_now env net fis (fetch_log t) p = results_now env net fis (fetch_log s) p" for p
    by (rule results_now_cong) (simp add: assms(5))
  with assms show ?thesis by (simp add: collected_def)
qed

lemma collected_parse:
  assumes w: "workable env net fis cdv inst inst'"
    and inv: "collected env net fis cdv (add_mset op M) s" and op: "op = Parse_Cached \<or> op = Parse_Rest"
    and pr: "promise s = Some False" and step: "parse_cached env fis s = Inr t"
  shows "collected env net fis cdv M t" and "promise t = Some True"
proof -
  have c: "cached s = cdv" "snd (parse_cached_data env fis cdv) = None"
    using inv pr w by (simp_all add: collected_def workable_def)
  then obtain calls where calls: "parse_cached_data env fis cdv = (calls, None)"
    by (cases "parse_cached_data env fis cdv") auto
  then have t: "t = s\<lparr>parses := parses s @ calls, cached := [], promise := Some True,
      fetch_log := fetch_log s @ [Parsed_Cached]\<rparr>"
    using step c(1) by (simp add: parse_cached_def)
  then show "promise t = Some True" by simp
  have "results_now env net fis (fetch_log t) p = results_now env net fis (fetch_log s) p" for p
    by (rule results_now_cong) (simp add: t)
  moreover have "to_reply env net fis op = {#}" "\<And>p. op \<noteq> Info p" using op by auto
  ultimately show "collected env net fis cdv M t" using inv pr calls by (auto simp: collected_def t)
qed

lemma collected_info:
  assumes w: "workable env net fis cdv inst inst'"
    and inv: "collected env net fis cdv (add_mset (Info p) M) s"
    and p: "p < length fis" "count M (Info p) = 0" and sv: "served env fis p"
  shows "collected env net fis cdv (mset (map (Issue p) (starts_of env fis p)) + M)
    (s\<lparr>item_conds := ics, results := (results s)[p := replicate (fst (plan env fis p)) new_item]\<rparr>)"
    (is "collected _ _ _ _ (?N + M) ?t")
proof -
  have N: "unreplied env net fis ?N = to_reply env net fis (Info p)"
    by (simp only: unreplied_issues to_reply.simps sent_pairs_def)
  have ni: "Info q \<in># ?N + M \<longleftrightarrow> Info q \<in># M" for q by auto
  have fresh: "(p, i) \<notin># replied (fetch_log s)" if "i \<in> set (starts_of env fis p)" for i
  proof (cases "sent net p i")
    case True
    then have "(p, i) \<in># to_reply env net fis (Info p)" using that by (simp add: sent_pairs_def)
    then show ?thesis by (rule collected_fresh(1) [OF w inv])
  next
    case False
    then show ?thesis using collected_sent [OF inv] by blast
  qed
  have "results_now env net fis (fetch_log s) p = replicate (fst (plan env fis p)) new_item"
  proof -
    have "results_now env net fis (fetch_log s) p = map (\<lambda>i. new_item) (starts_of env fis p)"
      unfolding results_now_def using fresh by (intro map_cong) auto
    then show ?thesis by (simp add: workable_plan(2) [OF w p(1) sv] map_replicate_const)
  qed
  moreover have "Info p \<notin># M" using p(2) by (simp add: not_in_iff)
  ultimately show ?thesis using inv N p(1)
    by (auto simp: collected_def ni nth_list_update simp del: mset_map)
qed

lemma reply_ready:
  \<comment> \<open>a callback finds the item of its batch untouched\<close>
  assumes w: "workable env net fis cdv inst inst'"
    and inv: "collected env net fis cdv (add_mset (Reply p i) M) s"
    and p: "p < length fis" "i \<in> set (starts_of env fis p)" "sent net p i"
  obtains count step j item calls where "batch_plan env (length (keys (fis ! p))) = Inr (count, step)"
    and "starts_of env fis p = map (\<lambda>j. j * step) [0..<count]" and "0 < step" and "j < count" and "i = j * step"
    and "Info p \<notin># M" and "results s ! p = results_now env net fis (fetch_log s) p"
    and "outcome env net fis p i = Inr (item, calls)"
    and "rpc_callback env fis p i step (fst (answer net p i)) (snd (answer net p i)) (results s ! p)
      = Inr ((results s ! p)[j := item], calls)"
proof -
  have sv: "served env fis p" using p(2) by (auto simp: starts_of_def split: if_splits)
  note pl = workable_plan [OF w p(1) sv]
  obtain count step where plan: "plan env fis p = (count, step)" by force
  have starts: "starts_of env fis p = map (\<lambda>j. j * step) [0..<count]" using pl(2) by (simp add: plan)
  have st: "0 < step" using pl(5) by (simp add: plan)
  obtain j where j: "j < count" "i = j * step" using p(2) starts by auto
  have idx: "i div step = j" using j(2) st by simp
  have fr: "(p, i) \<notin># replied (fetch_log s)" "(p, i) \<notin># unreplied env net fis M"
    by (rule collected_fresh [OF w inv]; simp)+
  have nM: "Info p \<notin># M"
  proof
    assume "Info p \<in># M"
    then obtain M1 where "M = add_mset (Info p) M1" by (metis mset_add)
    then have "(p, i) \<in># unreplied env net fis M" using p(2,3) by (auto simp: sent_pairs_def)
    with fr(2) show False by simp
  qed
  then have items: "results s ! p = results_now env net fis (fetch_log s) p"
    using inv p(1) by (simp add: collected_def)
  have len: "length (results s ! p) = count" by (simp add: items results_now_def starts)
  have "results s ! p ! j = new_item"
    using fr(1) j by (simp add: items results_now_def starts)
  moreover obtain item calls where out: "outcome env net fis p i = Inr (item, calls)"
    using w p unfolding workable_def by (metis imageE surj_pair)
  ultimately have cb: "rpc_callback env fis p i step (fst (answer net p i)) (snd (answer net p i)) (results s ! p)
      = Inr ((results s ! p)[j := item], calls)"
    using j(1) by (simp add: rpc_callback_def idx len outcome_def plan)
  show ?thesis by (rule that [OF pl(1) [unfolded plan] starts st j nM items out cb])
qed

lemma results_now_stored:
  assumes starts: "starts_of env fis p = map (\<lambda>j. j * step') [0..<m]" and st: "0 < step'" and j: "j < m"
  shows "(results_now env net fis es p)[j := item_after env net fis p (j * step')] =
    results_now env net fis (es @ [Replied p (j * step')]) p"
proof (rule nth_equalityI)
  let ?now = "results_now env net fis es p" and ?item = "item_after env net fis p (j * step')"
  show "length (?now[j := ?item]) = length (results_now env net fis (es @ [Replied p (j * step')]) p)"
    by (simp add: results_now_def)
  fix l
  assume "l < length (?now[j := ?item])"
  then have l: "l < m" by (simp add: results_now_def starts)
  show "?now[j := ?item] ! l = results_now env net fis (es @ [Replied p (j * step')]) p ! l"
    by (cases "l = j") (use l st in \<open>simp_all add: results_now_def starts\<close>)
qed

lemma collected_reply:
  assumes w: "workable env net fis cdv inst inst'"
    and inv: "collected env net fis cdv (add_mset (Reply p i) M) s"
    and p: "p < length fis" "i \<in> set (starts_of env fis p)" "sent net p i"
    and step: "op_step env net fis (Reply p i) s = Inr (new, started, t)"
  shows "collected env net fis cdv M t" and "new = []" and "started = []"
    and "promise t = promise s" and "shared_cache t = shared_cache s" and "fetch_log t = fetch_log s @ [Replied p i]"
proof -
  obtain count step' j item calls where bp: "batch_plan env (length (keys (fis ! p))) = Inr (count, step')"
    and starts: "starts_of env fis p = map (\<lambda>j. j * step') [0..<count]" and st: "0 < step'"
    and j: "j < count" "i = j * step'" and nM: "Info p \<notin># M"
    and items: "results s ! p = results_now env net fis (fetch_log s) p"
    and out: "outcome env net fis p i = Inr (item, calls)"
    and cb: "rpc_callback env fis p i step' (fst (answer net p i)) (snd (answer net p i)) (results s ! p)
      = Inr ((results s ! p)[j := item], calls)"
    using reply_ready [OF w inv p] by blast
  have "Inr ([], [], s\<lparr>results := (results s)[p := (results s ! p)[j := item]], parses := parses s @ calls,
          fetch_log := fetch_log s @ [Replied p i]\<rparr>) = (Inr (new, started, t) :: (_ \<times> _ \<times> _) res)"
    using step bp cb by simp
  then have t: "new = []" "started = []" "t = s\<lparr>results := (results s)[p := (results s ! p)[j := item]],
      parses := parses s @ calls, fetch_log := fetch_log s @ [Replied p i]\<rparr>"
    by simp_all
  show "new = []" "started = []" by (rule t)+
  show "promise t = promise s" "shared_cache t = shared_cache s" "fetch_log t = fetch_log s @ [Replied p i]"
    by (simp_all add: t(3))
  have ia: "item_after env net fis p i = item" "calls_of env net fis p i = calls"
    using p(3) out by (simp_all add: item_after_def calls_of_def)
  have rp: "(results s ! p)[j := item] = results_now env net fis (fetch_log t) p"
    using results_now_stored [where net = net and es = "fetch_log s", OF starts st j(1)] ia(1) by (simp add: items t(3) j(2))
  have other: "results_now env net fis (fetch_log t) q = results_now env net fis (fetch_log s) q" if "q \<noteq> p" for q
    by (rule results_now_cong) (use that in \<open>simp add: t(3)\<close>)
  have "results t ! q = (if Info q \<in># M then [] else results_now env net fis (fetch_log t) q)" if q: "q < length fis" for q
  proof (cases "q = p")
    case True
    then show ?thesis using rp nM inv q by (simp add: t(3) collected_def)
  next
    case False
    then show ?thesis using inv q other [OF False] by (simp add: t(3) collected_def)
  qed
  then show "collected env net fis cdv M t"
    using inv ia by (simp add: collected_def t(3) ac_simps)
qed

end
