(* ===== verification/RedisJoinSpec.thy ===== *)
theory RedisJoinSpec
  imports RedisJoinCount
begin

text \<open>
  The threads of a redis service: which effects the thread of the node and the callbacks can have still to
  perform (\<open>shape\<close>), and the one thread that goes on when the last count is made, from the merge to the
  notification of the output nodes (\<open>stage\<close>, \<open>finishing\<close>). The invariant \<open>join_inv\<close> puts them together with the
  counters and the results of \<open>RedisJoinCount\<close>; the properties are in \<open>RedisJoinRun\<close>.
\<close>

section \<open>The threads\<close>

fun main_op :: "fetch_op \<Rightarrow> bool" where
  "main_op (Reply p i) = False"
| "main_op (Deep p b) = (\<not> b)"
| "main_op (Cond p b) = (\<not> b)"
| "main_op (Merge_Cache p b) = (\<not> b)"
| "main_op _ = True"

fun side_op :: "fetch_op \<Rightarrow> bool" where
  "side_op (Info p) = False"
| "side_op (Issue p i) = False"
| "side_op Parse_Cached = False"
| "side_op Parse_Rest = False"
| "side_op (Deep p b) = b"
| "side_op (Cond p b) = b"
| "side_op (Merge_Cache p b) = b"
| "side_op _ = True"

definition shape :: "fetch_op list list \<Rightarrow> bool" where
  \<comment> \<open>the thread of the node comes first; the others are callbacks\<close>
  "shape T \<longleftrightarrow> T \<noteq> [] \<and> (\<forall>op\<in>set (T ! 0). main_op op) \<and>
     (\<forall>k. 0 < k \<and> k < length T \<longrightarrow> (\<forall>op\<in>set (T ! k). side_op op) \<and>
        (\<forall>p i. Reply p i \<in> set (T ! k) \<longrightarrow> T ! k = [Reply p i, Deep p True])) \<and>
     (T ! 0 = [] \<or> (\<exists>xs. T ! 0 = xs @ [Parse_Rest] \<and> Parse_Rest \<notin> set xs))"

lemma op_new:
  assumes "workable env net fis cdv inst inst'" and "op_ok env net fis op"
    and "op_step env net fis op s = Inr (new, started, t)"
    and "\<forall>p b. op = Merge_Cache p b \<longrightarrow> merge_ok env net fis s"
  shows "main_op op \<Longrightarrow> (\<forall>x\<in>set new. main_op x \<and> x \<noteq> Parse_Rest) \<and>
      (\<forall>th\<in>set started. \<exists>p i. th = [Reply p i, Deep p True])"
    and "side_op op \<Longrightarrow> started = [] \<and> (\<forall>x\<in>set new. side_op x \<and> (\<forall>p i. x \<noteq> Reply p i))"
    and "op = Parse_Rest \<Longrightarrow> new = []"
  using assms by (cases rule: op_cases; auto split: if_splits)+

lemma shape_main:
  \<comment> \<open>a step of the thread of the node\<close>
  assumes sh: "shape T" and k: "0 < length T" "T ! 0 = op # rest"
    and n: "(\<forall>x\<in>set new. main_op x \<and> x \<noteq> Parse_Rest) \<and> (\<forall>th\<in>set started. \<exists>p i. th = [Reply p i, Deep p True])"
    and pn: "op = Parse_Rest \<Longrightarrow> new = []"
  shows "shape (T[0 := new @ rest] @ started)" and "op = Parse_Rest \<Longrightarrow> rest = []"
proof -
  let ?T = "T[0 := new @ rest] @ started"
  have m: "main_op op" "\<forall>x\<in>set rest. main_op x" using sh k by (auto simp: shape_def)
  obtain xs where xs: "op # rest = xs @ [Parse_Rest]" "Parse_Rest \<notin> set xs" using sh k by (auto simp: shape_def)
  then show "op = Parse_Rest \<Longrightarrow> rest = []" by (cases xs) auto
  have tail: "new @ rest = [] \<or> (\<exists>ys. new @ rest = ys @ [Parse_Rest] \<and> Parse_Rest \<notin> set ys)"
  proof (cases xs)
    case Nil
    then show ?thesis using xs pn by simp
  next
    case (Cons x ys)
    then have "new @ rest = (new @ ys) @ [Parse_Rest]" "Parse_Rest \<notin> set (new @ ys)" using xs n by auto
    then show ?thesis by blast
  qed
  have nth: "?T ! j = (if j = 0 then new @ rest else if j < length T then T ! j else started ! (j - length T))"
    if "j < length ?T" for j using that k by (auto simp: nth_append)
  have "(\<forall>op\<in>set (?T ! j). side_op op) \<and> (\<forall>p i. Reply p i \<in> set (?T ! j) \<longrightarrow> ?T ! j = [Reply p i, Deep p True])"
    if j: "0 < j" "j < length ?T" for j
  proof (cases "j < length T")
    case True
    then show ?thesis using sh j nth [OF j(2)] by (simp add: shape_def)
  next
    case False
    then have "?T ! j \<in> set started" using j nth [OF j(2)] by simp
    then obtain p i where "?T ! j = [Reply p i, Deep p True]" using n by blast
    then show ?thesis by simp
  qed
  moreover have hd: "?T ! 0 = new @ rest" using nth [of 0] k by simp
  moreover have "\<forall>x\<in>set (?T ! 0). main_op x" unfolding hd using m n by auto
  moreover have "?T \<noteq> []" using k by force
  ultimately show "shape ?T" using tail unfolding shape_def by auto
qed

lemma shape_side:
  \<comment> \<open>a step of a callback\<close>
  assumes sh: "shape T" and k: "0 < k" "k < length T" "T ! k = op # rest"
    and n: "\<forall>x\<in>set new. side_op x \<and> (\<forall>p i. x \<noteq> Reply p i)"
  shows "shape (T[k := new @ rest])"
proof -
  have sd: "side_op op" "\<forall>x\<in>set rest. side_op x" using sh k by (auto simp: shape_def)
  have "Reply p i \<notin> set (new @ rest)" for p i
  proof
    assume "Reply p i \<in> set (new @ rest)"
    then have "Reply p i \<in> set rest" using n by auto
    then have "op # rest = [Reply p i, Deep p True]" using sh k by (auto simp: shape_def)
    with \<open>Reply p i \<in> set rest\<close> show False by simp
  qed
  then show ?thesis using sh k n sd by (auto simp: shape_def nth_list_update)
qed

lemma shape_step:
  assumes w: "workable env net fis cdv inst inst'" and ok: "op_ok env net fis op" and sh: "shape T"
    and k: "k < length T" "T ! k = op # rest"
    and step: "op_step env net fis op s = Inr (new, started, t)"
    and mo: "\<forall>p b. op = Merge_Cache p b \<longrightarrow> merge_ok env net fis s"
  shows "shape (T[k := new @ rest] @ started)" and "op = Parse_Rest \<Longrightarrow> k = 0 \<and> rest = []"
proof -
  note new = op_new [OF w ok step mo]
  have "shape (T[k := new @ rest] @ started) \<and> (op = Parse_Rest \<longrightarrow> k = 0 \<and> rest = [])"
  proof (cases "k = 0")
    case True
    then have "main_op op" using sh k by (auto simp: shape_def)
    from shape_main [OF sh _ _ new(1) [OF this] new(3)] show ?thesis using k True by simp
  next
    case False
    then have "side_op op" using sh k by (auto simp: shape_def)
    from shape_side [OF sh _ k, of new] new(2) [OF this] this False show ?thesis by auto
  qed
  then show "shape (T[k := new @ rest] @ started)" "op = Parse_Rest \<Longrightarrow> k = 0 \<and> rest = []" by blast+
qed

section \<open>Finishing\<close>

fun final_op :: "fetch_op \<Rightarrow> bool" where
  "final_op (Merge_Cache p b) = True"
| "final_op Parse_Cached = True"
| "final_op Wait_Cached = True"
| "final_op Respond = True"
| "final_op Notify_Outputs = True"
| "final_op _ = False"

fun final_event :: "fetch_event \<Rightarrow> bool" where
  "final_event Merged = True"
| "final_event Responded = True"
| "final_event Notified = True"
| "final_event _ = False"

abbreviation finals :: "fetch_op list \<Rightarrow> fetch_op list" where
  "finals \<equiv> filter final_op"

text \<open>How far the last thread is: the effects it has still to perform, the log, the promise, the cache.\<close>

inductive stage ::
  "'m cache_manager \<Rightarrow> 'm cache_manager \<Rightarrow> fetch_op list \<Rightarrow> fetch_event list \<Rightarrow> bool option \<Rightarrow> 'm cache_manager \<Rightarrow> bool"
  for inst inst'
where
  merge: "filter final_event es = [] \<Longrightarrow> stage inst inst' [Merge_Cache p b] es pr inst"
| parse: "filter final_event es = [Merged] \<Longrightarrow>
    stage inst inst' [Parse_Cached, Wait_Cached, Respond, Notify_Outputs] es (Some False) inst'"
| wait: "filter final_event es = [Merged] \<Longrightarrow> pr \<noteq> None \<Longrightarrow>
    stage inst inst' [Wait_Cached, Respond, Notify_Outputs] es pr inst'"
| respond: "filter final_event es = [Merged] \<Longrightarrow> pr \<noteq> Some False \<Longrightarrow>
    stage inst inst' [Respond, Notify_Outputs] es pr inst'"
| notify: "filter final_event es = [Merged] \<Longrightarrow> pr \<noteq> Some False \<Longrightarrow>
    stage inst inst' [Notify_Outputs] (es @ [Responded]) pr inst'"
| over: "filter final_event es = [Merged] \<Longrightarrow> pr \<noteq> Some False \<Longrightarrow>
    stage inst inst' [] (es @ [Responded, Notified]) pr inst'"

inductive_cases stage_consE: "stage inst inst' (op # ops) es pr c"
inductive_cases stage_NilE: "stage inst inst' [] es pr c"

lemma stage_parsed:
  assumes "stage inst inst' F es (Some False) c" and "Parse_Cached \<notin> set F"
  shows "stage inst inst' F (es @ [Parsed_Cached]) (Some True) c"
  using assms by cases (auto intro: stage.intros)

abbreviation ops :: "fetch_op list list \<Rightarrow> fetch_op multiset" where
  "ops T \<equiv> mset (concat T)"

definition finishing ::
  "fetch_info list \<Rightarrow> cache_data_item list \<Rightarrow> 'm cache_manager \<Rightarrow> 'm cache_manager \<Rightarrow> 'm fetch_run \<Rightarrow> bool"
where
  "finishing fis cdv inst inst' s \<longleftrightarrow>
     (0 < left fis (ops (threads s)) \<longrightarrow> finals (concat (threads s)) = [] \<and>
        filter final_event (fetch_log s) = [] \<and> shared_cache s = inst) \<and>
     (left fis (ops (threads s)) = 0 \<longrightarrow>
        stage inst inst' (finals (concat (threads s))) (fetch_log s) (promise s) (shared_cache s)) \<and>
     (\<forall>k<length (threads s). finals (threads s ! k) \<noteq> [] \<longrightarrow> finals (threads s ! k) = finals (concat (threads s))) \<and>
     (promise s = None \<longleftrightarrow> cdv = []) \<and>
     (promise s = Some False \<longrightarrow> Parse_Rest \<in> set (threads s ! 0)) \<and>
     (promise s = Some True \<and> threads s ! 0 \<noteq> [] \<longrightarrow> left fis (ops (threads s)) = 0 \<and>
        (\<forall>p b. Merge_Cache p b \<notin> set (finals (concat (threads s)))) \<and>
        Parse_Cached \<notin> set (finals (concat (threads s)))) \<and>
     (\<forall>x. finals (threads s ! 0) = Wait_Cached # x \<longrightarrow> promise s = Some True)"

lemma finishingI:
  assumes "0 < left fis (ops (threads s)) \<Longrightarrow> finals (concat (threads s)) = [] \<and>
        filter final_event (fetch_log s) = [] \<and> shared_cache s = inst"
    and "left fis (ops (threads s)) = 0 \<Longrightarrow>
        stage inst inst' (finals (concat (threads s))) (fetch_log s) (promise s) (shared_cache s)"
    and "\<And>k. k < length (threads s) \<Longrightarrow> finals (threads s ! k) \<noteq> [] \<Longrightarrow>
        finals (threads s ! k) = finals (concat (threads s))"
    and "promise s = None \<longleftrightarrow> cdv = []"
    and "promise s = Some False \<Longrightarrow> Parse_Rest \<in> set (threads s ! 0)"
    and "promise s = Some True \<Longrightarrow> threads s ! 0 \<noteq> [] \<Longrightarrow> left fis (ops (threads s)) = 0 \<and>
        (\<forall>p b. Merge_Cache p b \<notin> set (finals (concat (threads s)))) \<and>
        Parse_Cached \<notin> set (finals (concat (threads s)))"
    and "\<And>x. finals (threads s ! 0) = Wait_Cached # x \<Longrightarrow> promise s = Some True"
  shows "finishing fis cdv inst inst' s"
  using assms unfolding finishing_def by blast

lemma finishingD:
  assumes "finishing fis cdv inst inst' s"
  shows "0 < left fis (ops (threads s)) \<Longrightarrow> finals (concat (threads s)) = [] \<and>
        filter final_event (fetch_log s) = [] \<and> shared_cache s = inst"
    and "left fis (ops (threads s)) = 0 \<Longrightarrow>
        stage inst inst' (finals (concat (threads s))) (fetch_log s) (promise s) (shared_cache s)"
    and "k < length (threads s) \<Longrightarrow> finals (threads s ! k) \<noteq> [] \<Longrightarrow>
        finals (threads s ! k) = finals (concat (threads s))"
    and "promise s = None \<longleftrightarrow> cdv = []"
    and "promise s = Some False \<Longrightarrow> Parse_Rest \<in> set (threads s ! 0)"
    and "promise s = Some True \<Longrightarrow> threads s ! 0 \<noteq> [] \<Longrightarrow> left fis (ops (threads s)) = 0 \<and>
        (\<forall>p b. Merge_Cache p b \<notin> set (finals (concat (threads s)))) \<and>
        Parse_Cached \<notin> set (finals (concat (threads s)))"
    and "finals (threads s ! 0) = Wait_Cached # x \<Longrightarrow> promise s = Some True"
  using assms unfolding finishing_def by blast+

lemma concat_split:
  "k < length T \<Longrightarrow> T ! k = x \<Longrightarrow> concat T = concat (take k T) @ x @ concat (drop (Suc k) T)"
  by (metis concat.simps(2) concat_append id_take_nth_drop)

lemma concat_update:
  "k < length T \<Longrightarrow> concat (T[k := y]) = concat (take k T) @ y @ concat (drop (Suc k) T)"
  by (simp add: upd_conv_take_nth_drop)

lemma ops_split:
  assumes "k < length T" and "T ! k = op # rest"
  obtains M where "ops T = add_mset op M" and
    "\<And>new started. ops (T[k := new @ rest] @ started) = mset new + mset (concat started) + M"
proof
  let ?M = "mset (concat (take k T)) + mset rest + mset (concat (drop (Suc k) T))"
  show "ops T = add_mset op ?M" by (simp add: concat_split [OF assms])
  show "ops (T[k := new @ rest] @ started) = mset new + mset (concat started) + ?M" for new started
    by (simp add: concat_update [OF assms(1)])
qed

lemma finals_alone:
  \<comment> \<open>the effects of the last thread are all in one thread\<close>
  assumes k: "k < length T" "T ! k = op # rest" and f: "final_op op"
    and one: "finals (T ! k) = finals (concat T)"
  shows "finals (concat T) = op # finals rest"
    and "finals (concat (T[k := new @ rest])) = finals new @ finals rest"
    and "\<And>j. j < length T \<Longrightarrow> j \<noteq> k \<Longrightarrow> finals (T ! j) = []"
proof -
  show F: "finals (concat T) = op # finals rest" using one k f by simp
  have "finals (concat T) = finals (concat (take k T)) @ (op # finals rest) @ finals (concat (drop (Suc k) T))"
    by (simp add: concat_split [OF k] f)
  from arg_cong [OF this, of length] have "length (finals (concat (take k T))) = 0 \<and> length (finals (concat (drop (Suc k) T))) = 0"
    unfolding F by simp
  then have nil: "finals (concat (take k T)) = []" "finals (concat (drop (Suc k) T)) = []" by simp_all
  then show "finals (concat (T[k := new @ rest])) = finals new @ finals rest"
    by (simp add: concat_update [OF k(1)])
  fix j assume j: "j < length T" "j \<noteq> k"
  have "T ! j \<in> set (take k T) \<or> T ! j \<in> set (drop (Suc k) T)"
  proof (cases "j < k")
    case True
    then show ?thesis using j k(1) by (auto simp: in_set_conv_nth intro!: exI [of _ j])
  next
    case False
    then have "T ! j = drop (Suc k) T ! (j - Suc k)" "j - Suc k < length (drop (Suc k) T)" using j by auto
    then show ?thesis using nth_mem by metis
  qed
  with nil show "finals (T ! j) = []" by (auto simp: filter_empty_conv)
qed

lemma finals_started:
  assumes "\<forall>th\<in>set started. \<exists>p i. th = [Reply p i, Deep p True]"
  shows "finals (concat started) = []" and "\<And>th. th \<in> set started \<Longrightarrow> finals th = []"
proof -
  show th: "finals th = []" if "th \<in> set started" for th
    using assms that by fastforce
  show "finals (concat started) = []" using th by (simp add: filter_concat)
qed

lemma finals_keep:
  assumes k: "k < length T" "T ! k = op # rest" and f: "\<not> final_op op" "finals new = []"
    and st: "\<forall>th\<in>set started. \<exists>p i. th = [Reply p i, Deep p True]"
  shows "finals (concat (T[k := new @ rest] @ started)) = finals (concat T)"
    and "\<And>j. j < length T \<Longrightarrow> finals ((T[k := new @ rest] @ started) ! j) = finals (T ! j)"
    and "\<And>j. length T \<le> j \<Longrightarrow> j < length (T[k := new @ rest] @ started) \<Longrightarrow>
      finals ((T[k := new @ rest] @ started) ! j) = []"
proof -
  show "finals (concat (T[k := new @ rest] @ started)) = finals (concat T)"
    using finals_started(1) [OF st] f by (simp add: concat_split [OF k] concat_update [OF k(1)])
  show "finals ((T[k := new @ rest] @ started) ! j) = finals (T ! j)" if "j < length T" for j
    using that k f by (cases "j = k") (simp_all add: nth_append)
  show "finals ((T[k := new @ rest] @ started) ! j) = []"
    if "length T \<le> j" "j < length (T[k := new @ rest] @ started)" for j
    using that by (intro finals_started(2) [OF st]) (simp add: nth_append)
qed

lemma finishing_keep:
  assumes inv: "finishing fis cdv inst inst' s"
    and k: "k < length (threads s)" "threads s ! k = op # rest"
    and f: "\<not> final_op op" "finals new = []" "op \<noteq> Parse_Rest"
    and st: "\<forall>th\<in>set started. \<exists>p i. th = [Reply p i, Deep p True]"
    and T: "threads t = (threads s)[k := new @ rest] @ started"
    and l: "left fis (ops (threads t)) = left fis (ops (threads s))"
    and es: "fetch_log t = fetch_log s \<or>
      0 < left fis (ops (threads s)) \<and> filter final_event (fetch_log t) = filter final_event (fetch_log s)"
    and same: "promise t = promise s" "shared_cache t = shared_cache s"
  shows "finishing fis cdv inst inst' t"
proof -
  note F = finals_keep(1) [OF k f(1,2) st, folded T]
  have nth: "finals (threads t ! j) = finals (threads s ! j)" if "j < length (threads s)" for j
    using finals_keep(2) [OF k f(1,2) st that] by (simp add: T)
  have new_nth: "finals (threads t ! j) = []" if "length (threads s) \<le> j" "j < length (threads t)" for j
    using finals_keep(3) [OF k f(1,2) st that(1)] that(2) by (simp add: T)
  have ne: "0 < length (threads s)" using k(1) by linarith
  have one: "finals (threads t ! j) = finals (concat (threads t))"
    if j: "j < length (threads t)" "finals (threads t ! j) \<noteq> []" for j
  proof -
    have "j < length (threads s)" using j new_nth by (meson not_le)
    then show ?thesis using nth [of j] inv j F by (simp add: finishing_def)
  qed
  have hd0: "threads t ! 0 = (if k = 0 then new @ rest else threads s ! 0)" using ne by (simp add: T nth_append)
  have pr: "Parse_Rest \<in> set (threads t ! 0)" if "promise t = Some False"
  proof -
    have "Parse_Rest \<in> set (threads s ! 0)" using inv that same by (simp add: finishing_def)
    then show ?thesis using k f(3) by (auto simp: hd0)
  qed
  have ne0: "threads t ! 0 \<noteq> [] \<Longrightarrow> threads s ! 0 \<noteq> []" using k by (auto simp: hd0 split: if_splits)
  have stg: "stage inst inst' (finals (concat (threads t))) (fetch_log t) (promise t) (shared_cache t)"
    if "left fis (ops (threads t)) = 0"
  proof -
    have "fetch_log t = fetch_log s" using es that l by simp
    then show ?thesis using inv that l F same by (simp add: finishing_def)
  qed
  have "finals (threads t ! 0) = finals (threads s ! 0)" by (rule nth [OF ne])
  note hd_fin = this
  note parts = finishingD [OF inv]
  have fe: "filter final_event (fetch_log t) = filter final_event (fetch_log s)" using es by auto
  show ?thesis
  proof (rule finishingI)
    show "stage inst inst' (finals (concat (threads t))) (fetch_log t) (promise t) (shared_cache t)"
      if "left fis (ops (threads t)) = 0" by (rule stg [OF that])
    show "finals (threads t ! j) = finals (concat (threads t))"
      if "j < length (threads t)" "finals (threads t ! j) \<noteq> []" for j by (rule one [OF that])
    show "Parse_Rest \<in> set (threads t ! 0)" if "promise t = Some False" by (rule pr [OF that])
    show "left fis (ops (threads t)) = 0 \<and> (\<forall>p b. Merge_Cache p b \<notin> set (finals (concat (threads t)))) \<and>
        Parse_Cached \<notin> set (finals (concat (threads t)))" if "promise t = Some True" "threads t ! 0 \<noteq> []"
      unfolding F l by (rule parts(6) [OF _ ne0 [OF that(2)]]) (use that(1) same in simp)
  qed (use parts(1,4,7) in \<open>simp_all only: F l same fe hd_fin\<close>)
qed

lemma finals_first:
  \<comment> \<open>one thread gets the first effects of the last thread\<close>
  assumes none: "finals (concat T) = []" and k: "k < length T" "T ! k = op # rest"
  shows "finals (concat (T[k := new @ rest])) = finals new" and "finals rest = []"
    and "j < length T \<Longrightarrow> finals (T[k := new @ rest] ! j) = (if j = k then finals new else [])"
proof -
  have each: "finals (T ! j) = []" if "j < length T" for j
    using that nth_mem [OF that] none by (auto simp: filter_empty_conv)
  show fr: "finals rest = []" using each [OF k(1)] k(2) by (auto split: if_splits)
  show "finals (concat (T[k := new @ rest])) = finals new"
    using none by (simp add: concat_split [OF k] concat_update [OF k(1)] split: if_splits)
  show "j < length T \<Longrightarrow> finals (T[k := new @ rest] ! j) = (if j = k then finals new else [])"
    using each fr by (cases "j = k") simp_all
qed

lemma finishing_cond:
  assumes inv: "finishing fis cdv inst inst' s"
    and cn: "counting env net fis (ops (threads s)) (cond s) (item_conds s)"
    and k: "k < length (threads s)" "threads s ! k = Cond p b # rest"
    and step: "op_step env net fis (Cond p b) s = Inr (new, started, t)"
  shows "finishing fis cdv inst inst' (t\<lparr>threads := (threads s)[k := new @ rest] @ started\<rparr>)"
proof -
  let ?T = "(threads s)[k := new @ rest] @ started"
  obtain M where M: "ops (threads s) = add_mset (Cond p b) M"
    "\<And>new started. ops ((threads s)[k := new @ rest] @ started) = mset new + mset (concat started) + M"
    using ops_split [OF k] by blast
  note cc = counting_cond [OF cn [unfolded M(1)]]
  have t: "new = (if sint (cond s) = 1 then [Merge_Cache p b] else [])" "started = []" "t = s\<lparr>cond := cond s - 1\<rparr>"
    using step by (auto simp: fetch_sub1_def Let_def)
  have p: "p < length fis" using cn M(1) by (auto simp: counting_def)
  have U: "left fis (ops (threads s)) = Suc (left fis M)" unfolding M(1) by (rule left_cond [OF p])
  have U': "left fis (ops ?T) = left fis M" unfolding M(2) using cc(3) by (auto simp: t)
  have F: "finals (concat (threads s)) = []" "filter final_event (fetch_log s) = []" "shared_cache s = inst"
    using inv U by (simp_all add: finishing_def)
  note ff = finals_first(1,3) [OF F(1) k]
  have F': "finals (concat ?T) = finals new" using ff(1) by (simp add: t(2))
  have nth: "finals (?T ! j) = (if j = k then finals new else [])" if "j < length ?T" for j
    using ff(2) [of j] that by (simp add: t(2))
  have ne: "0 < length (threads s)" using k(1) by linarith
  have hd0: "?T ! 0 = (if k = 0 then new @ rest else threads s ! 0)" using ne by (simp add: nth_append)
  have "\<not> (promise s = Some True \<and> threads s ! 0 \<noteq> [])" using finishingD(6) [OF inv] U by auto
  then have nt: "\<not> (promise s = Some True \<and> ?T ! 0 \<noteq> [])" using k(2) by (auto simp: hd0)
  have pr: "promise s = Some False \<Longrightarrow> Parse_Rest \<in> set (?T ! 0)"
    using finishingD(5) [OF inv] k(2) by (auto simp: hd0)
  have stg: "stage inst inst' (finals (concat ?T)) (fetch_log s) (promise s) (shared_cache s)" if "left fis M = 0"
  proof -
    have "finals new = [Merge_Cache p b]" using cc(2) that by (simp add: t(1))
    then show ?thesis unfolding F' F(3) using stage.merge [OF F(2)] by simp
  qed
  have nw: "finals (?T ! 0) \<noteq> Wait_Cached # x" for x using nth [of 0] ne by (auto simp: t split: if_splits)
  have F0: "finals (concat ?T) = []" if "0 < left fis M" unfolding F' using that cc(2) by (simp add: t(1))
  have pn: "promise s = None \<longleftrightarrow> cdv = []" using inv by (simp add: finishing_def)
  let ?t = "t\<lparr>threads := ?T\<rparr>"
  have ft: "threads ?t = ?T" "fetch_log ?t = fetch_log s" "promise ?t = promise s" "shared_cache ?t = shared_cache s"
    by (simp_all add: t(3))
  show ?thesis
  proof (rule finishingI, unfold ft U')
    show "finals (?T ! j) = finals (concat ?T)" if "j < length ?T" "finals (?T ! j) \<noteq> []" for j
      using that nth [OF that(1)] F' by (cases "j = k") simp_all
  qed (use F F0 stg pn pr nt nw in blast)+
qed

lemma finishing_final:
  assumes inv: "finishing fis cdv inst inst' s"
    and k: "k < length (threads s)" "threads s ! k = op # rest" and f: "final_op op"
    and T: "threads t = (threads s)[k := new @ rest]" and l: "left fis (ops (threads t)) = 0"
    and stg: "stage inst inst' (finals new @ finals rest) (fetch_log t) (promise t) (shared_cache t)"
    and pn: "promise t = None \<longleftrightarrow> cdv = []" and pf: "promise t = Some False \<Longrightarrow> promise s = Some False"
    and pt: "promise t = Some True \<Longrightarrow> threads t ! 0 \<noteq> [] \<Longrightarrow>
      (\<forall>p b. Merge_Cache p b \<notin> set (finals new @ finals rest)) \<and> Parse_Cached \<notin> set (finals new @ finals rest)"
    and pw: "\<And>x. k = 0 \<Longrightarrow> finals new @ finals rest = Wait_Cached # x \<Longrightarrow> promise t = Some True"
  shows "finishing fis cdv inst inst' t"
proof -
  have "finals (threads s ! k) = finals (concat (threads s))"
    by (rule finishingD(3) [OF inv k(1)]) (simp add: k(2) f)
  note alone = finals_alone [OF k f this]
  have F': "finals (concat (threads t)) = finals new @ finals rest" unfolding T by (rule alone(2))
  have nth: "finals (threads t ! j) = (if j = k then finals new @ finals rest else [])" if "j < length (threads s)" for j
    using that alone(3) [OF that] by (cases "j = k") (simp_all add: T)
  have ne: "0 < length (threads s)" using k(1) by linarith
  have hd0: "threads t ! 0 = (if k = 0 then new @ rest else threads s ! 0)" using ne by (simp add: T)
  have len: "length (threads t) = length (threads s)" by (simp add: T)
  show ?thesis
  proof (rule finishingI, unfold F' l)
    show "finals (threads t ! j) = finals new @ finals rest"
      if "j < length (threads t)" "finals (threads t ! j) \<noteq> []" for j
      using that nth [of j] by (auto simp: len split: if_splits)
    show "Parse_Rest \<in> set (threads t ! 0)" if "promise t = Some False"
      using finishingD(5) [OF inv pf [OF that]] k(2) f by (auto simp: hd0)
    show "promise t = Some True" if "finals (threads t ! 0) = Wait_Cached # x" for x
      using that nth [OF ne] pw by (auto split: if_splits)
    show "stage inst inst' (finals new @ finals rest) (fetch_log t) (promise t) (shared_cache t)" by (rule stg)
  qed (use pn pt in \<open>simp_all\<close>)
qed

lemma left_pos:
  assumes "counting env net fis M c ics" and "op \<in># M" and "pend_op p op \<or> cond_op p op \<or> op = Info p"
  shows "0 < left fis M"
proof -
  have "p < length fis"
    using assms by (cases op) (auto simp: counting_def)
  moreover obtain N where N: "M = add_mset op N" using assms(2) by (metis mset_add)
  have "0 < live p M"
    using assms(3) by (auto simp: live_def N)
  ultimately show ?thesis using left_0 [of fis M] by auto
qed

lemma all_replied:
  assumes cn: "counting env net fis (ops (threads s)) c ics" and sh: "shape (threads s)"
    and co: "collected env net fis cdv (ops (threads s)) s" and l: "left fis (ops (threads s)) = 0"
  shows "replied (fetch_log s) = mset (all_sent env net fis)" and "results s = final_results env net fis"
proof -
  let ?M = "ops (threads s)"
  have no: "\<not> pend_op p op \<and> \<not> cond_op p op \<and> op \<noteq> Info p" if "op \<in># ?M" for p op
    using left_pos [OF cn that, of p] l by auto
  have "to_reply env net fis op = {#}" if op: "op \<in># ?M" for op
  proof (cases op)
    case (Reply p i)
    obtain k where k: "k < length (threads s)" "Reply p i \<in> set (threads s ! k)"
      using op Reply by (auto simp: in_set_conv_nth [of _ "threads s"])
    have "0 < k" using sh k(2) unfolding shape_def by (metis gr0I main_op.simps(1))
    then have "threads s ! k = [Reply p i, Deep p True]" using sh k unfolding shape_def by blast
    then have "Deep p True \<in># ?M" using nth_mem [OF k(1)] by force
    then show ?thesis using no [of "Deep p True" p] by simp
  next
    case (Info p)
    then show ?thesis using no [OF op, of p] by simp
  next
    case (Issue p i)
    then show ?thesis using no [OF op, of p] by simp
  qed simp_all
  then have u: "unreplied env net fis ?M = {#}"
    by (metis (no_types, lifting) image_mset_cong image_mset_empty sum_mset.neutral_const)
  have "replied (fetch_log s) + unreplied env net fis ?M = mset (all_sent env net fis)"
    using co unfolding collected_def by blast
  then show r: "replied (fetch_log s) = mset (all_sent env net fis)" unfolding u by simp
  have "results s ! p = map (item_after env net fis p) (starts_of env fis p)" if p: "p < length fis" for p
  proof -
    have "Info p \<notin># ?M" using no [of "Info p" p] by auto
    then have "results s ! p = results_now env net fis (fetch_log s) p" using co p by (simp add: collected_def)
    also have "\<dots> = map (item_after env net fis p) (starts_of env fis p)"
      unfolding results_now_def
    proof (intro map_cong refl)
      fix i assume i: "i \<in> set (starts_of env fis p)"
      have "sent net p i \<Longrightarrow> (p, i) \<in># replied (fetch_log s)"
        unfolding r using i p by (auto simp: all_sent_def sent_pairs_def)
      then show "(if (p, i) \<in># replied (fetch_log s) then item_after env net fis p i else new_item) =
          item_after env net fis p i" by (auto simp: item_after_def)
    qed
    finally show ?thesis .
  qed
  then show "results s = final_results env net fis"
    using co by (intro nth_equalityI) (simp_all add: final_results_def collected_def)
qed

section \<open>The invariant\<close>

definition join_inv ::
  "('m, 'c) service_env \<Rightarrow> net \<Rightarrow> fetch_info list \<Rightarrow> cache_data_item list \<Rightarrow> 'm cache_manager \<Rightarrow> 'm cache_manager \<Rightarrow>
   'm fetch_run \<Rightarrow> bool"
where
  "join_inv env net fis cdv inst inst' s \<longleftrightarrow>
     workable env net fis cdv inst inst' \<and>
     counting env net fis (ops (threads s)) (cond s) (item_conds s) \<and>
     collected env net fis cdv (ops (threads s)) s \<and> shape (threads s) \<and> finishing fis cdv inst inst' s"

lemma merge_ready:
  \<comment> \<open>the merge works on the final results\<close>
  assumes inv: "join_inv env net fis cdv inst inst' s"
    and k: "k < length (threads s)" "threads s ! k = Merge_Cache p b # rest"
  shows "left fis (ops (threads s)) = 0" and "finals rest = []" and "filter final_event (fetch_log s) = []"
    and "merge_cache_data env (merge_time net) fis (Some (zip (map fi_id fis) (results s))) (shared_cache s) = Inr inst'"
proof -
  have w: "workable env net fis cdv inst inst'" and fn: "finishing fis cdv inst inst' s"
    using inv by (simp_all add: join_inv_def)
  have one: "finals (threads s ! k) = finals (concat (threads s))"
    by (rule finishingD(3) [OF fn k(1)]) (simp add: k(2))
  have F: "finals (concat (threads s)) = Merge_Cache p b # finals rest" using one k by simp
  show l: "left fis (ops (threads s)) = 0" using finishingD(1) [OF fn] F by (cases "left fis (ops (threads s))") auto
  have "stage inst inst' (Merge_Cache p b # finals rest) (fetch_log s) (promise s) (shared_cache s)"
    using finishingD(2) [OF fn l] F by simp
  then have st: "finals rest = []" "filter final_event (fetch_log s) = []" "shared_cache s = inst"
    by (auto elim: stage_consE)
  then show "finals rest = []" "filter final_event (fetch_log s) = []" by simp_all
  have "results s = final_results env net fis"
    using inv all_replied(2) [of env net fis s] l by (auto simp: join_inv_def)
  then show "merge_cache_data env (merge_time net) fis (Some (zip (map fi_id fis) (results s))) (shared_cache s) = Inr inst'"
    using w st(3) by (simp add: workable_def)
qed

text \<open>What a step of each kind does to the results.\<close>

lemma collected_step:
  assumes w: "workable env net fis cdv inst inst'"
    and cn: "counting env net fis (add_mset op M) (cond s) (item_conds s)"
    and co: "collected env net fis cdv (add_mset op M) s"
    and step: "op_step env net fis op s = Inr (new, started, t)"
    and mo: "\<forall>p b. op = Merge_Cache p b \<longrightarrow> merge_ok env net fis s"
    and pr: "op = Parse_Cached \<Longrightarrow> promise s = Some False"
  shows "collected env net fis cdv (mset new + mset (concat started) + M) t"
proof -
  have ok: "op_ok env net fis op" using cn by (simp add: counting_def)
  have p: "count M (Info p) = 0" if "op = Info p" for p using cn that by (auto simp: counting_def dest: spec [of _ p])
  from w ok step mo show ?thesis
  proof (cases rule: op_cases)
    case (info p)
    with collected_info [OF w co [unfolded info(1)]] ok p show ?thesis by simp
  next
    case (unserved p)
    have "starts_of env fis p = []" using unserved(2) by (simp add: starts_of_def)
    moreover from this have "results_now env net fis (fetch_log s) p = []" by (simp add: results_now_def)
    ultimately show ?thesis using co p ok unserved by (auto simp: collected_def sent_pairs_def)
  next
    case (reply p i)
    with collected_reply [OF w co [unfolded reply(1)] _ _ _ step [unfolded reply(1)]] ok show ?thesis by simp
  next
    case (parse calls)
    have "promise s = Some False" using parse(1) pr co by (auto simp: collected_def split: if_splits)
    with collected_parse(1) [OF w co _ _ parse(4)] parse(1-3) show ?thesis by auto
  qed (rule collected_keep [OF co]; auto split: if_splits)+
qed

lemma join_invD:
  assumes "join_inv env net fis cdv inst inst' s"
  shows "workable env net fis cdv inst inst'" and "counting env net fis (ops (threads s)) (cond s) (item_conds s)"
    and "collected env net fis cdv (ops (threads s)) s" and "shape (threads s)" and "finishing fis cdv inst inst' s"
  using assms by (simp_all add: join_inv_def)

lemma left_cond_eq:
  "counting env net fis M c ics \<Longrightarrow> counting env net fis M' c ics' \<Longrightarrow> left fis M' = left fis M"
  by (simp add: counting_def)

text \<open>The effects before the last count leave the last thread alone.\<close>

lemma early_step:
  assumes "workable env net fis cdv inst inst'" and "op_ok env net fis op"
    and "op_step env net fis op s = Inr (new, started, t)"
    and op: "\<not> final_op op" "op \<noteq> Parse_Rest" "\<And>p b. op \<noteq> Cond p b"
  shows "\<forall>th\<in>set started. \<exists>p i. th = [Reply p i, Deep p True]" and "finals new = []"
    and "promise t = promise s" and "shared_cache t = shared_cache s" and "cond t = cond s"
    and "fetch_log t = fetch_log s \<or> (\<exists>p i. op = Reply p i \<and> fetch_log t = fetch_log s @ [Replied p i])"
proof -
  have "\<forall>p b. op = Merge_Cache p b \<longrightarrow> merge_ok env net fis s" using op(1) by auto
  with assms(1-3) show "\<forall>th\<in>set started. \<exists>p i. th = [Reply p i, Deep p True]" "finals new = []"
    "promise t = promise s" "shared_cache t = shared_cache s" "cond t = cond s"
    "fetch_log t = fetch_log s \<or> (\<exists>p i. op = Reply p i \<and> fetch_log t = fetch_log s @ [Replied p i])"
    using op by (cases rule: op_cases; auto simp: filter_empty_conv split: if_splits)+
qed

lemma reply_left:
  assumes inv: "join_inv env net fis cdv inst inst' s" and k: "k < length (threads s)" "threads s ! k = Reply p i # rest"
  shows "0 < left fis (ops (threads s))"
proof -
  note d = join_invD [OF inv]
  have "0 < k" using d(4) k unfolding shape_def by (metis gr0I list.set_intros(1) main_op.simps(1))
  then have "threads s ! k = [Reply p i, Deep p True]" using d(4) k unfolding shape_def by (metis list.set_intros(1))
  then have "Deep p True \<in># ops (threads s)" using nth_mem [OF k(1)] by force
  then show ?thesis by (rule left_pos [OF d(2)]) simp
qed

lemma finishing_early:
  assumes inv: "join_inv env net fis cdv inst inst' s"
    and k: "k < length (threads s)" "threads s ! k = op # rest" and ok: "op_ok env net fis op"
    and op: "\<not> final_op op" "op \<noteq> Parse_Rest" "\<And>p b. op \<noteq> Cond p b"
    and step: "op_step env net fis op s = Inr (new, started, t)"
    and cn: "counting env net fis (ops ((threads s)[k := new @ rest] @ started)) (cond t) (item_conds t)"
  shows "finishing fis cdv inst inst' (t\<lparr>threads := (threads s)[k := new @ rest] @ started\<rparr>)"
proof -
  note d = join_invD [OF inv]
  note st = early_step [OF d(1) ok step op]
  have es: "fetch_log t = fetch_log s \<or>
      0 < left fis (ops (threads s)) \<and> filter final_event (fetch_log t) = filter final_event (fetch_log s)"
    using st(6) reply_left [OF inv k(1)] k(2) by auto
  show ?thesis
  proof (rule finishing_keep [OF d(5) k op(1) st(2) op(2) st(1)])
    show "left fis (ops (threads (t\<lparr>threads := (threads s)[k := new @ rest] @ started\<rparr>))) = left fis (ops (threads s))"
      using left_cond_eq [OF d(2), of _ "item_conds t"] cn unfolding st(5) by simp
  qed (use es st(3,4) in simp_all)
qed

text \<open>The thread of the node parses what was found in the cache, unless another did.\<close>

lemma parse_rest_effect:
  assumes co: "collected env net fis cdv M s" and fn: "finishing fis cdv inst inst' s"
    and step: "op_step env net fis Parse_Rest s = Inr (new, started, t)"
  shows "new = []" and "started = []" and "cond t = cond s" and "shared_cache t = shared_cache s"
    and "(promise s = Some False \<and> promise t = Some True \<and> fetch_log t = fetch_log s @ [Parsed_Cached]) \<or>
     (promise s \<noteq> Some False \<and> promise t = promise s \<and> fetch_log t = fetch_log s)"
proof -
  show "new = []" "started = []" using step by (auto simp: res_simps split: if_splits)
  have "cached s = (if promise s = Some False then cdv else [])" using co by (simp add: collected_def)
  moreover have "cdv = [] \<Longrightarrow> promise s \<noteq> Some False" using finishingD(4) [OF fn] by auto
  ultimately show "cond t = cond s" "shared_cache t = shared_cache s"
    "(promise s = Some False \<and> promise t = Some True \<and> fetch_log t = fetch_log s @ [Parsed_Cached]) \<or>
     (promise s \<noteq> Some False \<and> promise t = promise s \<and> fetch_log t = fetch_log s)"
    using step by (auto simp: res_simps parse_cached_def split: case_splits)
qed

lemma no_parse_cached:
  assumes sh: "shape (threads s)" and k: "k < length (threads s)" "threads s ! k = [Parse_Rest]" "k = 0"
  shows "Parse_Cached \<notin> set (finals (concat (threads s)))"
proof
  assume "Parse_Cached \<in> set (finals (concat (threads s)))"
  then obtain j where j: "j < length (threads s)" "Parse_Cached \<in> set (threads s ! j)"
    by (auto simp: in_set_conv_nth [of _ "threads s"])
  have "j = 0" using sh j unfolding shape_def by (metis gr0I side_op.simps(3))
  then show False using j k by simp
qed

lemma finishing_rest:
  assumes inv: "join_inv env net fis cdv inst inst' s"
    and k: "k < length (threads s)" "threads s ! k = Parse_Rest # rest"
    and step: "op_step env net fis Parse_Rest s = Inr (new, started, t)"
    and cn: "counting env net fis (ops ((threads s)[k := new @ rest] @ started)) (cond t) (item_conds t)"
  shows "finishing fis cdv inst inst' (t\<lparr>threads := (threads s)[k := new @ rest] @ started\<rparr>)"
proof -
  note d = join_invD [OF inv]
  have k0: "k = 0" "rest = []" using shape_step(2) [OF d(1) _ d(4) k step] by auto
  note e = parse_rest_effect [OF d(3,5) step]
  note ns = e(1,2) and t = e(3-5)
  let ?T = "(threads s)[k := []]"
  let ?t = "t\<lparr>threads := ?T\<rparr>"
  have keep: "finals (concat ?T) = finals (concat (threads s))" "\<And>j. j < length (threads s) \<Longrightarrow> finals (?T ! j) = finals (threads s ! j)"
    using finals_keep(1,2) [OF k, of "[]" "[]"] k0(2) by simp_all
  have l: "left fis (ops ?T) = left fis (ops (threads s))"
    using left_cond_eq [OF d(2), of _ "item_conds t"] cn ns k0(2) t(1) by simp
  have hd0: "?T ! 0 = []" using k(1) k0(1) by simp
  have np: "Parse_Cached \<notin> set (finals (concat (threads s)))"
    by (rule no_parse_cached [OF d(4) k(1)]) (use k(2) k0 in simp_all)
  have ft: "threads ?t = ?T" "fetch_log ?t = fetch_log t" "promise ?t = promise t" "shared_cache ?t = shared_cache t"
    by simp_all
  have "finishing fis cdv inst inst' ?t"
  proof (rule finishingI)
    show "stage inst inst' (finals (concat (threads ?t))) (fetch_log ?t) (promise ?t) (shared_cache ?t)"
      if "left fis (ops (threads ?t)) = 0"
    proof -
      have "stage inst inst' (finals (concat (threads s))) (fetch_log s) (promise s) (shared_cache s)"
        using finishingD(2) [OF d(5)] that l by simp
      then have "stage inst inst' (finals (concat (threads s))) (fetch_log t) (promise t) (shared_cache t)"
        using t(2,3) np stage_parsed [of inst inst' _ "fetch_log s" "shared_cache s"] by auto
      then show ?thesis unfolding ft keep(1) .
    qed
    show "finals (threads ?t ! j) = finals (concat (threads ?t))"
      if "j < length (threads ?t)" "finals (threads ?t ! j) \<noteq> []" for j
      using that keep finishingD(3) [OF d(5), of j] by simp
    show "0 < left fis (ops (threads ?t)) \<Longrightarrow> finals (concat (threads ?t)) = [] \<and>
        filter final_event (fetch_log ?t) = [] \<and> shared_cache ?t = inst"
      using finishingD(1) [OF d(5)] t(2,3) by (auto simp: keep(1) l)
  qed (use finishingD(4) [OF d(5)] t(3) hd0 in auto)
  then show ?thesis by (simp add: ns k0(2))
qed

text \<open>The last thread goes from stage to stage.\<close>

lemma stage_step:
  assumes "workable env net fis cdv inst inst'" and "op_ok env net fis op"
    and "op_step env net fis op s = Inr (new, started, t)"
    and m: "\<forall>p b. op = Merge_Cache p b \<longrightarrow>
      merge_cache_data env (merge_time net) fis (Some (zip (map fi_id fis) (results s))) (shared_cache s) = Inr inst'"
    and f: "final_op op" and nb: "\<not> blocked op s"
    and stg: "stage inst inst' (op # F) (fetch_log s) (promise s) (shared_cache s)"
    and pf: "\<forall>p. op = Merge_Cache p False \<longrightarrow> promise s \<noteq> Some True"
  shows "started = [] \<and> cond t = cond s \<and> (promise t = promise s \<or> promise s = Some False \<and> promise t = Some True) \<and>
    stage inst inst' (finals new @ F) (fetch_log t) (promise t) (shared_cache t) \<and>
    (promise t = Some True \<longrightarrow> (\<forall>p b. Merge_Cache p b \<notin> set (finals new @ F)) \<and> Parse_Cached \<notin> set (finals new @ F)) \<and>
    ((\<forall>p. op \<noteq> Merge_Cache p True) \<longrightarrow> (\<forall>x. finals new @ F = Wait_Cached # x \<longrightarrow> promise t = Some True))"
proof -
  have "\<forall>p b. op = Merge_Cache p b \<longrightarrow> merge_ok env net fis s" using m by auto
  with assms(1-3) show ?thesis
  proof (cases rule: op_cases)
    case (merge p b c)
    have st: "F = []" "filter final_event (fetch_log s @ [Merged]) = [Merged]"
      using stg merge(1) by (auto elim: stage_consE)
    have "c = inst'" using m merge(1,4) by simp
    then show ?thesis using merge st pf
      by (cases "promise s"; cases b) (auto intro: stage.respond stage.wait stage.parse)
  next
    case (parse calls)
    then have st: "promise s = Some False" "filter final_event (fetch_log s @ [Parsed_Cached]) = [Merged]"
      "shared_cache s = inst'" "F = [Wait_Cached, Respond, Notify_Outputs]"
      using stg f by (auto elim: stage_consE)
    with parse stage.wait [OF st(2), of "Some True"] show ?thesis by simp
  next
    case wait
    with stg nb show ?thesis by (auto simp: blocked_def elim!: stage_consE intro: stage.respond)
  next
    case respond
    with stg show ?thesis by (auto elim!: stage_consE intro: stage.notify)
  next
    case notify
    with stg stage.over [where inst = inst and inst' = inst'] show ?thesis by (fastforce elim!: stage_consE)
  qed (use f in simp_all)
qed

lemma finishing_last:
  assumes inv: "join_inv env net fis cdv inst inst' s"
    and k: "k < length (threads s)" "threads s ! k = op # rest" and ok: "op_ok env net fis op"
    and f: "final_op op" and nb: "\<not> blocked op s"
    and step: "op_step env net fis op s = Inr (new, started, t)"
    and cn: "counting env net fis (ops ((threads s)[k := new @ rest] @ started)) (cond t) (item_conds t)"
  shows "finishing fis cdv inst inst' (t\<lparr>threads := (threads s)[k := new @ rest] @ started\<rparr>)"
proof -
  note d = join_invD [OF inv]
  have "finals (threads s ! k) = finals (concat (threads s))"
    by (rule finishingD(3) [OF d(5) k(1)]) (simp add: k(2) f)
  then have F: "finals (concat (threads s)) = op # finals rest" using k f by simp
  have l: "left fis (ops (threads s)) = 0"
    using finishingD(1) [OF d(5)] F by (cases "left fis (ops (threads s))") auto
  have stg: "stage inst inst' (op # finals rest) (fetch_log s) (promise s) (shared_cache s)"
    using finishingD(2) [OF d(5) l] F by simp
  have m: "\<forall>p b. op = Merge_Cache p b \<longrightarrow>
      merge_cache_data env (merge_time net) fis (Some (zip (map fi_id fis) (results s))) (shared_cache s) = Inr inst'"
    using merge_ready(4) [OF inv k(1), of _ _ rest] k(2) by auto
  have main: "k = 0" if "\<not> side_op op" using that d(4) k unfolding shape_def by (metis gr0I list.set_intros(1))
  have side: "k \<noteq> 0" if "\<not> main_op op" using that d(4) k unfolding shape_def by (metis list.set_intros(1))
  have "Merge_Cache p b \<in> set (finals (concat (threads s)))" if "op = Merge_Cache p b" for p b using F that by simp
  moreover have "threads s ! 0 \<noteq> []" if "op = Merge_Cache p False" for p using main k(2) that by auto
  ultimately have pf: "\<forall>p. op = Merge_Cache p False \<longrightarrow> promise s \<noteq> Some True"
    using finishingD(6) [OF d(5)] by blast
  from stage_step [OF d(1) ok step m f nb stg pf]
  have st: "started = []" "cond t = cond s" "promise t = promise s \<or> promise s = Some False \<and> promise t = Some True"
    "stage inst inst' (finals new @ finals rest) (fetch_log t) (promise t) (shared_cache t)"
    "promise t = Some True \<Longrightarrow> (\<forall>p b. Merge_Cache p b \<notin> set (finals new @ finals rest)) \<and> Parse_Cached \<notin> set (finals new @ finals rest)"
    "\<And>x. (\<forall>p. op \<noteq> Merge_Cache p True) \<Longrightarrow> finals new @ finals rest = Wait_Cached # x \<Longrightarrow> promise t = Some True"
    by blast+
  have pw: "promise t = Some True" if "k = 0" "finals new @ finals rest = Wait_Cached # x" for x
    using st(6) [OF _ that(2)] side that(1) by fastforce
  let ?t = "t\<lparr>threads := (threads s)[k := new @ rest]\<rparr>"
  have "left fis (ops (threads ?t)) = left fis (ops (threads s))"
    using left_cond_eq [OF d(2), of _ "item_conds t"] cn st(1,2) by simp
  then have "left fis (ops (threads ?t)) = 0" using l by simp
  then have "finishing fis cdv inst inst' ?t"
    by (rule finishing_final [OF d(5) k f _ , rotated])
      (use st(3-5) finishingD(4) [OF d(5)] pw in auto)
  then show ?thesis by (simp add: st(1))
qed

end
