(* ===== verification/RedisJoinRun.thy ===== *)
theory RedisJoinRun
  imports RedisJoinSpec
begin

text \<open>
  The runs of a redis service: every step keeps the invariant of \<open>RedisJoinSpec\<close> and brings the end
  nearer, no thread is stuck before the end, and so every interleaving ends after the output nodes were
  notified once.
\<close>

section \<open>Every step\<close>

fun weight :: "('m, 'c) service_env \<Rightarrow> fetch_info list \<Rightarrow> fetch_op \<Rightarrow> nat" where
  "weight env fis (Info p) = 7 + 9 * length (starts_of env fis p)"
| "weight env fis (Issue p i) = 9"
| "weight env fis (Deep p b) = 7"
| "weight env fis (Cond p b) = 6"
| "weight env fis (Merge_Cache p b) = 5"
| "weight env fis _ = 1"

definition join_mu :: "('m, 'c) service_env \<Rightarrow> fetch_info list \<Rightarrow> 'm fetch_run \<Rightarrow> nat" where
  "join_mu env fis s = (\<Sum>op\<in>#ops (threads s). weight env fis op)"

lemma weight_issues: "(\<Sum>op\<in>#mset (map (Issue p) xs). weight env fis op) = 9 * length xs"
  by (induction xs) auto

lemma op_step_weight:
  assumes "workable env net fis cdv inst inst'" and "op_ok env net fis op"
    and "op_step env net fis op s = Inr (new, started, t)"
    and "\<forall>p b. op = Merge_Cache p b \<longrightarrow> merge_ok env net fis s"
  shows "(\<Sum>x\<in>#mset new + mset (concat started). weight env fis x) < weight env fis op"
  using assms
proof (cases rule: op_cases)
  case (info p)
  with weight_issues [of env fis p "starts_of env fis p"] show ?thesis by simp
qed (auto split: if_splits)

lemma fetch_step_op:
  assumes "fetch_step env net fis s u"
  obtains k op rest new started t where "k < length (threads s)" and "threads s ! k = op # rest"
    and "\<not> blocked op s" and "op_step env net fis op s = Inr (new, started, t)"
    and "u = t\<lparr>threads := (threads s)[k := new @ rest] @ started\<rparr>"
  using assms by (auto elim!: fetch_stepE simp: thread_step_def res_simps)

lemma stage_pending: "stage inst inst' F es pr c \<Longrightarrow> Parse_Cached \<in> set F \<Longrightarrow> pr = Some False"
  by (cases rule: stage.cases) auto

lemma parse_pending:
  assumes "join_inv env net fis cdv inst inst' s" and "k < length (threads s)" and "threads s ! k = op # rest"
    and "op = Parse_Cached"
  shows "promise s = Some False"
proof -
  note fn = join_invD(5) [OF assms(1)]
  have "Parse_Cached \<in> set (finals (threads s ! k))" using assms(3,4) by simp
  then have F: "Parse_Cached \<in> set (finals (concat (threads s)))" using nth_mem [OF assms(2)] by auto
  then have "left fis (ops (threads s)) = 0"
    using finishingD(1) [OF fn] by (cases "left fis (ops (threads s))") auto
  from stage_pending [OF finishingD(2) [OF fn this] F] show ?thesis .
qed

lemma join_finishing:
  assumes inv: "join_inv env net fis cdv inst inst' s" and k: "k < length (threads s)" "threads s ! k = op # rest"
    and ok: "op_ok env net fis op" and nb: "\<not> blocked op s" and step: "op_step env net fis op s = Inr (new, started, t)"
    and cn: "counting env net fis (ops ((threads s)[k := new @ rest] @ started)) (cond t) (item_conds t)"
  shows "finishing fis cdv inst inst' (t\<lparr>threads := (threads s)[k := new @ rest] @ started\<rparr>)"
proof -
  consider (last) "final_op op" | (count) p b where "op = Cond p b" | (rest) "op = Parse_Rest"
    | (early) "\<not> final_op op" "op \<noteq> Parse_Rest" "\<And>p b. op \<noteq> Cond p b" by blast
  then show ?thesis
  proof cases
    case last
    then show ?thesis by (rule finishing_last [OF inv k ok _ nb step cn])
  next
    case count
    show ?thesis using finishing_cond [OF join_invD(5,2) [OF inv] k(1)] k(2) step unfolding count by blast
  next
    case rest
    show ?thesis by (rule finishing_rest [OF inv k(1) k(2) [unfolded rest] step [unfolded rest] cn])
  next
    case early
    then show ?thesis by (rule finishing_early [OF inv k ok _ _ _ step cn])
  qed
qed

lemma join_step_both:
  assumes inv: "join_inv env net fis cdv inst inst' s" and st: "fetch_step env net fis s u"
  shows "join_inv env net fis cdv inst inst' u \<and> join_mu env fis u < join_mu env fis s"
proof -
  obtain k op rest new started t where k: "k < length (threads s)" "threads s ! k = op # rest"
    and nb: "\<not> blocked op s" and step: "op_step env net fis op s = Inr (new, started, t)"
    and u: "u = t\<lparr>threads := (threads s)[k := new @ rest] @ started\<rparr>"
    using st by (rule fetch_step_op)
  note d = join_invD [OF inv]
  have mo: "\<forall>p b. op = Merge_Cache p b \<longrightarrow> merge_ok env net fis s"
    using merge_ready(4) [OF inv k(1), of _ _ rest] k(2) by auto
  obtain M where M: "ops (threads s) = add_mset op M"
    and M': "\<And>new started. ops ((threads s)[k := new @ rest] @ started) = mset new + mset (concat started) + M"
    using ops_split [OF k] by blast
  have "counting env net fis (mset new + mset (concat started) + M) (cond t) (item_conds t)"
    by (rule counting_step [OF d(1) d(2) [unfolded M] step mo])
  moreover have tu: "threads u = (threads s)[k := new @ rest] @ started" "cond u = cond t" "item_conds u = item_conds t"
    by (simp_all add: u)
  ultimately have cn: "counting env net fis (ops (threads u)) (cond u) (item_conds u)" unfolding tu M' by blast
  note pc = parse_pending [OF inv k(1) k(2)]
  have co: "collected env net fis cdv (ops (threads u)) u"
    using collected_step [OF d(1) d(2) [unfolded M] d(3) [unfolded M] step mo pc]
    unfolding tu(1) M' by (simp add: u collected_def)
  have ok: "op_ok env net fis op" using d(2) by (simp add: counting_def M)
  have sh: "shape (threads u)" using shape_step(1) [OF d(1) ok d(4) k step mo] by (simp add: u)
  have cn': "counting env net fis (ops ((threads s)[k := new @ rest] @ started)) (cond t) (item_conds t)"
    using cn by (simp add: u)
  have "finishing fis cdv inst inst' u" unfolding u by (rule join_finishing [OF inv k ok nb step cn'])
  moreover have "join_mu env fis u < join_mu env fis s"
  proof -
    have "(\<Sum>x\<in>#mset new + mset (concat started). weight env fis x) < weight env fis op"
      by (rule op_step_weight [OF d(1) ok step mo])
    then show ?thesis unfolding join_mu_def tu(1) M' M by simp
  qed
  ultimately show ?thesis using d(1) cn co sh by (simp add: join_inv_def)
qed

interpretation fetching: terminating_system "fetch_step env net fis" "join_inv env net fis cdv inst inst'"
    "join_mu env fis" for env :: "('m, 'c) service_env" and net fis cdv inst inst'
  by unfold_locales (simp_all add: join_step_both)

section \<open>The start and the end\<close>

lemma first_ops: "ops (threads (first_run fis cdv inst)) = add_mset Parse_Rest (mset (map Info [0..<length fis]))"
  by (simp add: first_run_def)

lemma infos:
  shows "count (mset (map Info [0..<n])) (Info p) = (if p < n then 1 else 0)"
    and "filter_mset (pend_op p) (mset (map Info [0..<n])) = {#}"
    and "filter_mset (cond_op p) (mset (map Info [0..<n])) = {#}"
    and "unreplied env net fis (mset (map Info [0..<n])) = mset (concat (map (sent_pairs env net fis) [0..<n]))"
    and "(\<Sum>op\<in>#mset (map Info [0..<n]). weight env fis op) = 7 * n + 9 * (\<Sum>p<n. length (starts_of env fis p))"
    and "finals (map Info [0..<n]) = []"
  by (induction n) (auto simp del: mset_map mset_upt)

lemma collected_start:
  "collected env net fis cdv (add_mset Parse_Rest (mset (map Info [0..<length fis]))) (first_run fis cdv inst)"
  (is "collected env net fis cdv ?M ?s")
proof -
  have st: "fetch_log ?s = []" "results ?s = replicate (length fis) []" "parses ?s = []"
    "promise ?s = (if cdv \<noteq> [] then Some False else None)" "cached ?s = cdv"
    by (simp_all add: first_run_def)
  have i: "Info p \<in># ?M" if "p < length fis" for p using that by simp
  have "unreplied env net fis ?M = mset (all_sent env net fis)"
    using infos(4) [of env net fis "length fis"] by (simp add: all_sent_def del: mset_map mset_upt)
  moreover have "(if promise ?s = Some True then A else B) = B" for A B :: "parse_call multiset" by (simp add: st(4))
  moreover have "(if promise ?s = Some False then cdv else []) = cdv" "promise ?s \<noteq> Some True" by (simp_all add: st(4))
  ultimately show ?thesis unfolding collected_def
    by (intro conjI allI impI) (simp_all add: st(1-3,5) i del: mset_map mset_upt)
qed

lemma finishing_start:
  assumes "fis \<noteq> []" and l: "left fis (ops (threads (first_run fis cdv inst))) = length fis"
  shows "finishing fis cdv inst inst' (first_run fis cdv inst)" (is "finishing _ _ _ _ ?s")
proof (rule finishingI, unfold l)
  have fc: "finals (concat (threads ?s)) = []" "finals (threads ?s ! 0) = []"
    using infos(6) [of "length fis"] by (simp_all add: first_run_def)
  show "finals (concat (threads ?s)) = [] \<and> filter final_event (fetch_log ?s) = [] \<and> shared_cache ?s = inst"
    using fc by (simp add: first_run_def)
  show "finals (threads ?s ! k) = finals (concat (threads ?s))" if "k < length (threads ?s)" for k
    using that fc by (simp add: first_run_def)
  show "promise ?s = Some True" if "finals (threads ?s ! 0) = Wait_Cached # x" for x
    using that fc by simp
qed (use assms(1) in \<open>auto simp: first_run_def split: if_splits\<close>)

lemma join_start:
  assumes w: "workable env net fis cdv inst inst'"
  shows "join_inv env net fis cdv inst inst' (first_run fis cdv inst)"
    and "join_mu env fis (first_run fis cdv inst) =
      1 + 7 * length fis + 9 * (\<Sum>p<length fis. length (starts_of env fis p))"
proof -
  let ?s = "first_run fis cdv inst"
  let ?M = "add_mset Parse_Rest (mset (map Info [0..<length fis]))"
  show "join_mu env fis ?s = 1 + 7 * length fis + 9 * (\<Sum>p<length fis. length (starts_of env fis p))"
    unfolding join_mu_def first_ops using infos(5) [of env fis "length fis"] by simp
  have pend: "pend p ?M = 0" for p by (simp add: pend_def infos(2) del: mset_map)
  have live: "live p ?M = (if p < length fis then 1 else 0)" for p
    unfolding live_def pend using infos(1) [of "length fis" p] infos(3) [of p "length fis"] by simp
  have l: "left fis ?M = length fis" unfolding left_def live by simp
  have n: "length fis < 2 ^ 31" "fis \<noteq> []" using w by (simp_all add: workable_def)
  have cnt: "count ?M (Info p) = (if p < length fis then 1 else 0)" for p
    using infos(1) [of "length fis" p] by simp
  have "counting env net fis ?M (of_nat (length fis)) (replicate (length fis) 0)"
    unfolding counting_def l pend cnt using sint_of_nat32 [OF n(1)] by auto
  moreover have "shape (threads ?s)" unfolding shape_def first_run_def by auto
  moreover have "finishing fis cdv inst inst' ?s" by (rule finishing_start [OF n(2)]) (simp only: first_ops l)
  moreover have "cond ?s = of_nat (length fis)" "item_conds ?s = replicate (length fis) 0"
    by (simp_all add: first_run_def)
  ultimately show "join_inv env net fis cdv inst inst' ?s"
    unfolding join_inv_def first_ops using w collected_start by simp
qed

lemma op_can:
  assumes inv: "join_inv env net fis cdv inst inst' s" and k: "k < length (threads s)" "threads s ! k = op # rest"
  shows "op_step env net fis op s \<in> range Inr"
proof -
  note d = join_invD [OF inv]
  obtain M where M: "ops (threads s) = add_mset op M" by (rule ops_split [OF k])
  have ok: "op_ok env net fis op" using d(2) by (simp add: counting_def M)
  have pc: "parse_cached env fis s \<in> range Inr" if "promise s = Some False"
  proof -
    have "cached s = cdv" "snd (parse_cached_data env fis cdv) = None"
      using d(1,3) that by (simp_all add: collected_def workable_def)
    then show ?thesis by (auto simp: parse_cached_def split: prod.splits)
  qed
  show ?thesis
  proof (cases op)
    case (Info p)
    then have p: "p < length fis" using ok by simp
    show ?thesis
    proof (cases "served env fis p")
      case True
      then show ?thesis using workable_plan(1) [OF d(1) p True] by (auto simp: Info split: prod.splits)
    next
      case False
      then show ?thesis by (auto simp: Info served_def)
    qed
  next
    case (Reply p i)
    then have "p < length fis" "i \<in> set (starts_of env fis p)" "sent net p i" using ok by simp_all
    then show ?thesis using reply_ready [OF d(1) d(3) [unfolded M Reply]] by (force simp: Reply)
  next
    case (Merge_Cache p b)
    then show ?thesis using merge_ready(4) [OF inv k(1), of p b rest] k(2) by auto
  next
    case Parse_Cached
    then show ?thesis using pc parse_pending [OF inv k] by auto
  next
    case Parse_Rest
    have "promise s = Some False" if "cached s \<noteq> []" using d(3) that by (auto simp: collected_def split: if_splits)
    then show ?thesis using pc by (auto simp: Parse_Rest)
  qed (auto simp: fetch_sub1_def Let_def)
qed

lemma unblocked_steps:
  assumes inv: "join_inv env net fis cdv inst inst' s" and k: "k < length (threads s)" "threads s ! k = op # rest"
    and nb: "\<not> blocked op s"
  shows "\<exists>t. fetch_step env net fis s t"
proof -
  obtain new started t where "op_step env net fis op s = Inr (new, started, t)" using op_can [OF inv k] by force
  then have "thread_step env net fis k s = Inr (t\<lparr>threads := (threads s)[k := new @ rest] @ started\<rparr>)"
    by (simp add: thread_step_def k(2))
  then show ?thesis using fetch_step.intros [OF k nb] by blast
qed

lemma join_progress:
  assumes inv: "join_inv env net fis cdv inst inst' s" and k: "k < length (threads s)" "threads s ! k \<noteq> []"
  shows "\<exists>t. fetch_step env net fis s t"
proof -
  note fn = join_invD(5) [OF inv]
  obtain op rest where op: "threads s ! k = op # rest" using k(2) by (cases "threads s ! k") auto
  show ?thesis
  proof (cases "blocked op s")
    case False
    then show ?thesis by (rule unblocked_steps [OF inv k(1) op])
  next
    case True
    then have pr: "promise s = Some False" by (simp add: blocked_def)
    obtain op0 rest0 where op0: "threads s ! 0 = op0 # rest0"
      using finishingD(5) [OF fn pr] by (cases "threads s ! 0") auto
    have "\<not> blocked op0 s"
    proof
      assume "blocked op0 s"
      then have "finals (threads s ! 0) = Wait_Cached # finals rest0" by (simp add: blocked_def op0)
      from finishingD(7) [OF fn this] pr show False by simp
    qed
    moreover have "0 < length (threads s)" using k(1) by linarith
    ultimately show ?thesis using unblocked_steps [OF inv _ op0] by blast
  qed
qed

lemma join_final:
  assumes inv: "join_inv env net fis cdv inst inst' s" and stop: "\<And>t. \<not> fetch_step env net fis s t"
  shows "concat (threads s) = []" and "\<exists>es. fetch_log s = es @ [Responded, Notified] \<and> filter final_event es = [Merged] \<and>
      replied es = mset (all_sent env net fis) \<and> count (mset es) Parsed_Cached = (if cdv = [] then 0 else 1)"
    and "results s = final_results env net fis" and "shared_cache s = inst'"
    and "mset (parses s) = (\<Sum>x\<in>#mset (all_sent env net fis). mset (calls_of env net fis (fst x) (snd x))) +
      mset (fst (parse_cached_data env fis cdv))"
proof -
  note d = join_invD [OF inv]
  show c: "concat (threads s) = []"
    using join_progress [OF inv] stop by (metis concat_eq_Nil_conv in_set_conv_nth)
  have l: "left fis (ops (threads s)) = 0" unfolding c by (simp add: left_def live_def)
  have "stage inst inst' [] (fetch_log s) (promise s) (shared_cache s)" using finishingD(2) [OF d(5) l] c by simp
  then obtain es where es: "fetch_log s = es @ [Responded, Notified]" "filter final_event es = [Merged]"
    "promise s \<noteq> Some False" "shared_cache s = inst'" by (rule stage_NilE) blast
  show "shared_cache s = inst'" by (rule es(4))
  note all = all_replied [OF d(2,4,3) l]
  show "results s = final_results env net fis" by (rule all(2))
  have pr: "promise s = (if cdv = [] then None else Some True)" using finishingD(4) [OF d(5)] es(3) by (cases "promise s") auto
  have "count (mset (fetch_log s)) Parsed_Cached = (if cdv = [] then 0 else 1)"
    using d(3) by (simp add: collected_def pr)
  then show "\<exists>es. fetch_log s = es @ [Responded, Notified] \<and> filter final_event es = [Merged] \<and>
      replied es = mset (all_sent env net fis) \<and> count (mset es) Parsed_Cached = (if cdv = [] then 0 else 1)"
    using es(1,2) all(1) by (intro exI [of _ es]) simp
  have "parse_cached_data env fis [] = ([], None)" by simp
  then show "mset (parses s) = (\<Sum>x\<in>#mset (all_sent env net fis). mset (calls_of env net fis (fst x) (snd x))) +
      mset (fst (parse_cached_data env fis cdv))"
    using d(3) all(1) by (auto simp: collected_def pr)
qed

lemma do_service_start:
  assumes "redis_do_service env now fis inst = Inr (rc, fis1, s0)"
    and "workable env net fis1 (cached s0) (shared_cache s0) inst'"
  shows "rc = 0" and "s0 = first_run fis1 (cached s0) (shared_cache s0)"
    and "join_inv env net fis1 (cached s0) (shared_cache s0) inst' s0"
proof -
  have "fis1 \<noteq> []" using assms(2) by (simp add: workable_def)
  then show "rc = 0" and s0: "s0 = first_run fis1 (cached s0) (shared_cache s0)"
    using assms(1) by (auto simp: redis_do_service_def res_simps first_run_def split: if_splits)
  show "join_inv env net fis1 (cached s0) (shared_cache s0) inst' s0"
    using join_start(1) [OF assms(2)] s0 by simp
qed

text \<open>How far a request is: what was done of the merge, the response and the notification.\<close>

lemma join_phase:
  assumes inv: "join_inv env net fis cdv inst inst' s"
  obtains k where "filter final_event (fetch_log s) = take k [Merged, Responded, Notified]"
    and "k = 0 \<or> replied (fetch_log s) = mset (all_sent env net fis) \<and> results s = final_results env net fis"
    and "k < 2 \<or> promise s \<noteq> Some False" and "k \<le> 3"
proof -
  note d = join_invD [OF inv]
  show ?thesis
  proof (cases "left fis (ops (threads s)) = 0")
    case False
    then show ?thesis using finishingD(1) [OF d(5)] by (intro that [of 0]) auto
  next
    case True
    note all = all_replied [OF d(2,4,3) True]
    from finishingD(2) [OF d(5) True] show ?thesis
    proof cases
      case (merge p b)
      then show ?thesis by (intro that [of 0]) auto
    next
      case (notify es)
      then show ?thesis by (intro that [of 2]) (use all in auto)
    next
      case (over es)
      then show ?thesis by (intro that [of 3]) (use all in auto)
    qed (rule that [of 1]; use all in simp)+
  qed
qed

section \<open>The properties\<close>



text \<open>C12: At every moment of every interleaving the request has merged, responded and notified in this order
  and each at most once; it has merged only if every sent batch was answered and the results are complete, and
  has responded only if the cached data were parsed.\<close>

theorem redis_in_order:
  assumes "redis_do_service env now fis inst = Inr (rc, fis1, s0)"
    and "workable env net fis1 (cached s0) (shared_cache s0) inst'"
    and "(fetch_step env net fis1)\<^sup>*\<^sup>* s0 s"
  shows "\<exists>k. filter final_event (fetch_log s) = take k [Merged, Responded, Notified] \<and>
    (k = 0 \<or> replied (fetch_log s) = mset (all_sent env net fis1) \<and> results s = final_results env net fis1) \<and>
    (k < 2 \<or> cached s = [])"
proof -
  note st = do_service_start [OF assms(1,2)]
  have inv: "join_inv env net fis1 (cached s0) (shared_cache s0) inst' s" by (rule fetching.steps_inv [OF assms(3) st(3)])
  obtain k where k: "filter final_event (fetch_log s) = take k [Merged, Responded, Notified]"
    "k = 0 \<or> replied (fetch_log s) = mset (all_sent env net fis1) \<and> results s = final_results env net fis1"
    "k < 2 \<or> promise s \<noteq> Some False" by (rule join_phase [OF inv])
  have "cached s = []" if "promise s \<noteq> Some False" using join_invD(3) [OF inv] that by (simp add: collected_def)
  with k show ?thesis by blast
qed

section \<open>A request of the unit test\<close>

definition test_net :: net where
  "test_net = \<lparr>send_ret = (\<lambda>p i. 0),
     answer = (\<lambda>p i. (test_cntl, Some (answers True test_db (take 2 (drop i test_keys))))), merge_time = 0\<rparr>"

lemma test_run: "redis_do_service test_env 0 [plain_info] None =
    Inr (0, plain_fis test_keys, first_run (plain_fis test_keys) [] None)"
  by (simp add: redis_do_service_def first_request)

lemma plain_fis_0 [simp]:
  "plain_fis ks ! 0 = plain_info\<lparr>keys := ks, fi_id := ''0''\<rparr>" "length (plain_fis ks) = 1" "plain_fis ks \<noteq> []"
  by (simp_all add: plain_fis_def)

lemma test_starts_of: "starts_of test_env (plain_fis test_keys) 0 = [0, 2]"
  by (simp add: starts_of_def served_def plan_def get_client_def test_plan test_starts) (simp add: test_keys_def)

lemma test_final: "final_results test_env test_net (plain_fis test_keys) =
    [map (item_after test_env test_net (plain_fis test_keys) 0) [0, 2]]"
  by (simp add: final_results_def test_starts_of)

lemma test_outcomes:
  "case outcome test_env test_net (plain_fis test_keys) 0 0 of Inr (item, calls) \<Rightarrow> item_info item = Some 0 | _ \<Rightarrow> False"
  "case outcome test_env test_net (plain_fis test_keys) 0 2 of Inr (item, calls) \<Rightarrow> item_info item = Some 0 | _ \<Rightarrow> False"
  by code_simp+

lemma test_workable: "workable test_env test_net (plain_fis test_keys) [] None None"
proof -
  have out: "outcome test_env test_net (plain_fis test_keys) 0 i \<in> range Inr" if "i \<in> {0, 2}" for i
    using test_outcomes that by (auto split: sum.splits)
  have "item_info (item_after test_env test_net (plain_fis test_keys) 0 0) = Some 0"
    using test_outcomes(1) by (auto simp: item_after_def sent_def test_net_def split: sum.splits prod.splits)
  then have m: "merge_cache_data test_env 0 (plain_fis test_keys)
      (Some [(''0'', [item_after test_env test_net (plain_fis test_keys) 0 0, item_after test_env test_net (plain_fis test_keys) 0 2])]) None = Inr None"
    by (simp add: merge_cache_data_def cache_results_def)
  have "merge_time test_net = 0" by (simp add: test_net_def)
  moreover have "map fi_id (plain_fis test_keys) = [''0'']" by (simp add: plain_fis_def)
  moreover have "batch_plan test_env (length (keys (plain_fis test_keys ! 0))) \<in> range Inr" by (simp add: test_plan)
  moreover have "length (keys (plain_fis test_keys ! 0)) < 2 ^ 31" by (simp add: test_keys_def)
  ultimately show ?thesis
    using m out by (simp add: workable_def test_final test_starts_of)
qed

text \<open>The two batches, each in a thread of its own, and the thread of the node.\<close>

lemma test_sent: "all_sent test_env test_net (plain_fis test_keys) = [(0, 0), (0, 2)]"
  by (simp add: all_sent_def sent_pairs_def test_starts_of sent_def test_net_def)

lemma test_end:
  obtains s where "(fetch_step test_env test_net (plain_fis test_keys))\<^sup>*\<^sup>* (first_run (plain_fis test_keys) [] None) s"
    and "\<And>t. \<not> fetch_step test_env test_net (plain_fis test_keys) s t"
  using fetching.ends [OF join_start(1) [OF test_workable]] by blast

lemma test_w: "workable test_env test_net (plain_fis test_keys) (cached (first_run (plain_fis test_keys) [] None))
    (shared_cache (first_run (plain_fis test_keys) [] (None :: (string \<times> string \<times> int) list cache_manager))) None"
  using test_workable by (simp add: first_run_def)



theorem redis_in_order_witness:
  "\<exists>s k. (fetch_step test_env test_net (plain_fis test_keys))\<^sup>*\<^sup>* (first_run (plain_fis test_keys) [] None) s \<and>
     filter final_event (fetch_log s) = take k [Merged, Responded, Notified] \<and>
     (k = 0 \<or> replied (fetch_log s) = {#(0, 0), (0, 2)#})"
proof -
  obtain s where s: "(fetch_step test_env test_net (plain_fis test_keys))\<^sup>*\<^sup>* (first_run (plain_fis test_keys) [] None) s"
    by (rule test_end)
  from redis_in_order [OF test_run test_w s] show ?thesis using s unfolding test_sent by auto
qed

end
