(* ===== verification/FetchSpec.thy ===== *)
theory FetchSpec
  imports RedisJoinRun
begin

text \<open>
  What \<open>RedisService::do_service\<close> promises, as a machine of its own: the sent batches are answered in any
  order, then the results are merged, then the node responds, once the cached data are parsed, and
  notifies its output nodes. The threads, counters and the promise of \<open>RedisJoin\<close> implement it.
\<close>

section \<open>The specification\<close>

text \<open>The answered batches, how many of merge, response and notification are done, and whether the cached
  data are parsed.\<close>

type_synonym fetch_phase = "(info_ptr \<times> nat) multiset \<times> nat \<times> bool"

inductive fetch_spec :: "(info_ptr \<times> nat) multiset \<Rightarrow> bool \<Rightarrow> fetch_phase \<Rightarrow> fetch_phase \<Rightarrow> bool" for B c where
  answer: "x \<in># B - A \<Longrightarrow> fetch_spec B c (A, 0, d) (add_mset x A, 0, d)"
| merge: "fetch_spec B c (B, 0, d) (B, 1, d)"
| parse: "c \<Longrightarrow> k < 2 \<Longrightarrow> fetch_spec B c (A, k, False) (A, k, True)"
| respond: "d = c \<Longrightarrow> fetch_spec B c (A, 1, d) (A, 2, d)"
| notify: "fetch_spec B c (A, 2, d) (A, 3, d)"

inductive_simps fetch_spec_iff: "fetch_spec B c (A, k, d) (A', k', d')"

definition view_fetch :: "'m fetch_run \<Rightarrow> fetch_phase" where
  "view_fetch s =
     (replied (fetch_log s), length (filter final_event (fetch_log s)), Parsed_Cached \<in> set (fetch_log s))"

definition phase_ok :: "(info_ptr \<times> nat) multiset \<Rightarrow> bool \<Rightarrow> fetch_phase \<Rightarrow> bool" where
  "phase_ok B c x \<longleftrightarrow> (case x of (A, k, d) \<Rightarrow>
     A \<subseteq># B \<and> k \<le> 3 \<and> (d \<longrightarrow> c) \<and> (1 \<le> k \<longrightarrow> A = B) \<and> (2 \<le> k \<longrightarrow> d = c))"

lemma room_left: "add_mset x A \<subseteq># B \<longleftrightarrow> A \<subseteq># B \<and> x \<in># B - A"
  by (auto simp: subseteq_mset_def in_diff_count Suc_le_eq dest: spec [of _ x] intro: less_imp_le)

lemma phase_ok_step: "phase_ok B c x \<Longrightarrow> fetch_spec B c x y \<Longrightarrow> phase_ok B c y"
  by (auto simp: phase_ok_def room_left elim!: fetch_spec.cases)

text \<open>Each step brings the specification nearer to its end.\<close>

definition phase_mu :: "(info_ptr \<times> nat) multiset \<Rightarrow> fetch_phase \<Rightarrow> nat" where
  "phase_mu B x = (case x of (A, k, d) \<Rightarrow> size (B - A) + (3 - k) + (if d then 0 else 1))"

interpretation fetch_spec: terminating_system "fetch_spec B c" "phase_ok B c" "phase_mu B" for B c
proof unfold_locales
  show "phase_ok B c t" if "phase_ok B c s" "fetch_spec B c s t" for s t using that by (rule phase_ok_step)
  show "phase_mu B t < phase_mu B s" if "phase_ok B c s" "fetch_spec B c s t" for s t
    using that(2)
  proof cases
    case (answer x A d)
    then have "size (B - A - {#x#}) < size (B - A)" by (intro size_Diff1_less)
    then show ?thesis by (simp add: phase_mu_def answer diff_diff_add_mset)
  qed (auto simp: phase_mu_def)
qed

lemma spec_end:
  assumes "phase_ok B c (A, k, d)" and "\<And>y. \<not> fetch_spec B c (A, k, d) y"
  shows "A = B" and "k = 3" and "d = c"
proof -
  show k: "k = 3"
  proof (rule ccontr)
    assume "k \<noteq> 3"
    then consider "k = 0" | "k = 1" | "k = 2" using assms(1) by (force simp: phase_ok_def)
    then show False
    proof cases
      case 1
      show False
      proof (cases "B - A = {#}")
        case True
        then have "A = B" using assms(1) by (simp add: phase_ok_def subset_mset.antisym Diff_eq_empty_iff_mset)
        then show False using assms(2) fetch_spec.merge 1 by blast
      next
        case False
        then obtain x where "x \<in># B - A" by blast
        then show False using assms(2) fetch_spec.answer 1 by blast
      qed
    next
      case 2
      then show False using assms fetch_spec.parse [of c k B A] fetch_spec.respond [of d c B A]
        by (cases d; cases c) (auto simp: phase_ok_def)
    qed (use assms(2) fetch_spec.notify in blast)
  qed
  then show "A = B" "d = c" using assms(1) by (simp_all add: phase_ok_def)
qed

section \<open>The threads implement it\<close>

lemma fetch_step_log:
  assumes "fetch_step env net fis s u"
  shows "fetch_log u = fetch_log s \<or> (\<exists>e. fetch_log u = fetch_log s @ [e])"
proof -
  obtain op new started t where "op_step env net fis op s = Inr (new, started, t)" "fetch_log u = fetch_log t"
    using fetch_step_op [OF assms] by (metis fetch_run.select_convs(9) fetch_run.surjective fetch_run.update_convs(8))
  then show ?thesis
    by (cases op) (auto simp: res_simps parse_cached_def Let_def split: case_splits sum.splits cxx_error.splits)
qed

lemma view_facts:
  assumes inv: "join_inv env net fis cdv inst inst' s"
  shows "phase_ok (mset (all_sent env net fis)) (cdv \<noteq> []) (view_fetch s)"
    and "filter final_event (fetch_log s) = take (length (filter final_event (fetch_log s))) [Merged, Responded, Notified]"
    and "count (mset (fetch_log s)) Parsed_Cached \<le> 1"
proof -
  have co: "collected env net fis cdv (ops (threads s)) s" and fn: "finishing fis cdv inst inst' s"
    using join_invD(3,5) [OF inv] by auto
  obtain k where k: "filter final_event (fetch_log s) = take k [Merged, Responded, Notified]"
    "k = 0 \<or> replied (fetch_log s) = mset (all_sent env net fis)" "k < 2 \<or> promise s \<noteq> Some False" "k \<le> 3"
    using join_phase [OF inv] by metis
  then have len: "length (filter final_event (fetch_log s)) = k" by simp
  with k(1) show "filter final_event (fetch_log s) = take (length (filter final_event (fetch_log s))) [Merged, Responded, Notified]"
    by simp
  have c: "count (mset (fetch_log s)) Parsed_Cached = (if promise s = Some True then 1 else 0)"
    using co by (simp add: collected_def)
  then show "count (mset (fetch_log s)) Parsed_Cached \<le> 1" by simp
  have p: "Parsed_Cached \<in> set (fetch_log s) \<longleftrightarrow> promise s = Some True"
    using c by (metis count_mset_0_iff one_neq_zero)
  have "replied (fetch_log s) \<subseteq># mset (all_sent env net fis)"
    using co by (metis collected_def mset_subset_eq_add_left)
  then show "phase_ok (mset (all_sent env net fis)) (cdv \<noteq> []) (view_fetch s)"
    using k len p finishingD(4) [OF fn] by (auto simp: phase_ok_def view_fetch_def)
qed

lemma final_next:
  assumes "fs @ [e] = take (Suc (length fs)) [Merged, Responded, Notified]"
  shows "(length fs, e) \<in> {(0, Merged), (1, Responded), (2, Notified)}"
proof -
  have "length fs < 3" using arg_cong [OF assms, of length] by simp
  then have "[Merged, Responded, Notified] ! length fs = e" using assms by (metis length_append_singleton lessI nth_append_length nth_take)
  with \<open>length fs < 3\<close> show ?thesis by (auto simp: less_Suc_eq numeral_eq_Suc)
qed

lemma fetch_step_sim:
  assumes inv: "join_inv env net fis cdv inst inst' s" and st: "fetch_step env net fis s u"
  shows "(fetch_spec (mset (all_sent env net fis)) (cdv \<noteq> []))\<^sup>*\<^sup>* (view_fetch s) (view_fetch u)"
proof (cases "fetch_log u = fetch_log s")
  case True
  then show ?thesis by (simp add: view_fetch_def)
next
  case False
  then obtain e where e: "fetch_log u = fetch_log s @ [e]" using fetch_step_log [OF st] by blast
  note vs = view_facts [OF inv] and vu = view_facts [OF fetching.step_inv [OF inv st], unfolded e]
  have next_final: "(length (filter final_event (fetch_log s)), e) \<in> {(0, Merged), (1, Responded), (2, Notified)}"
    if "final_event e" using final_next [of "filter final_event (fetch_log s)" e] vu(2) that by simp
  have "fetch_spec (mset (all_sent env net fis)) (cdv \<noteq> []) (view_fetch s) (view_fetch u)"
  proof (cases e)
    case (Replied p i)
    with vs(1) vu(1) show ?thesis
      by (auto simp: view_fetch_def phase_ok_def e fetch_spec_iff room_left Suc_le_eq)
  next
    case Parsed_Cached
    have "Parsed_Cached \<notin> set (fetch_log s)" using vu(3) Parsed_Cached by (simp add: count_mset_0_iff)
    with vs(1) vu(1) Parsed_Cached show ?thesis by (force simp: view_fetch_def phase_ok_def e fetch_spec_iff)
  next
    case Merged
    with next_final vs(1) vu(1) show ?thesis by (simp add: view_fetch_def phase_ok_def e fetch_spec_iff)
  next
    case Responded
    with next_final vs(1) vu(1) show ?thesis by (simp add: view_fetch_def phase_ok_def e fetch_spec_iff)
  next
    case Notified
    with next_final vs(1) vu(1) show ?thesis by (simp add: view_fetch_def phase_ok_def e fetch_spec_iff)
  qed
  then show ?thesis by blast
qed

interpretation fetching: simulation "fetch_step env net fis" "join_inv env net fis cdv inst inst'"
    "fetch_spec (mset (all_sent env net fis)) (cdv \<noteq> [])" view_fetch
  for env :: "('m, 'c) service_env" and net fis cdv inst inst'
  by unfold_locales (rule fetch_step_sim)

lemma stopped_view:
  assumes inv: "join_inv env net fis cdv inst inst' s" and stop: "\<And>t. \<not> fetch_step env net fis s t"
  shows "view_fetch s = (mset (all_sent env net fis), 3, cdv \<noteq> [])"
proof -
  from join_final(2) [OF inv stop] obtain es where es: "fetch_log s = es @ [Responded, Notified]"
    "filter final_event es = [Merged]" "replied es = mset (all_sent env net fis)"
    "count (mset es) Parsed_Cached = (if cdv = [] then 0 else 1)" by blast
  then have "Parsed_Cached \<in> set es \<longleftrightarrow> cdv \<noteq> []" by (metis count_mset_0_iff one_neq_zero)
  with es show ?thesis by (simp add: view_fetch_def)
qed

text \<open>A request that has notified its output nodes has responded to all replies.\<close>

lemma notified_responded:
  assumes "join_inv env net fis cdv inst inst' u" and "Notified \<in> set (fetch_log u)"
  shows "Responded \<in> set (fetch_log u)" and "results u = final_results env net fis"
    and "replied (fetch_log u) = mset (all_sent env net fis)"
proof -
  obtain k where k: "filter final_event (fetch_log u) = take k [Merged, Responded, Notified]"
    "k = 0 \<or> replied (fetch_log u) = mset (all_sent env net fis) \<and> results u = final_results env net fis" "k \<le> 3"
    using join_phase [OF assms(1)] by metis
  have "Notified \<in> set (filter final_event (fetch_log u))" using assms(2) by simp
  then have "k = 3" using k(3) unfolding k(1) by (auto simp: take_Cons' split: if_splits)
  then have "Responded \<in> set (filter final_event (fetch_log u))" unfolding k(1) by simp
  then show "Responded \<in> set (fetch_log u)" by simp
  show "results u = final_results env net fis" "replied (fetch_log u) = mset (all_sent env net fis)"
    using k(2) \<open>k = 3\<close> by simp_all
qed

section \<open>The property\<close>



end
