(* ===== verification/Concurrent.thy ===== *)
theory Concurrent
  imports Prelude
begin

text \<open>
  \<open>service/base/concurrent_service.cpp\<close>: a node that splits its work into slices, processes each
  in a bthread of its own, and lets the last one that finishes merge the results and go on to
  the output nodes. \<open>prepare_sub_requests\<close>, \<open>process\<close> and \<open>merge\<close> are virtual: the number of
  slices is a parameter, and a log records the calls.
\<close>

section \<open>The node\<close>

datatype slice_call = Process nat | Merge nat | Run_Outputs

datatype slice =
    Fresh nat \<comment> \<open>the bthread of a slice, about to call \<open>process\<close>\<close>
  | Counting nat \<comment> \<open>\<open>process\<close> has returned\<close>
  | Merging \<comment> \<open>it read 1\<close>
  | Going_On \<comment> \<open>\<open>merge\<close> has returned\<close>
  | Over

record fork =
  count_cnd :: atomic_int
  slices :: "slice list"
  calls :: "slice_call list"

definition do_service :: "nat \<Rightarrow> int \<times> fork" where
  \<comment> \<open>the returned code and the bthreads started for \<open>slice_num\<close> slices\<close>
  "do_service slice_num =
     (0, \<lparr>count_cnd = of_nat slice_num, slices = map Fresh [0..<slice_num], calls = []\<rparr>)"

text \<open>The function a bthread runs, one shared effect at a time.\<close>

fun slice_step :: "nat \<Rightarrow> slice \<Rightarrow> atomic_int \<Rightarrow> slice \<times> slice_call list \<times> atomic_int" where
  "slice_step slice_num (Fresh i) c = (Counting i, [Process i], c)"
| "slice_step slice_num (Counting i) c =
     (let (old_count, c') = fetch_sub1 c in (if old_count = 1 then Merging else Over, [], c'))"
| "slice_step slice_num Merging c = (Going_On, [Merge slice_num], c)"
| "slice_step slice_num Going_On c = (Over, [Run_Outputs], c)"
| "slice_step slice_num Over c = (Over, [], c)"

definition move :: "nat \<Rightarrow> nat \<Rightarrow> fork \<Rightarrow> fork" where
  "move slice_num k s =
     (let (sl, cs, c) = slice_step slice_num (slices s ! k) (count_cnd s)
      in \<lparr>count_cnd = c, slices = (slices s)[k := sl], calls = calls s @ cs\<rparr>)"

inductive fork_step :: "nat \<Rightarrow> fork \<Rightarrow> fork \<Rightarrow> bool" for slice_num where
  "k < length (slices s) \<Longrightarrow> slices s ! k \<noteq> Over \<Longrightarrow> fork_step slice_num s (move slice_num k s)"

inductive_cases fork_stepE: "fork_step n s t"

section \<open>The join\<close>

fun counted :: "slice \<Rightarrow> nat" where
  "counted (Fresh i) = 1"
| "counted (Counting i) = 1"
| "counted _ = 0"

fun fresh :: "slice \<Rightarrow> nat multiset" where
  "fresh (Fresh i) = {#i#}"
| "fresh _ = {#}"

fun processed :: "slice_call list \<Rightarrow> nat multiset" where
  "processed [] = {#}"
| "processed (Process i # cs) = add_mset i (processed cs)"
| "processed (_ # cs) = processed cs"

definition tails :: "slice list \<Rightarrow> slice list" where
  "tails = filter (\<lambda>sl. sl = Merging \<or> sl = Going_On)"

text \<open>
  The counter is the number of slices that have not counted yet. While it is positive only
  \<open>process\<close> was called; when it is 0, exactly one bthread is on its way through \<open>merge\<close> and
  \<open>run_output_nodes_if_ready\<close>, or has been.
\<close>

definition fork_inv :: "nat \<Rightarrow> fork \<Rightarrow> bool" where
  "fork_inv n s \<longleftrightarrow> 0 < n \<and> n < 2 ^ 31 \<and> length (slices s) = n \<and>
     sint (count_cnd s) = int (sum_list (map counted (slices s))) \<and>
     processed (calls s) + sum_list (map fresh (slices s)) = mset [0..<n] \<and>
     (if 0 < sum_list (map counted (slices s))
      then tails (slices s) = [] \<and> Merge n \<notin> set (calls s) \<and> Run_Outputs \<notin> set (calls s)
      else \<exists>ps. Merge n \<notin> set ps \<and> Run_Outputs \<notin> set ps \<and>
        (tails (slices s), calls s) \<in>
          {([Merging], ps), ([Going_On], ps @ [Merge n]), ([], ps @ [Merge n, Run_Outputs])})"

lemma processed_append [simp]: "processed (xs @ ys) = processed xs + processed ys"
  by (induction xs rule: processed.induct) auto

lemma sum_fresh_update:
  "k < length ss \<Longrightarrow> sum_list (map fresh (ss[k := x])) + fresh (ss ! k) = sum_list (map fresh ss) + fresh x"
  by (rule sum_list_list_update)

lemma counted_update:
  "k < length ss \<Longrightarrow> sum_list (map counted (ss[k := x])) + counted (ss ! k) = sum_list (map counted ss) + counted x"
  by (rule sum_list_list_update)

lemma tails_split:
  "k < length ss \<Longrightarrow> tails ss = tails (take k ss) @ tails [ss ! k] @ tails (drop (Suc k) ss)"
  unfolding tails_def filter_append [symmetric] by (simp flip: id_take_nth_drop)

lemma tails_update:
  "k < length ss \<Longrightarrow> tails (ss[k := x]) = tails (take k ss) @ tails [x] @ tails (drop (Suc k) ss)"
  by (simp add: upd_conv_take_nth_drop tails_def)

lemma move_parts:
  "slice_step n (slices s ! k) (count_cnd s) = (sl, cs, c) \<Longrightarrow>
   move n k s = \<lparr>count_cnd = c, slices = (slices s)[k := sl], calls = calls s @ cs\<rparr>"
  by (simp add: move_def)

lemma fork_counted:
  assumes inv: "fork_inv n s" and k: "k < length (slices s)" and c: "counted (slices s ! k) = 1"
  shows "0 < sum_list (map counted (slices s))" and "tails (slices s) = []"
    and "Merge n \<notin> set (calls s)" and "Run_Outputs \<notin> set (calls s)"
proof -
  have "0 < counted (slices s ! k)" using c by simp
  then show p: "0 < sum_list (map counted (slices s))"
    using k by (metis counted_update less_add_same_cancel2 add.commute gr0I list_update_id
        not_add_less1 nth_mem sum_list_eq_0_iff in_set_conv_nth length_map nth_map not_gr_zero)
  with inv show "tails (slices s) = []" "Merge n \<notin> set (calls s)" "Run_Outputs \<notin> set (calls s)"
    by (simp_all add: fork_inv_def)
qed

lemma fork_counted_out:
  assumes inv: "fork_inv n s" and z: "sum_list (map counted (slices s)) = 0"
  obtains ps where "Merge n \<notin> set ps" "Run_Outputs \<notin> set ps"
    "(tails (slices s), calls s) \<in>
      {([Merging], ps), ([Going_On], ps @ [Merge n]), ([], ps @ [Merge n, Run_Outputs])}"
proof -
  have "\<not> 0 < sum_list (map counted (slices s))" using z by linarith
  with inv show thesis using that unfolding fork_inv_def by (simp only: if_False) blast
qed

lemma tails_Nil_parts:
  "tails ss = [] \<Longrightarrow> k < length ss \<Longrightarrow> tails (take k ss) = [] \<and> tails (drop (Suc k) ss) = []"
  using tails_split [of k ss] by simp

lemma move_fresh:
  assumes inv: "fork_inv n s" and k: "k < length (slices s)" "slices s ! k = Fresh i"
  shows "fork_inv n (move n k s)"
proof -
  have m: "move n k s = \<lparr>count_cnd = count_cnd s, slices = (slices s)[k := Counting i], calls = calls s @ [Process i]\<rparr>"
    using k by (simp add: move_def)
  note pos = fork_counted [OF inv k(1)]
  have "sum_list (map counted ((slices s)[k := Counting i])) = sum_list (map counted (slices s))"
    using counted_update [OF k(1), of "Counting i"] k(2) by simp
  moreover have "sum_list (map fresh (slices s)) = sum_list (map fresh ((slices s)[k := Counting i])) + {#i#}"
    using sum_fresh_update [OF k(1), of "Counting i"] k(2) by simp
  moreover have "tails ((slices s)[k := Counting i]) = []"
    using tails_Nil_parts [OF pos(2) k(1)] k by (simp add: tails_update) (simp add: tails_def)
  ultimately show ?thesis using inv pos k(2) unfolding fork_inv_def m by auto
qed

lemma move_counting:
  assumes inv: "fork_inv n s" and k: "k < length (slices s)" "slices s ! k = Counting i"
  shows "fork_inv n (move n k s)"
proof -
  let ?m = "sum_list (map counted (slices s))"
  note pos = fork_counted [OF inv k(1)]
  have p: "0 < ?m" "sint (count_cnd s) = int ?m" using pos(1) k(2) inv by (simp_all add: fork_inv_def)
  then have dec: "sint (count_cnd s - 1) = int (?m - 1)" by (simp add: sint_dec32)
  let ?x = "if ?m = 1 then Merging else Over"
  have m: "move n k s = \<lparr>count_cnd = count_cnd s - 1, slices = (slices s)[k := ?x], calls = calls s\<rparr>"
    using k p by (simp add: move_def fetch_sub1_def)
  have "counted ?x = 0" by (cases "?m = 1") simp_all
  moreover have "counted (slices s ! k) = 1" using k(2) by simp
  ultimately have cs: "sum_list (map counted ((slices s)[k := ?x])) = ?m - 1"
    using counted_update [OF k(1), of ?x] by linarith
  have fr: "sum_list (map fresh ((slices s)[k := ?x])) = sum_list (map fresh (slices s))"
    using sum_fresh_update [OF k(1), of ?x] k(2) by simp
  have tl: "tails ((slices s)[k := ?x]) = (if ?m = 1 then [Merging] else [])"
    using tails_Nil_parts [OF _ k(1)] pos(2) k by (simp add: tails_update) (simp add: tails_def)
  have old: "Merge n \<notin> set (calls s)" "Run_Outputs \<notin> set (calls s)" using pos(3,4) k(2) by simp_all
  show ?thesis
    using inv dec cs fr tl old p unfolding fork_inv_def m by (cases "?m = 1") auto
qed

lemma tail_alone:
  assumes inv: "fork_inv n s" and k: "k < length (slices s)" "slices s ! k = x" "x = Merging \<or> x = Going_On"
  shows "sum_list (map counted (slices s)) = 0" and "tails (slices s) = [x]"
    and "tails (take k (slices s)) = []" and "tails (drop (Suc k) (slices s)) = []"
proof -
  have t: "tails (slices s) = tails (take k (slices s)) @ x # tails (drop (Suc k) (slices s))"
    using tails_split [OF k(1)] k(2,3) by (auto simp: tails_def)
  then show z: "sum_list (map counted (slices s)) = 0" using inv by (auto simp: fork_inv_def split: if_splits)
  then have "tails (slices s) = [Merging] \<or> tails (slices s) = [Going_On] \<or> tails (slices s) = []"
    using fork_counted_out [OF inv] by auto
  then show "tails (take k (slices s)) = []" "tails (drop (Suc k) (slices s)) = []" "tails (slices s) = [x]"
    using t by (auto simp: append_eq_Cons_conv)
qed

lemma move_merging:
  assumes inv: "fork_inv n s" and k: "k < length (slices s)" "slices s ! k = Merging"
  shows "fork_inv n (move n k s)"
proof -
  note a = tail_alone [OF inv k disjI1 [OF refl]]
  have m: "move n k s = \<lparr>count_cnd = count_cnd s, slices = (slices s)[k := Going_On], calls = calls s @ [Merge n]\<rparr>"
    using k by (simp add: move_def)
  have cs: "sum_list (map counted ((slices s)[k := Going_On])) = 0"
    using counted_update [OF k(1), of Going_On] k(2) a(1) by simp
  have fr: "sum_list (map fresh ((slices s)[k := Going_On])) = sum_list (map fresh (slices s))"
    using sum_fresh_update [OF k(1), of Going_On] k(2) by simp
  have tl: "tails ((slices s)[k := Going_On]) = [Going_On]"
    using a(3,4) k(1) by (simp add: tails_update) (simp add: tails_def)
  have "Merge n \<notin> set (calls s) \<and> Run_Outputs \<notin> set (calls s)"
    using fork_counted_out [OF inv a(1)] a(2) by auto
  then show ?thesis using inv a(1) cs fr tl unfolding fork_inv_def m by auto
qed

lemma move_going_on:
  assumes inv: "fork_inv n s" and k: "k < length (slices s)" "slices s ! k = Going_On"
  shows "fork_inv n (move n k s)"
proof -
  note a = tail_alone [OF inv k disjI2 [OF refl]]
  have m: "move n k s = \<lparr>count_cnd = count_cnd s, slices = (slices s)[k := Over], calls = calls s @ [Run_Outputs]\<rparr>"
    using k by (simp add: move_def)
  have cs: "sum_list (map counted ((slices s)[k := Over])) = 0"
    using counted_update [OF k(1), of Over] k(2) a(1) by simp
  have fr: "sum_list (map fresh ((slices s)[k := Over])) = sum_list (map fresh (slices s))"
    using sum_fresh_update [OF k(1), of Over] k(2) by simp
  have tl: "tails ((slices s)[k := Over]) = []"
    using a(3,4) k(1) by (simp add: tails_update) (simp add: tails_def)
  obtain ps where "Merge n \<notin> set ps" "Run_Outputs \<notin> set ps" "calls s = ps @ [Merge n]"
    using fork_counted_out [OF inv a(1)] a(2) by auto
  then show ?thesis using inv a(1) cs fr tl unfolding fork_inv_def m by auto
qed

lemma fork_step_inv: "fork_inv n s \<Longrightarrow> fork_step n s t \<Longrightarrow> fork_inv n t"
proof (erule fork_stepE)
  fix k
  assume inv: "fork_inv n s" and t: "t = move n k s" and k: "k < length (slices s)" "slices s ! k \<noteq> Over"
  show "fork_inv n t"
    using k(2) move_fresh [OF inv k(1)] move_counting [OF inv k(1)] move_merging [OF inv k(1)]
      move_going_on [OF inv k(1)] unfolding t by (cases "slices s ! k") blast+
qed

fun todo :: "slice \<Rightarrow> nat" where
  "todo (Fresh i) = 4"
| "todo (Counting i) = 3"
| "todo Merging = 2"
| "todo Going_On = 1"
| "todo Over = 0"

definition fork_mu :: "fork \<Rightarrow> nat" where
  "fork_mu s = sum_list (map todo (slices s))"

lemma fork_step_mu: "fork_step n s t \<Longrightarrow> fork_mu t < fork_mu s"
proof (erule fork_stepE)
  fix k
  assume t: "t = move n k s" and k: "k < length (slices s)" "slices s ! k \<noteq> Over"
  obtain sl cs c where st: "slice_step n (slices s ! k) (count_cnd s) = (sl, cs, c)"
    by (metis prod_cases3)
  then have "todo sl < todo (slices s ! k)"
    using k(2) by (cases "slices s ! k") (auto simp: Let_def split: if_splits prod.splits)
  moreover have "sum_list (map todo ((slices s)[k := sl])) + todo (slices s ! k) = sum_list (map todo (slices s)) + todo sl"
    by (rule sum_list_list_update [OF k(1)])
  ultimately show "fork_mu t < fork_mu s" using move_parts [OF st] by (simp add: t fork_mu_def)
qed

interpretation join: terminating_system "fork_step n" "fork_inv n" fork_mu for n
  by unfold_locales (rule fork_step_inv, assumption+, rule fork_step_mu)

lemma do_service_inv:
  assumes "0 < n" and "n < 2 ^ 31"
  shows "fork_inv n (snd (do_service n))" and "fork_mu (snd (do_service n)) = 4 * n"
proof -
  have "sum_list (map counted (map Fresh xs)) = length xs" "sum_list (map todo (map Fresh xs)) = 4 * length xs"
    "sum_list (map fresh (map Fresh xs)) = mset xs" "tails (map Fresh xs) = []" for xs
    by (induction xs) (simp_all add: tails_def)
  then show "fork_inv n (snd (do_service n))" "fork_mu (snd (do_service n)) = 4 * n"
    using assms by (simp_all add: fork_inv_def fork_mu_def do_service_def sint_of_nat32)
qed

text \<open>Where a run stands once the output nodes were run, and where no bthread can go on.\<close>

lemma counted_out_fresh: "sum_list (map counted xs) = 0 \<Longrightarrow> sum_list (map fresh xs) = {#}"
proof (induction xs)
  case (Cons x xs)
  then show ?case by (cases x) auto
qed simp

lemma fork_end:
  assumes inv: "fork_inv n s" and z: "sum_list (map counted (slices s)) = 0" and t: "tails (slices s) = []"
  obtains ps where "calls s = ps @ [Merge n, Run_Outputs]" and "processed ps = mset [0..<n]"
    and "Merge n \<notin> set ps" and "Run_Outputs \<notin> set ps"
proof -
  obtain ps where ps: "Merge n \<notin> set ps" "Run_Outputs \<notin> set ps" and "(tails (slices s), calls s) \<in>
      {([Merging], ps), ([Going_On], ps @ [Merge n]), ([], ps @ [Merge n, Run_Outputs])}"
    by (rule fork_counted_out [OF inv z])
  then have c: "calls s = ps @ [Merge n, Run_Outputs]" using t by auto
  have "processed (calls s) = mset [0..<n]" using inv counted_out_fresh [OF z] by (simp add: fork_inv_def)
  then have "processed ps = mset [0..<n]" using c by simp
  with ps c that show ?thesis by blast
qed

lemma fork_signalled:
  assumes inv: "fork_inv n s" and r: "Run_Outputs \<in> set (calls s)"
  shows "sum_list (map counted (slices s)) = 0" and "tails (slices s) = []"
proof -
  show z: "sum_list (map counted (slices s)) = 0" using inv r by (auto simp: fork_inv_def split: if_splits)
  obtain ps where "Run_Outputs \<notin> set ps" "(tails (slices s), calls s) \<in>
      {([Merging], ps), ([Going_On], ps @ [Merge n]), ([], ps @ [Merge n, Run_Outputs])}"
    by (rule fork_counted_out [OF inv z])
  then show "tails (slices s) = []" using r by auto
qed

lemma fork_stopped:
  assumes "\<And>t. \<not> fork_step n s t"
  shows "sum_list (map counted (slices s)) = 0" and "tails (slices s) = []" and "set (slices s) \<subseteq> {Over}"
proof -
  have over: "\<forall>x\<in>set (slices s). x = Over"
    using assms fork_step.intros by (metis in_set_conv_nth)
  have "sum_list (map counted xs) = 0 \<and> tails xs = []" if "\<forall>x\<in>set xs. x = Over" for xs
    using that by (induction xs) (auto simp: tails_def)
  with over show "sum_list (map counted (slices s)) = 0" "tails (slices s) = []" "set (slices s) \<subseteq> {Over}" by auto
qed

lemma fork_step_calls: "fork_step n s t \<Longrightarrow> set (calls s) \<subseteq> set (calls t)"
  by (auto simp: move_def Let_def split: prod.splits elim!: fork_stepE)

section \<open>Properties\<close>

text \<open>C26: The join of a concurrent node: with at least one slice, every run ends after at most four
  steps per slice; where it ends, every slice was processed exactly once, and then, after all of
  them, the results were merged once and the output nodes were notified once.\<close>

theorem slices_join:
  assumes "0 < n" and "n < 2 ^ 31" and "do_service n = (0, s0)"
  shows "((fork_step n ^^ k) s0 s \<longrightarrow> k \<le> 4 * n) \<and>
    ((fork_step n)\<^sup>*\<^sup>* s0 s \<and> (\<forall>t. \<not> fork_step n s t) \<longrightarrow>
       (\<exists>ps. calls s = ps @ [Merge n, Run_Outputs] \<and> processed ps = mset [0..<n] \<and>
          Merge n \<notin> set ps \<and> Run_Outputs \<notin> set ps))"
proof -
  have s0: "fork_inv n s0" "fork_mu s0 = 4 * n" using do_service_inv [OF assms(1,2)] assms(3) by simp_all
  have "\<exists>ps. calls s = ps @ [Merge n, Run_Outputs] \<and> processed ps = mset [0..<n] \<and>
          Merge n \<notin> set ps \<and> Run_Outputs \<notin> set ps"
    if s: "(fork_step n)\<^sup>*\<^sup>* s0 s" "\<forall>t. \<not> fork_step n s t"
  proof -
    have inv: "fork_inv n s" using join.steps_inv [OF s(1) s0(1)] .
    have ns: "\<not> fork_step n s t" for t using s(2) by blast
    show ?thesis by (rule fork_end [OF inv fork_stopped(1) [OF ns] fork_stopped(2) [OF ns]]) blast
  qed
  moreover have "(fork_step n ^^ k) s0 s \<Longrightarrow> k \<le> 4 * n" using join.run_bound [where n = k and s = s0] s0 by fastforce
  ultimately show ?thesis by blast
qed

text \<open>With no slice at all, nobody is left to merge: \<open>do_service\<close> returns 0, nothing runs, and the
  output nodes are never notified.\<close>

lemma no_slices_stall:
  "fst (do_service 0) = 0 \<and> calls (snd (do_service 0)) = [] \<and> (\<forall>t. \<not> fork_step 0 (snd (do_service 0)) t)"
  by (auto simp: do_service_def elim: fork_stepE)

fun run_slices :: "nat \<Rightarrow> nat list \<Rightarrow> fork \<Rightarrow> fork" where
  "run_slices n [] s = s"
| "run_slices n (k # ks) s =
     run_slices n ks (if k < length (slices s) \<and> slices s ! k \<noteq> Over then move n k s else s)"

lemma run_slices_steps: "(fork_step n)\<^sup>*\<^sup>* s (run_slices n ks s)"
proof (induction ks arbitrary: s)
  case (Cons k ks)
  let ?t = "if k < length (slices s) \<and> slices s ! k \<noteq> Over then move n k s else s"
  have "(fork_step n)\<^sup>*\<^sup>* s ?t" by (auto intro: fork_step.intros)
  then show ?case using Cons.IH [of ?t] by (metis run_slices.simps(2) rtranclp_trans)
qed simp

lemma two_slices_run:
  "calls (run_slices 2 [1, 0, 0, 1, 1, 1] (snd (do_service 2))) = [Process 1, Process 0, Merge 2, Run_Outputs] \<and>
   slices (run_slices 2 [1, 0, 0, 1, 1, 1] (snd (do_service 2))) = [Over, Over]"
  by code_simp

theorem slices_join_witness:
  "\<exists>ps. calls (run_slices 2 [1, 0, 0, 1, 1, 1] (snd (do_service 2))) = ps @ [Merge 2, Run_Outputs] \<and>
     processed ps = {#0, 1#} \<and> Merge 2 \<notin> set ps \<and> Run_Outputs \<notin> set ps"
proof -
  let ?s = "run_slices 2 [1, 0, 0, 1, 1, 1] (snd (do_service 2))"
  have "\<not> fork_step 2 ?s t" for t
  proof
    assume "fork_step 2 ?s t"
    then obtain k where "k < length (slices ?s)" "slices ?s ! k \<noteq> Over" by (rule fork_stepE)
    then show False using two_slices_run by (simp add: nth_Cons split: nat.splits)
  qed
  moreover have "do_service 2 = (0, snd (do_service 2))" by (simp add: do_service_def)
  moreover have "mset [0..<2] = {#0, 1#}" by (simp add: upt_rec add_mset_commute)
  moreover note run_slices_steps [of 2 "snd (do_service 2)" "[1, 0, 0, 1, 1, 1]"]
  ultimately show ?thesis
    using slices_join [of 2 "snd (do_service 2)" 0 ?s] by simp
qed

end
