(* ===== verification/Rpc.thy ===== *)
theory Rpc
  imports ManagersSpec
begin

text \<open>
  The services that call others: \<open>service/base/brpc_service.cpp\<close>, \<open>service/base/http_service.cpp\<close> and
  \<open>frame/call_mothod_util.h\<close>. The RPC library keeps a closure for every call and runs it later, in any order;
  the controller and the response of a call are objects that the callbacks delete. The virtual functions of
  a service are entries of the log; a \<open>call_rpc_method\<close> is a parameter of \<open>BrpcService::do_service\<close>, either
  the one of the base class or one that goes through \<open>call_method\<close>, as the template is meant to be used.
\<close>

section \<open>Objects and closures\<close>

type_synonym obj = nat
type_synonym request_id = nat \<comment> \<open>the context a call belongs to\<close>

datatype closure =
    Handle_Response request_id obj obj \<comment> \<open>controller and response\<close>
  | Http_Callback request_id obj

datatype rpc_event =
    Made_Uri request_id
  | Processed request_id \<comment> \<open>\<open>process_response\<close>\<close>
  | Outputs request_id \<comment> \<open>\<open>run_output_nodes_if_ready\<close>\<close>

record rpc_world =
  next_obj :: obj
  live :: "obj list"
  pending :: "closure list"
  rpc_log :: "rpc_event list"

definition new_world :: rpc_world where
  "new_world = \<lparr>next_obj = 0, live = [], pending = [], rpc_log = []\<rparr>"

definition new_obj :: "rpc_world \<Rightarrow> obj \<times> rpc_world" where
  "new_obj w = (next_obj w, w\<lparr>next_obj := Suc (next_obj w), live := live w @ [next_obj w]\<rparr>)"

definition use_obj :: "obj \<Rightarrow> rpc_world \<Rightarrow> unit res" where
  "use_obj p w = (if p \<in> set (live w) then Inr () else Inl Bad_Ptr)"

definition delete_obj :: "obj \<Rightarrow> rpc_world \<Rightarrow> rpc_world res" where
  "delete_obj p w = (if p \<in> set (live w) then Inr (w\<lparr>live := remove1 p (live w)\<rparr>) else Inl Bad_Ptr)"

definition log_rpc :: "rpc_event \<Rightarrow> rpc_world \<Rightarrow> rpc_world" where
  "log_rpc e w = w\<lparr>rpc_log := rpc_log w @ [e]\<rparr>"

section \<open>brpc\<close>

definition call_method :: "'ch option \<Rightarrow> request_id \<Rightarrow> rpc_world \<Rightarrow> rpc_world" where
  "call_method channel ctx w =
     (case channel of
        None \<Rightarrow> w
      | Some _ \<Rightarrow>
          (let (ctl, w1) = new_obj w; (response, w2) = new_obj w1
           in w2\<lparr>pending := pending w2 @ [Handle_Response ctx ctl response]\<rparr>))"

definition base_call_rpc_method :: "'ch \<Rightarrow> request_id \<Rightarrow> rpc_world \<Rightarrow> rpc_world" where
  "base_call_rpc_method channel ctx w = w"

definition service_cb :: "request_id \<Rightarrow> obj \<Rightarrow> obj \<Rightarrow> rpc_world \<Rightarrow> rpc_world res" where
  "service_cb ctx ctl response w =
     bind_res (use_obj ctl w) (\<lambda>_.
     bind_res (use_obj response w) (\<lambda>_.
     bind_res (delete_obj ctl (log_rpc (Processed ctx) w)) (\<lambda>w1.
     bind_res (delete_obj response w1) (\<lambda>w2.
       Inr (log_rpc (Outputs ctx) w2)))))"

definition handle_response :: "request_id \<Rightarrow> obj \<Rightarrow> obj \<Rightarrow> rpc_world \<Rightarrow> rpc_world res" where
  \<comment> \<open>asks the controller, only for a log line, whether the call failed\<close>
  "handle_response ctx ctl response w =
     bind_res (use_obj ctl w) (\<lambda>_. service_cb ctx ctl response w)"

definition brpc_do_service ::
  "(string \<rightharpoonup> 'ch) \<Rightarrow> string \<Rightarrow> ('ch \<Rightarrow> request_id \<Rightarrow> rpc_world \<Rightarrow> rpc_world) \<Rightarrow> request_id \<Rightarrow> rpc_world \<Rightarrow>
   int \<times> rpc_world"
where
  "brpc_do_service transports transport_name call_rpc_method ctx w =
     (case get_transport transport_name transports of
        None \<Rightarrow> (-1, log_rpc (Outputs ctx) w)
      | Some channel \<Rightarrow> (0, call_rpc_method channel ctx w))"

section \<open>http\<close>

definition http_do_service ::
  "(string \<rightharpoonup> 'ch) \<Rightarrow> string \<Rightarrow> request_id \<Rightarrow> rpc_world \<Rightarrow> int \<times> rpc_world"
where
  "http_do_service transports transport_name ctx w =
     (case get_transport transport_name transports of
        None \<Rightarrow> (-1, log_rpc (Outputs ctx) w)
      | Some channel \<Rightarrow>
          (let (ctl, w1) = new_obj w; w2 = log_rpc (Made_Uri ctx) w1
           in (0, w2\<lparr>pending := pending w2 @ [Http_Callback ctx ctl]\<rparr>)))"

definition http_service_cb :: "request_id \<Rightarrow> obj \<Rightarrow> rpc_world \<Rightarrow> rpc_world res" where
  "http_service_cb ctx ctl w =
     bind_res (use_obj ctl w) (\<lambda>_.
     bind_res (delete_obj ctl (log_rpc (Processed ctx) w)) (\<lambda>w1.
       Inr (log_rpc (Outputs ctx) w1)))"

section \<open>The library runs a closure\<close>

definition complete :: "nat \<Rightarrow> rpc_world \<Rightarrow> rpc_world res" where
  "complete k w =
     (let w1 = w\<lparr>pending := take k (pending w) @ drop (Suc k) (pending w)\<rparr>
      in case pending w ! k of
           Handle_Response ctx ctl response \<Rightarrow> handle_response ctx ctl response w1
         | Http_Callback ctx ctl \<Rightarrow> http_service_cb ctx ctl w1)"

datatype rpc_op =
    Brpc string request_id
  | Http string request_id
  | Complete nat

text \<open>Services whose \<open>call_rpc_method\<close> goes through \<open>call_method\<close>.\<close>

definition rpc_do :: "(string \<rightharpoonup> 'ch) \<Rightarrow> rpc_op \<Rightarrow> rpc_world \<Rightarrow> rpc_world res" where
  "rpc_do transports op w =
     (case op of
        Brpc nm ctx \<Rightarrow> Inr (snd (brpc_do_service transports nm (\<lambda>channel. call_method (Some channel)) ctx w))
      | Http nm ctx \<Rightarrow> Inr (snd (http_do_service transports nm ctx w))
      | Complete k \<Rightarrow> if k < length (pending w) then complete k w else Inr w)"

section \<open>What the calls keep\<close>

fun closure_ctx :: "closure \<Rightarrow> request_id" where
  "closure_ctx (Handle_Response ctx ctl response) = ctx"
| "closure_ctx (Http_Callback ctx ctl) = ctx"

fun closure_objs :: "closure \<Rightarrow> obj list" where
  "closure_objs (Handle_Response ctx ctl response) = [ctl, response]"
| "closure_objs (Http_Callback ctx ctl) = [ctl]"

text \<open>The objects that exist are those of the pending calls, each of one.\<close>

definition owned :: "rpc_world \<Rightarrow> bool" where
  "owned w \<longleftrightarrow> distinct (live w) \<and> (\<forall>p\<in>set (live w). p < next_obj w) \<and>
     mset (concat (map closure_objs (pending w))) = mset (live w)"

definition calls_for :: "request_id \<Rightarrow> rpc_op list \<Rightarrow> nat" where
  "calls_for ctx os = length (filter (\<lambda>op. case op of Brpc nm c \<Rightarrow> c = ctx | Http nm c \<Rightarrow> c = ctx | Complete k \<Rightarrow> False) os)"

definition pending_for :: "request_id \<Rightarrow> rpc_world \<Rightarrow> nat" where
  "pending_for ctx w = length (filter (\<lambda>c. closure_ctx c = ctx) (pending w))"

definition refused_for :: "(string \<rightharpoonup> 'ch) \<Rightarrow> request_id \<Rightarrow> rpc_op list \<Rightarrow> nat" where
  "refused_for transports ctx os =
     length (filter (\<lambda>op. case op of Brpc nm c \<Rightarrow> c = ctx \<and> transports nm = None
       | Http nm c \<Rightarrow> c = ctx \<and> transports nm = None | Complete k \<Rightarrow> False) os)"

lemma owned_new: "owned new_world"
  by (simp add: owned_def new_world_def)

lemma nth_out: "k < length xs \<Longrightarrow> mset xs = add_mset (xs ! k) (mset (take k xs @ drop (Suc k) xs))"
proof -
  assume "k < length xs"
  from arg_cong [OF nth_split [OF this], of mset] show ?thesis by simp
qed

lemma complete_owned:
  assumes ow: "owned w" and k: "k < length (pending w)"
  obtains w' where "complete k w = Inr w'" and "owned w'"
    and "pending w' = take k (pending w) @ drop (Suc k) (pending w)"
    and "rpc_log w' = rpc_log w @ [Processed (closure_ctx (pending w ! k)), Outputs (closure_ctx (pending w ! k))]"
proof -
  let ?rest = "take k (pending w) @ drop (Suc k) (pending w)"
  have objs: "mset (live w) = mset (closure_objs (pending w ! k)) + mset (concat (map closure_objs ?rest))"
    using ow arg_cong [OF nth_split [OF k], of "\<lambda>cs. mset (concat (map closure_objs cs))"]
    by (simp add: owned_def ac_simps)
  have d: "distinct (live w)" "\<forall>p\<in>set (live w). p < next_obj w" using ow by (simp_all add: owned_def)
  show ?thesis
  proof (cases "pending w ! k")
    case (Handle_Response ctx ctl response)
    have m: "mset (live w) = {#ctl, response#} + mset (concat (map closure_objs ?rest))"
      using objs by (simp add: Handle_Response)
    have in_live: "ctl \<in> set (live w)" "response \<in> set (live w)"
      using arg_cong [OF m, of set_mset] by auto
    have "count (mset (live w)) ctl = 1" using d(1) in_live(1) by (simp add: distinct_count_atmost_1)
    then have ne: "response \<noteq> ctl" using m by auto
    let ?w = "w\<lparr>next_obj := next_obj w, live := remove1 response (remove1 ctl (live w)), pending := ?rest,
      rpc_log := rpc_log w @ [Processed ctx, Outputs ctx]\<rparr>"
    have "response \<in> set (remove1 ctl (live w))" using in_live ne by simp
    then have "complete k w = Inr ?w"
      using in_live by (simp add: complete_def Handle_Response handle_response_def service_cb_def use_obj_def
          delete_obj_def log_rpc_def)
    moreover have "owned ?w" using d m by (auto simp: owned_def dest: notin_set_remove1)
    ultimately show ?thesis using that [of ?w] by (simp add: Handle_Response)
  next
    case (Http_Callback ctx ctl)
    have m: "mset (live w) = {#ctl#} + mset (concat (map closure_objs ?rest))"
      using objs by (simp add: Http_Callback)
    have in_live: "ctl \<in> set (live w)" using arg_cong [OF m, of set_mset] by auto
    let ?w = "w\<lparr>next_obj := next_obj w, live := remove1 ctl (live w), pending := ?rest,
      rpc_log := rpc_log w @ [Processed ctx, Outputs ctx]\<rparr>"
    have "complete k w = Inr ?w"
      using in_live by (simp add: complete_def Http_Callback http_service_cb_def use_obj_def delete_obj_def log_rpc_def)
    moreover have "owned ?w" using d m by (auto simp: owned_def dest: notin_set_remove1)
    ultimately show ?thesis using that [of ?w] by (simp add: Http_Callback)
  qed
qed


lemma rpc_do_owned:
  assumes ow: "owned w"
  obtains w' where "rpc_do transports op w = Inr w'" and "owned w'"
    and "\<And>ctx. pending_for ctx w' + count (mset (rpc_log w')) (Outputs ctx) =
      pending_for ctx w + count (mset (rpc_log w)) (Outputs ctx) + calls_for ctx [op]"
    and "\<And>ctx. count (mset (rpc_log w')) (Outputs ctx) + count (mset (rpc_log w)) (Processed ctx) =
      count (mset (rpc_log w)) (Outputs ctx) + count (mset (rpc_log w')) (Processed ctx) + refused_for transports ctx [op]"
proof (cases op)
  case (Brpc nm ctx)
  let ?w = "snd (brpc_do_service transports nm (\<lambda>channel. call_method (Some channel)) ctx w)"
  have "owned ?w"
    using ow by (auto simp: brpc_do_service_def call_method_def new_obj_def log_rpc_def owned_def split: option.splits)
  then show ?thesis
    by (intro that [of ?w])
      (auto simp: rpc_do_def Brpc pending_for_def calls_for_def refused_for_def brpc_do_service_def call_method_def
        new_obj_def log_rpc_def get_transport_def split: option.splits)
next
  case (Http nm ctx)
  let ?w = "snd (http_do_service transports nm ctx w)"
  have "owned ?w"
    using ow by (auto simp: http_do_service_def new_obj_def log_rpc_def owned_def Let_def split: option.splits)
  then show ?thesis
    by (intro that [of ?w])
      (auto simp: rpc_do_def Http pending_for_def calls_for_def refused_for_def http_do_service_def
        new_obj_def log_rpc_def get_transport_def Let_def split: option.splits)
next
  case (Complete k)
  show ?thesis
  proof (cases "k < length (pending w)")
    case True
    obtain w' where w': "complete k w = Inr w'" "owned w'"
      "pending w' = take k (pending w) @ drop (Suc k) (pending w)"
      "rpc_log w' = rpc_log w @ [Processed (closure_ctx (pending w ! k)), Outputs (closure_ctx (pending w ! k))]"
      using complete_owned [OF ow True] .
    have "pending_for ctx w = pending_for ctx w' + (if closure_ctx (pending w ! k) = ctx then 1 else 0)" for ctx
      using arg_cong [OF nth_split [OF True], of "\<lambda>cs. length (filter (\<lambda>c. closure_ctx c = ctx) cs)"]
      by (simp add: pending_for_def w'(3))
    with True w' show ?thesis
      by (intro that [of w']) (auto simp: rpc_do_def Complete calls_for_def refused_for_def)
  next
    case False
    then show ?thesis using ow by (intro that [of w]) (auto simp: rpc_do_def Complete calls_for_def refused_for_def)
  qed
qed

lemma calls_for_Cons: "calls_for ctx (op # os) = calls_for ctx [op] + calls_for ctx os"
  by (simp add: calls_for_def)

lemma refused_for_Cons: "refused_for ts ctx (op # os) = refused_for ts ctx [op] + refused_for ts ctx os"
  by (simp add: refused_for_def)

lemma rpc_ops_owned:
  assumes "owned w"
  shows "\<exists>w'. fold_res (rpc_do transports) os w = Inr w' \<and> owned w' \<and>
    (\<forall>ctx. pending_for ctx w' + count (mset (rpc_log w')) (Outputs ctx) =
       pending_for ctx w + count (mset (rpc_log w)) (Outputs ctx) + calls_for ctx os) \<and>
    (\<forall>ctx. count (mset (rpc_log w')) (Outputs ctx) + count (mset (rpc_log w)) (Processed ctx) =
       count (mset (rpc_log w)) (Outputs ctx) + count (mset (rpc_log w')) (Processed ctx) + refused_for transports ctx os)"
  using assms
proof (induction os arbitrary: w)
  case Nil
  then show ?case by (simp add: calls_for_def refused_for_def)
next
  case (Cons op os)
  obtain u where u: "rpc_do transports op w = Inr u" "owned u"
    "\<And>ctx. pending_for ctx u + count (mset (rpc_log u)) (Outputs ctx) =
      pending_for ctx w + count (mset (rpc_log w)) (Outputs ctx) + calls_for ctx [op]"
    "\<And>ctx. count (mset (rpc_log u)) (Outputs ctx) + count (mset (rpc_log w)) (Processed ctx) =
      count (mset (rpc_log w)) (Outputs ctx) + count (mset (rpc_log u)) (Processed ctx) + refused_for transports ctx [op]"
    by (rule rpc_do_owned [OF Cons.prems]) blast
  obtain v where v: "fold_res (rpc_do transports) os u = Inr v" "owned v"
    "\<And>ctx. pending_for ctx v + count (mset (rpc_log v)) (Outputs ctx) =
       pending_for ctx u + count (mset (rpc_log u)) (Outputs ctx) + calls_for ctx os"
    "\<And>ctx. count (mset (rpc_log v)) (Outputs ctx) + count (mset (rpc_log u)) (Processed ctx) =
       count (mset (rpc_log u)) (Outputs ctx) + count (mset (rpc_log v)) (Processed ctx) + refused_for transports ctx os"
    using Cons.IH [OF u(2)] by blast
  have "pending_for ctx v + count (mset (rpc_log v)) (Outputs ctx) =
      pending_for ctx w + count (mset (rpc_log w)) (Outputs ctx) + calls_for ctx (op # os)" for ctx
    unfolding calls_for_Cons [of ctx op os] using u(3) [of ctx] v(3) [of ctx] by linarith
  moreover have "count (mset (rpc_log v)) (Outputs ctx) + count (mset (rpc_log w)) (Processed ctx) =
      count (mset (rpc_log w)) (Outputs ctx) + count (mset (rpc_log v)) (Processed ctx) + refused_for transports ctx (op # os)" for ctx
    unfolding refused_for_Cons [of transports ctx op os] using u(4) [of ctx] v(4) [of ctx] by linarith
  ultimately show ?case using u(1) v(1,2) by simp
qed

section \<open>The property\<close>

text \<open>C25: The callbacks of the calls of any number of brpc and http services, run by the library in any order,
  never touch a deleted object, delete each controller and response once and leak none (what exists belongs to
  the pending calls); and for each request the output nodes are notified once per call of \<open>do_service\<close> that is
  not pending, which is as often as a response was processed or the channel did not exist. The
  brpc services are ones whose \<open>call_rpc_method\<close> goes through \<open>call_method\<close>; the one of the base class does nothing.\<close>

theorem rpc_calls_settle:
  "\<exists>w. fold_res (rpc_do transports) os new_world = Inr w \<and>
    distinct (live w) \<and> mset (concat (map closure_objs (pending w))) = mset (live w) \<and>
    (\<forall>ctx. pending_for ctx w + count (mset (rpc_log w)) (Outputs ctx) = calls_for ctx os \<and>
       count (mset (rpc_log w)) (Outputs ctx) = count (mset (rpc_log w)) (Processed ctx) + refused_for transports ctx os)"
proof -
  obtain w where w: "fold_res (rpc_do transports) os new_world = Inr w" "owned w"
    "\<forall>ctx. pending_for ctx w + count (mset (rpc_log w)) (Outputs ctx) =
       pending_for ctx new_world + count (mset (rpc_log new_world)) (Outputs ctx) + calls_for ctx os"
    "\<forall>ctx. count (mset (rpc_log w)) (Outputs ctx) + count (mset (rpc_log new_world)) (Processed ctx) =
       count (mset (rpc_log new_world)) (Outputs ctx) + count (mset (rpc_log w)) (Processed ctx) + refused_for transports ctx os"
    using rpc_ops_owned [OF owned_new, of transports os] by blast
  have z: "pending_for ctx new_world = 0" "rpc_log new_world = []" for ctx
    by (simp_all add: new_world_def pending_for_def)
  show ?thesis
    by (rule exI [of _ w]) (use w in \<open>simp add: owned_def z\<close>)
qed

end
