(* ===== verification/RpcNode.thy ===== *)
theory RpcNode
  imports Rpc
begin

text \<open>
  One node of type \<open>BrpcService\<close> or \<open>HttpService\<close> as work of its own: \<open>do_service\<close> runs once, and the library
  runs the closure it left, if any. Either way the output nodes are run once, after the response was processed
  or the channel was found missing.
\<close>

section \<open>Steps\<close>

record rpc_node_run =
  to_call :: "rpc_op list" \<comment> \<open>\<open>do_service\<close>, as long as it has not run\<close>
  world :: rpc_world

definition start_rpc :: "rpc_op \<Rightarrow> rpc_node_run" where
  "start_rpc op = \<lparr>to_call = [op], world = new_world\<rparr>"

inductive call_step :: "(string \<rightharpoonup> 'ch) \<Rightarrow> rpc_node_run \<Rightarrow> rpc_node_run \<Rightarrow> bool" for transports where
  call: "to_call s = op # os \<Longrightarrow> rpc_do transports op (world s) = Inr w \<Longrightarrow>
    call_step transports s \<lparr>to_call = os, world = w\<rparr>"
| callback: "k < length (pending (world s)) \<Longrightarrow> complete k (world s) = Inr w \<Longrightarrow>
    call_step transports s (s\<lparr>world := w\<rparr>)"

definition ran_outputs :: "rpc_node_run \<Rightarrow> bool" where
  "ran_outputs s \<longleftrightarrow> (\<exists>ctx. Outputs ctx \<in> set (rpc_log (world s)))"

section \<open>Before the call, waiting, done\<close>

fun is_call :: "rpc_op \<Rightarrow> bool" where
  "is_call (Complete k) \<longleftrightarrow> False"
| "is_call _ \<longleftrightarrow> True"

fun op_ctx :: "rpc_op \<Rightarrow> request_id" where
  "op_ctx (Brpc nm ctx) = ctx"
| "op_ctx (Http nm ctx) = ctx"
| "op_ctx (Complete k) = 0"

fun op_channel :: "rpc_op \<Rightarrow> string" where
  "op_channel (Brpc nm ctx) = nm"
| "op_channel (Http nm ctx) = nm"
| "op_channel (Complete k) = []"

definition made :: "rpc_op \<Rightarrow> rpc_event list" where
  \<comment> \<open>what the log holds when the call was made\<close>
  "made op = (case op of Http nm ctx \<Rightarrow> [Made_Uri ctx] | _ \<Rightarrow> [])"

definition call_waiting :: "rpc_op \<Rightarrow> rpc_node_run \<Rightarrow> bool" where
  "call_waiting op s \<longleftrightarrow> to_call s = [] \<and> owned (world s) \<and> map closure_ctx (pending (world s)) = [op_ctx op] \<and>
     rpc_log (world s) = made op"

definition call_settled :: "(string \<rightharpoonup> 'ch) \<Rightarrow> rpc_op \<Rightarrow> rpc_node_run \<Rightarrow> bool" where
  \<comment> \<open>no closure and no object is left, and the outputs ran after the response, or there was no channel\<close>
  "call_settled transports op s \<longleftrightarrow> to_call s = [] \<and> pending (world s) = [] \<and> live (world s) = [] \<and>
     rpc_log (world s) = (if transports (op_channel op) = None then [Outputs (op_ctx op)]
       else made op @ [Processed (op_ctx op), Outputs (op_ctx op)])"

definition call_inv :: "(string \<rightharpoonup> 'ch) \<Rightarrow> rpc_op \<Rightarrow> rpc_node_run \<Rightarrow> bool" where
  "call_inv transports op s \<longleftrightarrow> is_call op \<and>
     (s = start_rpc op \<or> transports (op_channel op) \<noteq> None \<and> call_waiting op s \<or> call_settled transports op s)"

definition call_mu :: "rpc_node_run \<Rightarrow> nat" where
  "call_mu s = 2 * length (to_call s) + length (pending (world s))"

lemma first_call:
  assumes "is_call op" and "rpc_do transports op new_world = Inr w"
  shows "call_inv transports op \<lparr>to_call = [], world = w\<rparr>" and "length (pending w) \<le> 1"
proof -
  have "owned w" using rpc_do_owned [OF owned_new, of transports op] assms(2) by (metis sum.inject(2))
  then show "call_inv transports op \<lparr>to_call = [], world = w\<rparr>" "length (pending w) \<le> 1"
    using assms by (cases op; auto simp: rpc_do_def brpc_do_service_def http_do_service_def call_method_def new_obj_def
        new_world_def log_rpc_def get_transport_def Let_def call_inv_def call_waiting_def call_settled_def made_def
        split: option.splits)+
qed

lemma call_callback:
  assumes "call_waiting op s" and "transports (op_channel op) \<noteq> None"
    and "k < length (pending (world s))" and "complete k (world s) = Inr w"
  shows "call_settled transports op (s\<lparr>world := w\<rparr>)"
proof -
  note cw = assms(1) [unfolded call_waiting_def]
  have k: "k = 0" "closure_ctx (pending (world s) ! 0) = op_ctx op" "length (pending (world s)) = 1"
    using cw assms(3) by (auto simp: map_eq_Cons_conv)
  obtain w' where w': "complete k (world s) = Inr w'" "owned w'"
    "pending w' = take k (pending (world s)) @ drop (Suc k) (pending (world s))"
    "rpc_log w' = rpc_log (world s) @ [Processed (closure_ctx (pending (world s) ! k)), Outputs (closure_ctx (pending (world s) ! k))]"
    using complete_owned [OF _ assms(3)] cw by metis
  have "w' = w" "pending w' = []" using w'(1,3) assms(4) k by auto
  moreover then have "live w = []" using w'(2) by (simp add: owned_def)
  ultimately show ?thesis using cw w'(4) k assms(2) by (simp add: call_settled_def)
qed

lemma call_step_cases:
  assumes "call_inv transports op s" and "call_step transports s t"
  shows "call_inv transports op t" and "call_mu t < call_mu s"
proof -
  have "call_inv transports op t \<and> call_mu t < call_mu s"
    using assms(2)
  proof cases
    case (call op1 os w)
    then have "s = start_rpc op" using assms(1) by (auto simp: call_inv_def call_waiting_def call_settled_def)
    then have "op1 = op" "os = []" "world s = new_world" using call(2) by (auto simp: start_rpc_def)
    with first_call [of op transports w] call assms(1) show ?thesis
      by (auto simp: call_mu_def call_inv_def)
  next
    case (callback k w)
    then have "call_waiting op s" "transports (op_channel op) \<noteq> None"
      using assms(1) by (auto simp: call_inv_def call_settled_def start_rpc_def new_world_def)
    from call_callback [where op = op and s = s and transports = transports, OF this callback(2,3)] this(1) callback(2) assms(1) show ?thesis
      by (auto simp: callback(1) call_inv_def call_mu_def call_settled_def)
  qed
  then show "call_inv transports op t" "call_mu t < call_mu s" by blast+
qed

interpretation calling: terminating_system "call_step transports" "call_inv transports op" call_mu
  for transports :: "string \<rightharpoonup> 'ch" and op
  by unfold_locales (fact call_step_cases)+

lemma call_start: "is_call op \<Longrightarrow> call_inv transports op (start_rpc op)" "call_mu (start_rpc op) = 2"
  "\<not> ran_outputs (start_rpc op)"
  by (simp_all add: call_inv_def call_mu_def start_rpc_def ran_outputs_def new_world_def)

lemma call_stops:
  assumes inv: "call_inv transports op s" and stop: "\<And>t. \<not> call_step transports s t"
  shows "call_settled transports op s"
proof (rule ccontr)
  assume "\<not> call_settled transports op s"
  then consider "s = start_rpc op" | "call_waiting op s" using inv by (auto simp: call_inv_def)
  then show False
  proof cases
    case 1
    obtain w where "rpc_do transports op new_world = Inr w" by (rule rpc_do_owned [OF owned_new])
    with call_step.call [of s op "[]" transports w] stop 1 show False by (simp add: start_rpc_def)
  next
    case 2
    then have k: "0 < length (pending (world s))" and "owned (world s)" by (auto simp: call_waiting_def)
    obtain w where "complete 0 (world s) = Inr w" by (rule complete_owned [OF \<open>owned (world s)\<close> k])
    with call_step.callback [OF k] stop show False by blast
  qed
qed

lemma outputs_settled: "call_inv transports op s \<Longrightarrow> ran_outputs s \<longleftrightarrow> call_settled transports op s"
  by (auto simp: call_inv_def ran_outputs_def call_settled_def call_waiting_def made_def start_rpc_def new_world_def
      split: rpc_op.splits)

lemma call_step_outputs:
  "call_inv transports op s \<Longrightarrow> call_step transports s t \<Longrightarrow> ran_outputs s \<Longrightarrow> ran_outputs t"
  by (auto simp: outputs_settled call_settled_def elim!: call_step.cases)

end
