(* ===== verification/IoGraph.thy ===== *)
theory IoGraph
  imports AsyncNode FetchSpec Concurrent RpcNode
begin

text \<open>
  A graph with a redis node, as the one of the unit test, and any number of concurrent, brpc and http nodes:
  \<open>Node::run\<close> calls the \<open>do_service\<close> of the class, whose bthreads and callbacks run beside the tasks of
  the graph, and the last of them runs the output nodes.
\<close>

section \<open>The nodes and their work\<close>

text \<open>What the redis node works with (its environment, the time, its \<open>FetchInfo\<close>s and the cache), the number
  of slices of each concurrent node, the RPC channels and the call of each RPC node. Redis nodes share one cache, so
  there is one of them.\<close>

record ('m, 'c) redis_node =
  node_ptr :: ptr
  redis_env :: "('m, 'c) service_env"
  redis_net :: net
  now :: int
  fetch_info_vec :: "fetch_info list"
  node_cache :: "'m cache_manager"

record ('m, 'c, 'ch) io_nodes = "('m, 'c) redis_node" +
  slice_nums :: "ptr \<rightharpoonup> nat"
  channels :: "string \<rightharpoonup> 'ch"
  rpc_services :: "ptr \<rightharpoonup> rpc_op"

datatype 'm io_work = Slices fork | Fetching "fetch_info list" "'m fetch_run" | Calling rpc_node_run

definition io_start :: "('m, 'c, 'ch) io_nodes \<Rightarrow> ptr \<rightharpoonup> 'm io_work res" where
  \<comment> \<open>what \<open>do_service\<close> of the node starts\<close>
  "io_start d p =
     (if p = node_ptr d
      then Some (map_sum id (\<lambda>(rc, fis, u). Fetching fis u)
        (redis_do_service (redis_env d) (now d) (fetch_info_vec d) (node_cache d)))
      else case slice_nums d p of
        Some slice_num \<Rightarrow> Some (Inr (Slices (snd (Concurrent.do_service slice_num))))
      | None \<Rightarrow> map_option (\<lambda>op. Inr (Calling (start_rpc op))) (rpc_services d p))"

inductive io_work_step :: "('m, 'c, 'ch) io_nodes \<Rightarrow> ptr \<Rightarrow> 'm io_work \<Rightarrow> 'm io_work \<Rightarrow> bool" for d p where
  slice: "slice_nums d p = Some slice_num \<Longrightarrow> fork_step slice_num a b \<Longrightarrow> io_work_step d p (Slices a) (Slices b)"
| fetch: "fetch_step (redis_env d) (redis_net d) fis u v \<Longrightarrow> io_work_step d p (Fetching fis u) (Fetching fis v)"
| call: "call_step (channels d) a b \<Longrightarrow> io_work_step d p (Calling a) (Calling b)"

inductive_simps io_work_step_Slices: "io_work_step d p (Slices a) y"
inductive_simps io_work_step_Fetching: "io_work_step d p (Fetching fis u) y"
inductive_simps io_work_step_Calling: "io_work_step d p (Calling a) y"

fun io_signalled :: "'m io_work \<Rightarrow> bool" where
  \<comment> \<open>\<open>run_output_nodes_if_ready\<close> was called\<close>
  "io_signalled (Slices a) \<longleftrightarrow> Run_Outputs \<in> set (calls a)"
| "io_signalled (Fetching fis u) \<longleftrightarrow> Notified \<in> set (fetch_log u)"
| "io_signalled (Calling a) \<longleftrightarrow> ran_outputs a"

abbreviation io_step ::
  "bool \<Rightarrow> exec_env \<Rightarrow> node list \<Rightarrow> ('m, 'c, 'ch) io_nodes \<Rightarrow> 'm io_work async_state \<Rightarrow> 'm io_work async_state \<Rightarrow> bool"
where
  "io_step fatal env h d \<equiv> async_step fatal env h (io_start d) (io_work_step d) (\<lambda>_. io_signalled)"

section \<open>Their work does what a graph needs\<close>

fun io_winv :: "('m, 'c, 'ch) io_nodes \<Rightarrow> fetch_info list \<Rightarrow> 'm fetch_run \<Rightarrow> 'm cache_manager \<Rightarrow> ptr \<Rightarrow> 'm io_work \<Rightarrow> bool" where
  "io_winv d fis u0 inst' p (Slices a) \<longleftrightarrow>
     p \<noteq> node_ptr d \<and> (\<exists>slice_num. slice_nums d p = Some slice_num \<and> fork_inv slice_num a)"
| "io_winv d fis u0 inst' p (Fetching fis1 u) \<longleftrightarrow>
     p = node_ptr d \<and> fis1 = fis \<and> join_inv (redis_env d) (redis_net d) fis (cached u0) (shared_cache u0) inst' u"
| "io_winv d fis u0 inst' p (Calling a) \<longleftrightarrow>
     p \<noteq> node_ptr d \<and> slice_nums d p = None \<and> (\<exists>op. rpc_services d p = Some op \<and> call_inv (channels d) op a)"

fun io_wmu :: "('m, 'c, 'ch) io_nodes \<Rightarrow> ptr \<Rightarrow> 'm io_work \<Rightarrow> nat" where
  "io_wmu d p (Slices a) = fork_mu a"
| "io_wmu d p (Fetching fis u) = join_mu (redis_env d) fis u"
| "io_wmu d p (Calling a) = call_mu a"

lemma io_works: "terminating_system (io_work_step d p) (io_winv d fis u0 inst' p) (io_wmu d p)"
proof
  fix x y
  assume "io_winv d fis u0 inst' p x" "io_work_step d p x y"
  then show "io_winv d fis u0 inst' p y" and "io_wmu d p y < io_wmu d p x"
    by (cases x; auto simp: io_work_step_Slices io_work_step_Fetching io_work_step_Calling
        intro: fork_step_inv fork_step_mu fetching.step_inv fetching.step_mu calling.step_inv calling.step_mu)+
qed

lemma io_keeps: "io_winv d fis u0 inst' p x \<Longrightarrow> io_work_step d p x y \<Longrightarrow> io_signalled x \<Longrightarrow> io_signalled y"
  by (erule io_work_step.cases) (auto dest: fork_step_calls fetch_step_log call_step_outputs)

lemma io_stops:
  assumes inv: "io_winv d fis u0 inst' p x" and stop: "\<And>y. \<not> io_work_step d p x y"
  shows "io_signalled x"
proof (cases x)
  case (Slices a)
  then obtain m where m: "fork_inv m a" "\<And>b. \<not> fork_step m a b"
    using inv stop by (auto simp: io_work_step_Slices)
  show ?thesis by (rule fork_end [OF m(1) fork_stopped(1,2) [OF m(2)]]) (simp add: Slices)
next
  case (Fetching fis1 u)
  then have u: "fis1 = fis" "join_inv (redis_env d) (redis_net d) fis (cached u0) (shared_cache u0) inst' u"
    "\<And>v. \<not> fetch_step (redis_env d) (redis_net d) fis u v"
    using inv stop by (auto simp: io_work_step_Fetching)
  then show ?thesis using join_final(2) [OF u(2,3)] by (auto simp: Fetching)
next
  case (Calling a)
  then obtain op where op: "call_inv (channels d) op a" "\<And>b. \<not> call_step (channels d) a b"
    using inv stop by (auto simp: io_work_step_Calling)
  then show ?thesis using call_stops [OF op] by (simp add: Calling outputs_settled)
qed

interpretation io: async_nodes "io_work_step d" "io_winv d fis u0 inst'" "io_wmu d" "\<lambda>_. io_signalled"
  for d :: "('m, 'c, 'ch) io_nodes" and fis u0 inst'
  by (rule async_nodes.intro [OF io_works io_keeps io_stops])

section \<open>From the start of a run to its end\<close>

lemma io_start_simps [simp]:
  "io_start d (node_ptr d) = Some (map_sum id (\<lambda>(rc, fis, u). Fetching fis u)
     (redis_do_service (redis_env d) (now d) (fetch_info_vec d) (node_cache d)))"
  "p \<noteq> node_ptr d \<Longrightarrow> slice_nums d p = Some k \<Longrightarrow>
     io_start d p = Some (Inr (Slices (snd (Concurrent.do_service k))))"
  "p \<noteq> node_ptr d \<Longrightarrow> slice_nums d p = None \<Longrightarrow>
     io_start d p = map_option (\<lambda>op. Inr (Calling (start_rpc op))) (rpc_services d p)"
  by (simp_all add: io_start_def)

lemma dom_io_start: "dom (io_start d) = insert (node_ptr d) (dom (slice_nums d) \<union> dom (rpc_services d))"
  by (auto simp: io_start_def dom_def split: option.splits)

text \<open>What the environment of the nodes owes them.\<close>

definition io_ready :: "('m, 'c, 'ch) io_nodes \<Rightarrow> nat \<Rightarrow> fetch_info list \<Rightarrow> 'm fetch_run \<Rightarrow> 'm cache_manager \<Rightarrow> bool" where
  "io_ready d n fis u0 inst' \<longleftrightarrow> node_ptr d < n \<and>
     (\<exists>rc. redis_do_service (redis_env d) (now d) (fetch_info_vec d) (node_cache d) = Inr (rc, fis, u0)) \<and>
     workable (redis_env d) (redis_net d) fis (cached u0) (shared_cache u0) inst' \<and>
     dom (slice_nums d) \<union> dom (rpc_services d) \<subseteq> {..<n} - {node_ptr d} \<and>
     dom (slice_nums d) \<inter> dom (rpc_services d) = {} \<and>
     (\<forall>k\<in>ran (slice_nums d). 0 < k \<and> k < 2 ^ 31) \<and> (\<forall>op\<in>ran (rpc_services d). is_call op)"

lemma io_starts:
  assumes "io_ready d n fis u0 inst'" and "p \<in> dom (io_start d)"
  shows "\<exists>w. io_start d p = Some (Inr w) \<and> io_winv d fis u0 inst' p w \<and> \<not> io_signalled w"
proof (cases "p = node_ptr d")
  case True
  obtain rc where ds: "redis_do_service (redis_env d) (now d) (fetch_info_vec d) (node_cache d) = Inr (rc, fis, u0)"
    and w: "workable (redis_env d) (redis_net d) fis (cached u0) (shared_cache u0) inst'"
    using assms(1) by (auto simp: io_ready_def)
  have "fetch_log (first_run fis (cached u0) (shared_cache u0)) = []" by (simp add: first_run_def)
  then have "fetch_log u0 = []" using do_service_start(2) [OF ds w] by metis
  then show ?thesis using True ds do_service_start(3) [OF ds w] by simp
next
  case False
  show ?thesis
  proof (cases "slice_nums d p")
    case None
    then obtain op where op: "rpc_services d p = Some op" using assms(2) False by (auto simp: dom_io_start)
    then have "is_call op" using assms(1) by (auto simp: io_ready_def ran_def)
    then show ?thesis using False None op call_start by simp
  next
    case (Some k)
    then have "0 < k" "k < 2 ^ 31" using assms(1) by (auto simp: io_ready_def ran_def)
    moreover have "calls (snd (Concurrent.do_service k)) = []" by (simp add: do_service_def)
    ultimately show ?thesis using False Some do_service_inv(1) [of k] by simp
  qed
qed

lemma io_work_bound:
  assumes "io_ready d n fis u0 inst'"
  shows "work_mu (io_start d) (io_wmu d) n Map.empty =
    (1 + 7 * length fis + 9 * (\<Sum>p<length fis. length (starts_of (redis_env d) fis p))) +
    (\<Sum>p\<in>dom (slice_nums d). 4 * the (slice_nums d p)) + 2 * card (dom (rpc_services d))"
proof -
  obtain rc where ds: "redis_do_service (redis_env d) (now d) (fetch_info_vec d) (node_cache d) = Inr (rc, fis, u0)"
    and w: "workable (redis_env d) (redis_net d) fis (cached u0) (shared_cache u0) inst'"
    and sub: "dom (slice_nums d) \<union> dom (rpc_services d) \<subseteq> {..<n} - {node_ptr d}"
    and disj: "dom (slice_nums d) \<inter> dom (rpc_services d) = {}" and k: "\<forall>k\<in>ran (slice_nums d). 0 < k \<and> k < 2 ^ 31"
    using assms by (auto simp: io_ready_def)
  let ?mu = "\<lambda>p. case io_start d p of Some (Inr w) \<Rightarrow> io_wmu d p w | _ \<Rightarrow> 0"
  have "{p. p < n \<and> p \<in> dom (io_start d)} = insert (node_ptr d) (dom (slice_nums d) \<union> dom (rpc_services d))"
    using assms sub by (auto simp: dom_io_start io_ready_def)
  moreover have fin: "finite (dom (slice_nums d))" "finite (dom (rpc_services d))"
    and "node_ptr d \<notin> dom (slice_nums d) \<union> dom (rpc_services d)"
    using sub finite_subset [OF sub] by auto
  ultimately have "work_mu (io_start d) (io_wmu d) n Map.empty =
      ?mu (node_ptr d) + (sum ?mu (dom (slice_nums d)) + sum ?mu (dom (rpc_services d)))"
    by (simp add: work_mu_def sum.union_disjoint [OF fin disj])
  moreover have "?mu (node_ptr d) = 1 + 7 * length fis + 9 * (\<Sum>p<length fis. length (starts_of (redis_env d) fis p))"
    using join_start(2) [OF w] do_service_start(2) [OF ds w] ds by simp
  moreover have "sum ?mu (dom (slice_nums d)) = (\<Sum>p\<in>dom (slice_nums d). 4 * the (slice_nums d p))"
  proof (rule sum.cong [OF refl])
    fix p
    assume p: "p \<in> dom (slice_nums d)"
    then obtain m where m: "slice_nums d p = Some m" by blast
    then have "p \<noteq> node_ptr d" "0 < m" "m < 2 ^ 31" using p sub k by (auto simp: ran_def)
    then show "?mu p = 4 * the (slice_nums d p)" using m do_service_inv(2) [of m] by simp
  qed
  moreover have "sum ?mu (dom (rpc_services d)) = (\<Sum>p\<in>dom (rpc_services d). 2)"
  proof (rule sum.cong [OF refl])
    fix p
    assume p: "p \<in> dom (rpc_services d)"
    then have "p \<noteq> node_ptr d" "slice_nums d p = None" using sub disj by auto
    then show "?mu p = 2" using p call_start(2) by auto
  qed
  ultimately show ?thesis by simp
qed

text \<open>Where an io node has ended, its own work is done.\<close>

lemma winv_cases:
  assumes "io_winv d fis u0 inst' p w"
  shows "p = node_ptr d \<Longrightarrow> \<exists>u. w = Fetching fis u \<and>
      join_inv (redis_env d) (redis_net d) fis (cached u0) (shared_cache u0) inst' u"
    and "p \<noteq> node_ptr d \<Longrightarrow> slice_nums d p = Some k \<Longrightarrow> \<exists>a. w = Slices a \<and> fork_inv k a"
  using assms by (cases w; auto)+

definition work_done :: "('m, 'c, 'ch) io_nodes \<Rightarrow> fetch_info list \<Rightarrow> ptr \<Rightarrow> 'm io_work \<Rightarrow> bool" where
  \<comment> \<open>the redis node has responded to all replies, a concurrent node has merged all slices, an RPC node has
    processed its response and freed it, or had no channel\<close>
  "work_done d fis p w \<longleftrightarrow> (case w of
     Fetching fis1 u \<Rightarrow> p = node_ptr d \<and> fis1 = fis \<and> Responded \<in> set (fetch_log u) \<and>
       results u = final_results (redis_env d) (redis_net d) fis
   | Slices a \<Rightarrow> (\<exists>k. slice_nums d p = Some k \<and> Merge k \<in> set (calls a) \<and> processed (calls a) = mset [0..<k])
   | Calling a \<Rightarrow> (\<exists>op. rpc_services d p = Some op \<and> call_settled (channels d) op a))"

lemma signalled_done:
  assumes "io_winv d fis u0 inst' p w" and "io_signalled w"
  shows "work_done d fis p w"
proof (cases w)
  case (Slices a)
  then obtain k where k: "slice_nums d p = Some k" "fork_inv k a" using assms(1) by auto
  have r: "Run_Outputs \<in> set (calls a)" using assms(2) Slices by simp
  show ?thesis
    by (rule fork_end [OF k(2) fork_signalled [OF k(2) r]]) (simp add: work_done_def Slices k(1))
next
  case (Fetching fis1 u)
  then have "join_inv (redis_env d) (redis_net d) fis (cached u0) (shared_cache u0) inst' u" using assms(1) by simp
  from notified_responded(1,2) [OF this] show ?thesis using assms by (simp add: work_done_def Fetching)
next
  case (Calling a)
  then show ?thesis using assms by (auto simp: work_done_def outputs_settled)
qed

lemma ended_done:
  assumes inv: "async_inv h r n (io_start d) (io_winv d fis u0 inst') (\<lambda>_. io_signalled) (s, f)"
    and p: "p \<in> ended (trace s)" "p \<in> dom (io_start d)"
  shows "\<exists>w. f p = Some w \<and> work_done d fis p w"
proof -
  note i = async_invD [OF inv]
  have "p \<in># begun (trace s)" using ended_begun [OF i(1), of p] p by (simp add: started_eq)
  then obtain w where w: "f p = Some w" using i(6) [of p] p by (cases "f p") auto
  then show ?thesis using signalled_done [OF i(7) [OF w]] i(8) [OF w] p by blast
qed

lemma fetch_over:
  assumes "io_winv d fis u0 inst' (node_ptr d) x" and "\<forall>y. \<not> io_work_step d (node_ptr d) x y"
  shows "\<exists>u. x = Fetching fis u \<and> view_fetch u = (mset (all_sent (redis_env d) (redis_net d) fis), 3, cached u0 \<noteq> [])"
proof -
  obtain u where u: "x = Fetching fis u" "join_inv (redis_env d) (redis_net d) fis (cached u0) (shared_cache u0) inst' u"
    using winv_cases(1) [OF assms(1) refl] by blast
  have "\<not> fetch_step (redis_env d) (redis_net d) fis u v" for v using assms(2) by (simp add: u(1) io_work_step_Fetching)
  from stopped_view [OF u(2) this] u(1) show ?thesis by blast
qed

lemma slices_over:
  assumes "io_winv d fis u0 inst' p x" and "\<forall>y. \<not> io_work_step d p x y" and "p \<noteq> node_ptr d" and k: "slice_nums d p = Some k"
  shows "\<exists>a. x = Slices a \<and> set (slices a) \<subseteq> {Over}"
proof -
  obtain a where a: "x = Slices a" using winv_cases(2) [OF assms(1,3,4)] by blast
  have "\<not> fork_step k a b" for b using assms(2) k by (simp add: a io_work_step_Slices)
  with fork_stopped(3) a show ?thesis by blast
qed

section \<open>The property\<close>

text \<open>C1: A graph with a redis node and concurrent, brpc and http nodes completes under every interleaving of the tasks
  of the graph with the threads, callbacks and slices of these nodes: it runs as the scheduler allows, so no output of a
  node starts before the node has ended; the redis node ends only after \<open>process_response\<close> was called with the results
  of all batches, a concurrent node only after the merge that follows its slices, an RPC node only after its response
  was processed or for want of a channel; the number of steps is bounded, and the graph stops only when every node ran
  once, the request has merged, responded and notified, and no slice is left. The brpc nodes call
  through \<open>call_method\<close>, and what the redis client returns for each batch is a parameter.\<close>

theorem io_graph_completes:
  assumes "prepared g h r n" and "run fatal g h = Inr (0, Some s0)" and "io_ready d n fis u0 inst'"
    and "(io_step fatal env h d ^^ m) (s0, Map.empty) (s, f)"
  shows "m \<le> (\<Sum>p<n. cost h p) + (1 + 7 * length fis + 9 * (\<Sum>p<length fis. length (starts_of (redis_env d) fis p))) +
      (\<Sum>p\<in>dom (slice_nums d). 4 * the (slice_nums d p)) + 2 * card (dom (rpc_services d)) \<and>
    (dag_step h n)\<^sup>*\<^sup>* ({}, {}) (view_exec s) \<and>
    (\<forall>p\<in>ended (trace s) \<inter> dom (io_start d). \<exists>w. f p = Some w \<and> work_done d fis p w) \<and>
    ((\<forall>y. \<not> io_step fatal env h d (s, f) y) \<longrightarrow> tasks s = [] \<and> begun (trace s) = mset_set {..<n} \<and>
      (\<exists>u. f (node_ptr d) = Some (Fetching fis u) \<and>
        view_fetch u = (mset (all_sent (redis_env d) (redis_net d) fis), 3, cached u0 \<noteq> [])) \<and>
      (\<forall>p\<in>dom (slice_nums d). \<exists>a. f p = Some (Slices a) \<and> set (slices a) \<subseteq> {Over}))"
proof (intro conjI impI)
  note st = io.graph_start [OF assms(1,2) io_starts [OF assms(3)]]
  have inv: "async_inv h r n (io_start d) (io_winv d fis u0 inst') (\<lambda>_. io_signalled) (s, f)"
    by (rule io.graph.relpow_inv [OF assms(4) st(1)])
  note i = async_invD [OF inv]
  show "m \<le> (\<Sum>p<n. cost h p) + (1 + 7 * length fis + 9 * (\<Sum>p<length fis. length (starts_of (redis_env d) fis p))) +
      (\<Sum>p\<in>dom (slice_nums d). 4 * the (slice_nums d p)) + 2 * card (dom (rpc_services d))"
    using io.graph.run_bound [OF assms(4) st(1)] io_work_bound [OF assms(3)] st(3) by simp
  show "(dag_step h n)\<^sup>*\<^sup>* ({}, {}) (view_exec s)"
    using io.schedule.chain.runs_sim [OF relpowp_imp_rtranclp [OF assms(4)] st(1)] by (simp add: st(2))
  show "\<forall>p\<in>ended (trace s) \<inter> dom (io_start d). \<exists>w. f p = Some w \<and> work_done d fis p w"
    using ended_done [OF inv] by blast
  assume stop: "\<forall>y. \<not> io_step fatal env h d (s, f) y"
  note e = io.graph_stops [OF inv]
  show t: "tasks s = []" by (rule e(1)) (use stop in blast)
  show "begun (trace s) = mset_set {..<n}" by (rule exec_final(1) [OF i(1) t])
  have w: "\<exists>u. f p = Some u \<and> io_winv d fis u0 inst' p u \<and> (\<forall>v. \<not> io_work_step d p u v)"
    if "p \<in> dom (io_start d)" for p
    by (rule e(2)) (use stop that assms(3) in \<open>auto simp: dom_io_start io_ready_def\<close>)
  obtain x where x: "f (node_ptr d) = Some x" "io_winv d fis u0 inst' (node_ptr d) x" "\<forall>y. \<not> io_work_step d (node_ptr d) x y"
    using w [of "node_ptr d"] by (auto simp: dom_io_start)
  show "\<exists>u. f (node_ptr d) = Some (Fetching fis u) \<and>
      view_fetch u = (mset (all_sent (redis_env d) (redis_net d) fis), 3, cached u0 \<noteq> [])"
    using fetch_over [OF x(2,3)] x(1) by blast
  show "\<forall>p\<in>dom (slice_nums d). \<exists>a. f p = Some (Slices a) \<and> set (slices a) \<subseteq> {Over}"
  proof
    fix p
    assume p: "p \<in> dom (slice_nums d)"
    then obtain k where k: "slice_nums d p = Some k" by blast
    obtain x where x: "f p = Some x" "io_winv d fis u0 inst' p x" "\<forall>y. \<not> io_work_step d p x y"
      using w [of p] p by (auto simp: dom_io_start)
    have "p \<noteq> node_ptr d" using k assms(3) by (auto simp: io_ready_def)
    from slices_over [OF x(2,3) this k] x(1) show "\<exists>a. f p = Some (Slices a) \<and> set (slices a) \<subseteq> {Over}" by blast
  qed
qed

text \<open>The graph of the unit test with a redis node and a concurrent node of two slices, and then a call by http.\<close>

definition unit_io :: "((string \<times> string \<times> int) list, unit, unit) io_nodes" where
  "unit_io = \<lparr>node_ptr = 1, redis_env = test_env, redis_net = test_net, now = 0, fetch_info_vec = [plain_info],
     node_cache = None, slice_nums = [2 \<mapsto> 2], channels = [''search'' \<mapsto> ()],
     rpc_services = [3 \<mapsto> Http ''search'' 0]\<rparr>"

lemma unit_io_simps [simp]:
  "node_ptr unit_io = 1" "redis_env unit_io = test_env" "redis_net unit_io = test_net" "now unit_io = 0"
  "fetch_info_vec unit_io = [plain_info]" "node_cache unit_io = None" "slice_nums unit_io = [2 \<mapsto> 2]"
  "channels unit_io = [''search'' \<mapsto> ()]" "rpc_services unit_io = [3 \<mapsto> Http ''search'' 0]"
  by (simp_all add: unit_io_def)

lemma unit_io_ready: "io_ready unit_io 4 (plain_fis test_keys) (first_run (plain_fis test_keys) [] None) None"
  unfolding io_ready_def using test_run test_w by simp

theorem io_graph_completes_witness:
  "\<exists>m s f u a. (io_step False unit_env unit_nodes unit_io ^^ m) (unit_start, Map.empty) (s, f) \<and>
     m \<le> (\<Sum>p<4. cost unit_nodes p) + 36 \<and> begun (trace s) = mset_set {..<4} \<and>
     f 1 = Some (Fetching (plain_fis test_keys) u) \<and> view_fetch u = ({#(0, 0), (0, 2)#}, 3, False) \<and>
     f 2 = Some (Slices a) \<and> set (slices a) \<subseteq> {Over}"
proof -
  let ?u0 = "first_run (plain_fis test_keys) [] (None :: (string \<times> string \<times> int) list cache_manager)"
  obtain x where x: "(io_step False unit_env unit_nodes unit_io)\<^sup>*\<^sup>* (unit_start, Map.empty) x"
    "\<forall>y. \<not> io_step False unit_env unit_nodes unit_io x y"
    using io.graph.ends [OF io.graph_start(1) [OF unit_prepared unit_run io_starts [OF unit_io_ready]]] by blast
  obtain s f where sf: "x = (s, f)" by (cases x)
  obtain m where m: "(io_step False unit_env unit_nodes unit_io ^^ m) (unit_start, Map.empty) (s, f)"
    using rtranclp_imp_relpowp [OF x(1)] sf by blast
  have c: "cached ?u0 = []" by (simp add: first_run_def)
  show ?thesis
    using io_graph_completes [OF unit_prepared unit_run unit_io_ready m] x(2) m
    by (force simp: sf c test_sent test_starts_of add.commute)
qed

end
