(* ===== verification/GraphManager.thy ===== *)
theory GraphManager
  imports Managers GraphRun
begin

text \<open>
  \<open>frame/graph_manager.cpp\<close>: from the configuration of the graphs to the graphs. The nodes of
  one graph are made on first mention, wired by the \<open>children\<close> and \<open>parents\<close> of each entry, and
  the result is handed to \<open>Graph::init\<close>.
\<close>

section \<open>Building one graph\<close>

text \<open>
  What the builder works with: the configuration library, boost, the node configurations
  \<open>NodeManager\<close> has, and what the virtual \<open>init\<close> of a new node does (return, or throw).
\<close>

record 'cfg builder_env =
  env_hocon :: "'cfg hocon"
  env_boost :: boost
  env_nodes :: "string \<rightharpoonup> 'cfg"
  node_init :: "string \<Rightarrow> 'cfg \<Rightarrow> unit res"

record builder =
  nodes_map :: "string \<rightharpoonup> ptr"
  heap :: "node list"
  node_id_gen :: int
  services :: service_map
  graph_node_vec :: "(string \<times> string) list"

definition new_builder :: "service_map \<Rightarrow> (string \<times> string) list \<Rightarrow> builder" where
  "new_builder sm names =
     \<lparr>nodes_map = Map.empty, heap = [], node_id_gen = 0, services = sm, graph_node_vec = names\<rparr>"

definition allocate_node_id :: "builder \<Rightarrow> int \<times> builder" where
  "allocate_node_id st = (node_id_gen st, st\<lparr>node_id_gen := int32 (node_id_gen st + 1)\<rparr>)"

definition create_service_if_not_exist ::
  "bool \<Rightarrow> 'cfg builder_env \<Rightarrow> string \<Rightarrow> builder \<Rightarrow> (ptr option \<times> builder) res"
where
  "create_service_if_not_exist fatal env nm st =
     (case nodes_map st nm of
        Some p \<Rightarrow> Inr (Some p, st)
      | None \<Rightarrow>
          (case get_node_info nm (env_nodes env) of
             None \<Rightarrow> Inr (None, st)
           | Some node_config \<Rightarrow>
               bind_res (get_string (env_hocon env) node_config ''class'') (\<lambda>clazz.
               bind_res (GET_SERVICE_FACTORY fatal clazz (services st)) (\<lambda>(service_fac, sm).
                 case service_fac of
                   None \<Rightarrow> log_fatal fatal (None, st\<lparr>services := sm\<rparr>)
                 | Some fac \<Rightarrow>
                     bind_res (node_init env fac node_config) (\<lambda>_.
                       let (i, st1) = allocate_node_id (st\<lparr>services := sm\<rparr>);
                           p = length (heap st1);
                           service_node = \<lparr>name = nm, node_id = i, input_num_4_check = 0, input_num = 0,
                             out_nodes = [], service_context_factory = fac\<rparr>
                       in Inr (Some p, st1
                            \<lparr>heap := heap st1 @ [service_node],
                             nodes_map := (nodes_map st1)(nm \<mapsto> p),
                             graph_node_vec := graph_node_vec st1 @ [(nm, clazz)]\<rparr>))))))"

definition connect_nodes :: "ptr \<Rightarrow> ptr \<Rightarrow> builder \<Rightarrow> builder" where
  \<comment> \<open>an edge is added unless it is there already\<close>
  "connect_nodes p q st =
     (if q \<in> set (out_nodes (heap st ! p)) then st else st\<lparr>heap := add_output p q (heap st)\<rparr>)"

definition add_child ::
  "bool \<Rightarrow> 'cfg builder_env \<Rightarrow> ptr \<Rightarrow> string \<Rightarrow> builder \<Rightarrow> builder res"
where
  "add_child fatal env service c st =
     (if c = [] then Inr st
      else bind_res (create_service_if_not_exist fatal env (trim (env_boost env) c) st)
        (\<lambda>(child, st1). case child of None \<Rightarrow> Inr st1 | Some q \<Rightarrow> Inr (connect_nodes service q st1)))"

definition add_parent ::
  "bool \<Rightarrow> 'cfg builder_env \<Rightarrow> ptr \<Rightarrow> string \<Rightarrow> builder \<Rightarrow> builder res"
where
  "add_parent fatal env service p st =
     bind_res (create_service_if_not_exist fatal env (trim (env_boost env) p) st)
       (\<lambda>(p_node, st1). case p_node of None \<Rightarrow> Inr st1 | Some q \<Rightarrow> Inr (connect_nodes q service st1))"

definition names_of :: "'cfg builder_env \<Rightarrow> string \<Rightarrow> string list" where
  \<comment> \<open>the names in a comma-separated attribute\<close>
  "names_of env s =
     (let t = trim (env_boost env) s in if t = [] then [] else split_each (env_boost env) '','' t)"

text \<open>One entry of a graph: the loop goes on unless its node cannot be made.\<close>

definition add_graph_node ::
  "bool \<Rightarrow> 'cfg builder_env \<Rightarrow> 'cfg \<Rightarrow> string \<Rightarrow> ptr option \<times> builder \<Rightarrow>
   (bool \<times> ptr option \<times> builder) res"
where
  "add_graph_node fatal env graph_conf node_name rs =
     (let (root, st) = rs; hc = env_hocon env
      in bind_res (get_object hc graph_conf node_name) (\<lambda>graph_node_conf.
         bind_res (create_service_if_not_exist fatal env node_name st) (\<lambda>(service, st1).
           case service of
             None \<Rightarrow> Inr (False, root, st1)
           | Some s \<Rightarrow>
               bind_res (get_or hc (get_bool hc) graph_node_conf ''root'' False) (\<lambda>is_root.
               bind_res (get_or hc (get_string hc) graph_node_conf ''children'' []) (\<lambda>children.
               bind_res (fold_res (add_child fatal env s) (names_of env children) st1) (\<lambda>st2.
               bind_res (get_or hc (get_string hc) graph_node_conf ''parents'' []) (\<lambda>parents.
               bind_res (fold_res (add_parent fatal env s) (names_of env parents) st2) (\<lambda>st3.
                 Inr (True, if is_root then Some s else root, st3)))))))))"

definition build_graph ::
  "bool \<Rightarrow> 'cfg builder_env \<Rightarrow> 'cfg \<Rightarrow> builder \<Rightarrow> (bool \<times> ptr option \<times> builder) res"
where
  "build_graph fatal env graph_conf st =
     loop_res (add_graph_node fatal env graph_conf) (key_set (env_hocon env) graph_conf) (None, st)"

section \<open>The graph manager\<close>

record graph_manager =
  graph_map :: "string \<rightharpoonup> graph \<times> node list"
  service_classes :: service_map
  graph_node_names :: "string \<rightharpoonup> (string \<times> string) list"
    \<comment> \<open>\<open>global_graph_node_name_vec_map\<close>\<close>

definition add_graph ::
  "bool \<Rightarrow> 'cfg builder_env \<Rightarrow> 'cfg \<Rightarrow> string \<Rightarrow> graph_manager \<Rightarrow> (bool \<times> graph_manager) res"
where
  "add_graph fatal env root_conf gname gm =
     bind_res (get_object (env_hocon env) root_conf gname) (\<lambda>graph_conf.
     let names = (case graph_node_names gm gname of None \<Rightarrow> [] | Some ns \<Rightarrow> ns)
     in bind_res (build_graph fatal env graph_conf (new_builder (service_classes gm) names))
          (\<lambda>(_, root, st).
        let gm1 = gm\<lparr>service_classes := services st,
                     graph_node_names := (graph_node_names gm)(gname \<mapsto> graph_node_vec st)\<rparr>
        in bind_res (init fatal root gname (new_graph\<lparr>max_node_id := node_id_gen st\<rparr>) (heap st))
             (\<lambda>(ret, g, h).
             if ret = 0
             then Inr (True, gm1\<lparr>graph_map := umap_insert gname (g, h) (graph_map gm)\<rparr>)
             else log_fatal fatal (False, gm1))))"

definition graphs_init ::
  "bool \<Rightarrow> 'cfg builder_env \<Rightarrow> string \<Rightarrow> graph_manager \<Rightarrow> (bool \<times> graph_manager) res"
where
  "graphs_init fatal env file_path gm =
     bind_res (parse_file_any_syntax (env_hocon env) file_path) (\<lambda>root_conf.
       loop_res (add_graph fatal env root_conf) (key_set (env_hocon env) root_conf) gm)"

definition get_graph :: "bool \<Rightarrow> string \<Rightarrow> graph_manager \<Rightarrow> (graph \<times> node list) option res" where
  "get_graph fatal topo_name gm =
     (case graph_map gm topo_name of None \<Rightarrow> log_fatal fatal None | Some g \<Rightarrow> Inr (Some g))"

end
