(* ===== verification/RedisClientSpec.thy ===== *)
theory RedisClientSpec
  imports RedisClient
begin

text \<open>
  What the redis client promises: the slot map it builds from the nodes of the cluster, the
  routing of a key to the node that serves it, the detection of changes of the cluster, and the
  parsing of slots and addresses.
\<close>

section \<open>The slot map\<close>

definition slot_at :: "int list \<Rightarrow> nat \<Rightarrow> int" where
  \<comment> \<open>the entry of a slot, where a slot without an entry is as good as one with the entry -1\<close>
  "slot_at v k = (if k < length v then v ! k else -1)"

lemma slot_at_resize: "slot_at (resize n (-1) v) k = (if k < n then slot_at v k else -1)"
  by (auto simp: slot_at_def resize_def nth_append)

lemma length_resize [simp]: "length (resize n x xs) = n"
  by (simp add: resize_def)

lemma slot_at_update:
  "k < length v \<Longrightarrow> slot_at (v[k := i]) j = (if j = k then i else slot_at v j)"
  by (simp add: slot_at_def nth_list_update)

lemma unat_Suc32: "w \<noteq> -1 \<Longrightarrow> unat (w + 1 :: 32 word) = Suc (unat w)"
  using unatSuc [of w] by (simp add: add_eq_0_iff add.commute)

lemma unat_greatest32: "unat (-1 :: 32 word) = 4294967295"
  by (simp add: unsigned_minus_1_eq_mask mask_eq_exp_minus_1)

lemma set_slot_spec:
  assumes "start \<noteq> -1"
  shows "\<exists>v1. set_slot start i v = Inr v1 \<and> length v1 = max (length v) (Suc (unat start)) \<and>
    (\<forall>k. slot_at v1 k = (if k = unat start then i else slot_at v k))"
proof (cases "unat start < length v")
  case True
  then show ?thesis by (simp add: set_slot_def slot_at_update)
next
  case False
  note n = unat_Suc32 [OF assms]
  have "slot_at (resize (Suc (unat start)) (-1) v) k = slot_at v k" for k
    using False unfolding slot_at_resize by (simp add: slot_at_def)
  moreover have "set_slot start i v = Inr ((resize (Suc (unat start)) (-1) v)[unat start := i])"
    unfolding set_slot_def Let_def n using False by simp
  ultimately show ?thesis using False by (simp add: slot_at_update)
qed

lemma set_slots_spec:
  assumes "e \<noteq> -1"
  shows "\<exists>v1. set_slots s e i v = Some (Inr v1) \<and> length v \<le> length v1 \<and>
    (\<forall>k. slot_at v1 k = (if unat s \<le> k \<and> k \<le> unat e then i else slot_at v k))"
proof (induction "Suc (unat e) - unat s" arbitrary: s v)
  case 0
  then have "\<not> s \<le> e" by (simp add: word_le_nat_alt)
  with 0 show ?case by (subst set_slots.simps) auto
next
  case (Suc m)
  then have le: "unat s \<le> unat e" by simp
  have "unat e \<noteq> unat (-1 :: 32 word)" using assms word_unat_eq_iff by blast
  moreover have "unat e \<le> unat (-1 :: 32 word)" by (simp flip: word_le_nat_alt)
  ultimately have "unat s < unat (-1 :: 32 word)" using le by linarith
  then have s: "s \<noteq> -1" by auto
  note n = unat_Suc32 [OF s]
  obtain v1 where v1: "set_slot s i v = Inr v1" "length v1 = max (length v) (Suc (unat s))"
    "\<And>k. slot_at v1 k = (if k = unat s then i else slot_at v k)"
    using set_slot_spec [OF s] by blast
  have "m = Suc (unat e) - unat (s + 1)" using Suc.hyps(2) n by simp
  from Suc.hyps(1) [OF this, of v1] obtain v2 where
    v2: "set_slots (s + 1) e i v1 = Some (Inr v2)" "length v1 \<le> length v2"
    "\<And>k. slot_at v2 k = (if Suc (unat s) \<le> k \<and> k \<le> unat e then i else slot_at v1 k)"
    using n by auto
  have "set_slots s e i v = Some (Inr v2)"
    using le v1(1) v2(1) by (subst set_slots.simps) (simp add: word_le_nat_alt)
  moreover have "slot_at v2 k = (if unat s \<le> k \<and> k \<le> unat e then i else slot_at v k)" for k
    using v1(3) [of k] v2(3) [of k] le by auto
  ultimately show ?case using v1(2) v2(2) by simp
qed

text \<open>A range that ends at the greatest number empties the vector and writes outside of it; it
  is what a slot string with a negative number is parsed to.\<close>

lemma set_slots_greatest:
  assumes "length v < 2 ^ 32"
  shows "set_slots s (-1) i v = Some (Inl Bad_Ptr)"
  using assms
proof (induction "unat (-1 :: 32 word) - unat s" arbitrary: s v)
  case 0
  then have "-1 \<le> s" by (simp add: word_le_nat_alt)
  then have "s = -1" by (intro antisym) simp_all
  moreover have "set_slot (-1) i v = Inl Bad_Ptr"
    using "0.prems" by (simp add: set_slot_def unat_greatest32 resize_def)
  ultimately show ?case by (subst set_slots.simps) simp
next
  case (Suc m)
  then have s: "s \<noteq> -1" by auto
  note n = unat_Suc32 [OF s]
  obtain v1 where v1: "set_slot s i v = Inr v1" "length v1 = max (length v) (Suc (unat s))"
    using set_slot_spec [OF s] by blast
  have "unat s < 2 ^ 32 - 1" using Suc.hyps(2) by (simp add: unat_greatest32)
  then have "length v1 < 2 ^ 32" using v1(2) Suc.prems by simp
  moreover have "m = unat (-1 :: 32 word) - unat (s + 1)" using Suc.hyps(2) n by simp
  ultimately have "set_slots (s + 1) (-1) i v1 = Some (Inl Bad_Ptr)" using Suc.hyps(1) by blast
  then show ?case using v1(1) by (subst set_slots.simps) simp
qed

lemma fold_add_range:
  assumes "\<forall>r\<in>set rs. snd r \<noteq> -1"
  shows "\<exists>v1. fold_res (add_range i) rs v = Inr v1 \<and>
    (\<forall>k. slot_at v1 k =
      (if \<exists>r\<in>set rs. unat (fst r) \<le> k \<and> k \<le> unat (snd r) then i else slot_at v k))"
  using assms
proof (induction rs arbitrary: v)
  case (Cons r rs)
  from set_slots_spec [of "snd r" "fst r" i v] Cons.prems obtain v1 where
    v1: "add_range i r v = Inr v1"
      "\<And>k. slot_at v1 k = (if unat (fst r) \<le> k \<and> k \<le> unat (snd r) then i else slot_at v k)"
    by (auto simp: add_range_def)
  from Cons obtain v2 where v2: "fold_res (add_range i) rs v1 = Inr v2"
    "\<And>k. slot_at v2 k =
      (if \<exists>r\<in>set rs. unat (fst r) \<le> k \<and> k \<le> unat (snd r) then i else slot_at v1 k)"
    by fastforce
  have "slot_at v2 k =
      (if \<exists>x\<in>set (r # rs). unat (fst x) \<le> k \<and> k \<le> unat (snd x) then i else slot_at v k)" for k
    using v1(2) [of k] v2(2) [of k] by auto
  then show ?case using v1(1) v2(1) by auto
qed auto

lemma CheckSlot_unat:
  "CheckSlot slot node \<longleftrightarrow>
   (\<exists>r\<in>set (mSlots node). unat (fst r) \<le> unat slot \<and> unat slot \<le> unat (snd r))"
  by (auto simp: CheckSlot_def list_ex_iff split_beta word_le_nat_alt)

definition ranges_ok :: "node_info list \<Rightarrow> bool" where
  \<comment> \<open>no range of slots ends at the greatest 32-bit number\<close>
  "ranges_ok nodes \<longleftrightarrow> (\<forall>node\<in>set nodes. \<forall>r\<in>set (mSlots node). snd r \<noteq> -1)"

text \<open>The last of the nodes, counted from \<open>n\<close>, that claims a slot.\<close>

fun owner :: "nat \<Rightarrow> node_info list \<Rightarrow> 32 word \<Rightarrow> nat option" where
  "owner n [] slot = None"
| "owner n (node # nodes) slot =
     (case owner (Suc n) nodes slot of
        Some i \<Rightarrow> Some i
      | None \<Rightarrow> if CheckSlot slot node then Some n else None)"

lemma fold_nodes:
  assumes "ranges_ok nodes"
  shows "\<exists>v1. fold_res (\<lambda>(i, node). fold_res (add_range (int32 (int i))) (mSlots node))
      (enumerate n nodes) v = Inr v1 \<and>
    (\<forall>slot. slot_at v1 (unat slot) =
      (case owner n nodes slot of Some i \<Rightarrow> int32 (int i) | None \<Rightarrow> slot_at v (unat slot)))"
  using assms
proof (induction nodes arbitrary: n v)
  case (Cons node nodes)
  from Cons.prems fold_add_range [of "mSlots node" "int32 (int n)" v] obtain v1 where
    v1: "fold_res (add_range (int32 (int n))) (mSlots node) v = Inr v1"
      "\<And>slot. slot_at v1 (unat slot) =
        (if CheckSlot slot node then int32 (int n) else slot_at v (unat slot))"
    by (auto simp: ranges_ok_def CheckSlot_unat)
  have "ranges_ok nodes" using Cons.prems by (simp add: ranges_ok_def)
  from Cons.IH [OF this, of "Suc n" v1] obtain v2 where v2:
    "fold_res (\<lambda>(i, node). fold_res (add_range (int32 (int i))) (mSlots node))
      (enumerate (Suc n) nodes) v1 = Inr v2"
    "\<And>slot. slot_at v2 (unat slot) = (case owner (Suc n) nodes slot of
      Some i \<Rightarrow> int32 (int i) | None \<Rightarrow> slot_at v1 (unat slot))" by blast
  have "slot_at v2 (unat slot) = (case owner n (node # nodes) slot of
      Some i \<Rightarrow> int32 (int i) | None \<Rightarrow> slot_at v (unat slot))" for slot
    using v1(2) v2(2) by (simp split: option.splits)
  then show ?case using v1(1) v2(1) by auto
qed simp

lemma InitSlotNodeMap_spec:
  assumes "ranges_ok nodes"
  shows "\<exists>v1. InitSlotNodeMap v nodes = Inr v1 \<and>
    (\<forall>slot. slot_at v1 (unat slot) = (case owner 0 nodes slot of
       Some i \<Rightarrow> int32 (int i)
     | None \<Rightarrow> if unat slot < 16384 then slot_at v (unat slot) else -1))"
  using fold_nodes [OF assms, of 0 "resize 16384 (-1) v"]
  by (simp add: InitSlotNodeMap_def slot_at_resize cong: option.case_cong)

lemma owner_None: "owner n nodes slot = None \<longleftrightarrow> (\<forall>node\<in>set nodes. \<not> CheckSlot slot node)"
proof (induction nodes arbitrary: n)
  case (Cons node nodes)
  show ?case using Cons.IH [of "Suc n"] by (cases "owner (Suc n) nodes slot") auto
qed simp

lemma owner_last:
  assumes "i < length nodes" and "CheckSlot slot (nodes ! i)"
    and "\<forall>node\<in>set (drop (Suc i) nodes). \<not> CheckSlot slot node"
  shows "owner n nodes slot = Some (n + i)"
  using assms
proof (induction nodes arbitrary: n i)
  case (Cons node nodes)
  show ?case
  proof (cases i)
    case 0
    then have "owner (Suc n) nodes slot = None" using Cons.prems(3) by (simp add: owner_None)
    then show ?thesis using 0 Cons.prems(2) by simp
  next
    case (Suc k)
    then have "owner (Suc n) nodes slot = Some (Suc n + k)"
      using Cons.IH [of k "Suc n"] Cons.prems by simp
    then show ?thesis using Suc by simp
  qed
qed simp

lemma owner_less: "owner n nodes slot = Some i \<Longrightarrow> n \<le> i \<and> i < n + length nodes"
proof (induction nodes arbitrary: n)
  case (Cons node nodes)
  then show ?case by (fastforce split: option.splits if_splits)
qed simp


section \<open>Parsing\<close>

lemma c_str_digits: "c_str (to_string n @ rest) = to_string n @ c_str rest"
proof -
  have "\<forall>c\<in>set (to_string n). c \<noteq> CHR 0x00"
    using to_string_props [of n] by (auto simp: isdigit_def)
  then show ?thesis by (simp add: c_str_def takeWhile_append)
qed

lemma c_str_nondigit: "rest = [] \<or> \<not> isdigit (hd rest) \<Longrightarrow> c_str rest = [] \<or> \<not> isdigit (hd (c_str rest))"
  by (cases rest) (auto simp: c_str_def)

lemma atoi_c_str:
  assumes "n < 2 ^ 31" and "rest = [] \<or> \<not> isdigit (hd rest)"
  shows "atoi (c_str (to_string n @ rest)) = Inr (int n)"
  unfolding c_str_digits by (rule atoi_to_string [OF assms(1) c_str_nondigit [OF assms(2)]])

lemma to_string_not_in: "\<not> isdigit c \<Longrightarrow> c \<notin> set (to_string n)"
  using to_string_props [of n] by auto

text \<open>C33: A slot range that is printed with its two numbers and a dash is parsed back, and so
  is a single slot, which stands for the range of that slot alone.\<close>

theorem parse_slot_roundtrip:
  assumes "s < 2 ^ 31" and "e < 2 ^ 31"
  shows "ParseSlotString (to_string s @ ''-'' @ to_string e) node =
      Inr (node\<lparr>mSlots := mSlots node @ [(of_nat s, of_nat e)]\<rparr>) \<and>
    ParseSlotString (to_string s) node =
      Inr (node\<lparr>mSlots := mSlots node @ [(of_nat s, of_nat s)]\<rparr>)"
proof -
  have no: "CHR ''-'' \<notin> set (to_string s)" by (rule to_string_not_in) (simp add: isdigit_def)
  then have f: "find (CHR ''-'') (to_string s @ ''-'' @ to_string e) = Some (length (to_string s))"
    using find_append_Cons by simp
  have n: "find (CHR ''-'') (to_string s) = None" using no by simp
  show ?thesis
    using atoi_c_str [of s "[]"] atoi_c_str [of e "[]"] assms f
    by (simp add: ParseSlotString_def n)
qed

theorem parse_slot_roundtrip_witness:
  "ParseSlotString (to_string 0 @ ''-'' @ to_string 5460) new_node_info =
     Inr (new_node_info\<lparr>mSlots := mSlots new_node_info @ [(of_nat 0, of_nat 5460)]\<rparr>)"
  by (rule conjunct1 [OF parse_slot_roundtrip]) simp_all

text \<open>C34: The address of a node, an ip without a colon, a colon, the port, and possibly the port
  of the cluster bus after a further separator, is parsed back.\<close>

theorem parse_node_roundtrip:
  assumes "CHR '':'' \<notin> set addr" and "p < 2 ^ 31" and "rest = [] \<or> \<not> isdigit (hd rest)"
  shows "ParseNodeString (addr @ '':'' @ to_string p @ rest) node =
    Inr (True, node\<lparr>port := Some (of_nat p), ip := addr\<rparr>)"
  using find_append_Cons [OF assms(1), of "to_string p @ rest"] atoi_c_str [OF assms(2,3)]
  by (simp add: ParseNodeString_def)

theorem parse_node_roundtrip_witness:
  "ParseNodeString (''10.0.0.1'' @ '':'' @ to_string 7000 @ ''@17000'') new_node_info =
   Inr (True, new_node_info\<lparr>port := Some (of_nat 7000), ip := ''10.0.0.1''\<rparr>)"
  by (rule parse_node_roundtrip) (simp_all add: isdigit_def)

text \<open>The entry of a slot that is being moved, which redis prints as a slot number, an arrow
  and the other node in brackets, is parsed as the range of slot 0 alone, whatever the slot:
  the node is then taken for the owner of slot 0.\<close>

lemma parse_migrating_slot:
  assumes "CHR ''-'' \<notin> set slot"
  shows "ParseSlotString (''['' @ slot @ ''->-'' @ other @ '']'') node =
    Inr (node\<lparr>mSlots := mSlots node @ [(0, 0)]\<rparr>)"
proof -
  have "CHR ''-'' \<notin> set (CHR ''['' # slot)" using assms by simp
  from find_append_Cons [OF this, of "CHR ''>'' # CHR ''-'' # other @ '']''"]
  have f: "find (CHR ''-'') (''['' @ slot @ ''->-'' @ other @ '']'') = Some (Suc (length slot))"
    by simp
  have "atoi (CHR ''['' # xs) = Inr 0" "atoi (CHR ''>'' # xs) = Inr 0" for xs
    by (simp_all add: atoi_def isspace_def isdigit_def digits_value_def Let_def)
  then show ?thesis using f by (simp add: ParseSlotString_def c_str_def)
qed

lemma parse_migrating_slot_example:
  "ParseSlotString (''['' @ ''93'' @ ''->-'' @ ''292f8b'' @ '']'') new_node_info =
   Inr (new_node_info\<lparr>mSlots := mSlots new_node_info @ [(0, 0)]\<rparr>)"
  by (rule parse_migrating_slot) simp

section \<open>Detection of changes\<close>

definition identity_of :: "boost \<Rightarrow> string \<Rightarrow> string \<times> string \<times> string list" where
  \<comment> \<open>what must stay the same of a node: its id, its address and its slots\<close>
  "identity_of b line =
     (let fields = split b '' '' line in (fields ! 0, fields ! 1, drop 8 fields))"

lemma nth_differ_drop:
  assumes "length xs = length ys"
  shows "(\<exists>j\<in>{n..<length ys}. xs ! j \<noteq> ys ! j) \<longleftrightarrow> drop n xs \<noteq> drop n ys"
proof
  assume "drop n xs \<noteq> drop n ys"
  then obtain k where "k < length ys - n" "drop n xs ! k \<noteq> drop n ys ! k"
    using assms by (metis length_drop nth_equalityI)
  then show "\<exists>j\<in>{n..<length ys}. xs ! j \<noteq> ys ! j"
    using assms by (intro bexI [of _ "n + k"]) auto
next
  assume "\<exists>j\<in>{n..<length ys}. xs ! j \<noteq> ys ! j"
  then obtain j where "n \<le> j" "j < length ys" "xs ! j \<noteq> ys ! j" by auto
  then have "drop n xs ! (j - n) \<noteq> drop n ys ! (j - n)" using assms by simp
  then show "drop n xs \<noteq> drop n ys" by auto
qed

lemma lines_differ_identity:
  assumes "8 \<le> length (split b '' '' l0)" and "8 \<le> length (split b '' '' l1)"
  shows "lines_differ b l0 l1 \<longleftrightarrow> identity_of b l0 \<noteq> identity_of b l1"
proof (cases "length (split b '' '' l0) = length (split b '' '' l1)")
  case True
  then show ?thesis
    using assms nth_differ_drop [OF True, of 8]
    by (auto simp: lines_differ_def identity_of_def Let_def list_ex_iff)
next
  case False
  then have "drop 8 (split b '' '' l0) \<noteq> drop 8 (split b '' '' l1)"
    using assms by (metis diff_diff_cancel diff_le_self le_add_diff_inverse length_drop)
  then show ?thesis using False by (auto simp: lines_differ_def identity_of_def Let_def)
qed

lemma nth_differ_map:
  assumes "length xs = length ys"
  shows "(\<exists>i<length xs. f (xs ! i) \<noteq> f (ys ! i)) \<longleftrightarrow> map f xs \<noteq> map f ys"
  using assms by (auto simp: list_eq_iff_nth_eq)

text \<open>C32: The cluster counts as changed exactly when the sequence of its masters with their ids,
  addresses and slots changed; the times of the last ping and pong and the epoch, which differ
  at every poll, do not count.\<close>

theorem change_detection:
  assumes "channel_pool_vec cl = [p0, p1]"
    and "\<forall>l\<in>set (valid_lines p0) \<union> set (valid_lines p1). 8 \<le> length (split b '' '' l)"
  shows "is_channel_pool_changed b cl \<longleftrightarrow>
    map (identity_of b) (valid_lines p0) \<noteq> map (identity_of b) (valid_lines p1)"
proof (cases "length (valid_lines p0) = length (valid_lines p1)")
  case True
  have "list_ex (\<lambda>i. lines_differ b (valid_lines p0 ! i) (valid_lines p1 ! i)) [0..<length (valid_lines p0)]
    \<longleftrightarrow> (\<exists>i<length (valid_lines p0). identity_of b (valid_lines p0 ! i) \<noteq> identity_of b (valid_lines p1 ! i))"
    using assms(2) True by (auto simp: list_ex_iff lines_differ_identity)
  then show ?thesis
    using True assms(1) nth_differ_map [OF True, of "identity_of b"]
    by (simp add: is_channel_pool_changed_def)
next
  case False
  then have "map (identity_of b) (valid_lines p0) \<noteq> map (identity_of b) (valid_lines p1)"
    using map_eq_imp_length_eq by blast
  then show ?thesis using False assms(1) by (simp add: is_channel_pool_changed_def)
qed

end
