(* ===== verification/RedisRouting.thy ===== *)
theory RedisRouting
  imports RedisClientSpec
begin

text \<open>
  From the answer of the cluster to the channel of a command: a client that was built from the
  nodes of a cluster serves them, it keeps doing so over any number of commands, and every
  command goes to the address of the node that owns the slot of its key.
\<close>

section \<open>A client that serves a cluster\<close>

definition node_address :: "node_info \<Rightarrow> string option" where
  "node_address node =
     (case port node of
        None \<Rightarrow> None
      | Some p \<Rightarrow>
          let host = (if ip node = [] \<and> p > 0 then ''127.0.0.1'' else ip node)
          in if host = [] then None else Some (host @ '':'' @ to_string (unat p)))"

definition entry_ok ::
  "(string \<Rightarrow> nat \<Rightarrow> 'c option) \<Rightarrow> node_info \<Rightarrow> (string \<times> 'c connect_pool) option \<Rightarrow> bool" where
  "entry_ok connect node entry \<longleftrightarrow>
     map_option fst entry = node_address node \<and>
     (\<forall>a p c. entry = Some (a, p) \<longrightarrow> c \<in> set (conn_list p) \<longrightarrow> (\<exists>k. connect a k = Some c))"

definition pool_serves ::
  "(string \<Rightarrow> nat \<Rightarrow> 'c option) \<Rightarrow> node_info list \<Rightarrow> 'c channel_pool \<Rightarrow> bool" where
  "pool_serves connect nodes cp \<longleftrightarrow>
     (\<forall>slot. slot_at (slot_ipport_index_vec cp) (unat slot) =
        (case owner 0 nodes slot of Some i \<Rightarrow> int i | None \<Rightarrow> -1)) \<and>
     list_all2 (entry_ok connect) nodes (m_channel_list cp)"

definition serves ::
  "(string \<Rightarrow> nat \<Rightarrow> 'c option) \<Rightarrow> node_info list \<Rightarrow> 'c redis_client \<Rightarrow> bool" where
  "serves connect nodes cl \<longleftrightarrow> length nodes < 2 ^ 31 \<and>
     nat (pool_index cl) < length (channel_pool_vec cl) \<and>
     pool_serves connect nodes (get_cur_channel_pool cl)"

text \<open>An entry as it was built, before any command.\<close>

definition entry_built :: "(string \<Rightarrow> nat \<Rightarrow> 'c option) \<Rightarrow> (string \<times> 'c connect_pool) option \<Rightarrow> bool" where
  "entry_built connect entry \<longleftrightarrow> (\<forall>a p. entry = Some (a, p) \<longrightarrow> (\<exists>psize. new_pool (connect a) psize 100 = Inr p))"

section \<open>Building the pools\<close>

lemma new_pool_conns:
  assumes "new_pool build psize msize = Inr p" and "c \<in> set (conn_list p)"
  shows "\<exists>k. build k = Some c"
proof -
  have "conn_list ((build_one build ^^ n) q) =
      conn_list q @ List.map_filter build [builds q..<builds q + n]" for n q
    using builds_funpow [where build = build and k = n and p = q] by simp
  then have "set (conn_list p) \<subseteq> set (List.map_filter build [0..<unat (word_of_int psize :: 32 word)])"
    using assms(1) by (auto simp: new_pool_def Let_def split: if_splits)
  with assms(2) obtain x y where "c = the (build x)" "build x = Some y"
    by (auto simp: List.map_filter_def)
  then show ?thesis by auto
qed

lemma new_pool_ok:
  assumes "unat (w :: 32 word) \<le> 100"
  shows "\<exists>p. new_pool build (sint w) 100 = Inr p"
proof -
  have "w \<le> 100" using assms by (simp add: word_le_nat_alt)
  then show ?thesis by (simp add: new_pool_def Let_def)
qed

lemma init_node_channel_spec:
  assumes "port node \<noteq> None" and "unat (word_of_int psize :: 32 word) \<le> 100"
    and "i < length channels" and "channels ! i = None"
  shows "\<exists>entry. init_node_channel connect psize (i, node) channels = Inr (channels[i := entry]) \<and>
    entry_ok connect node entry \<and> entry_built connect entry"
proof -
  obtain p where p: "port node = Some p" using assms(1) by auto
  define host where "host = (if ip node = [] \<and> p > 0 then ''127.0.0.1'' else ip node)"
  have addr: "node_address node = (if host = [] then None else Some (host @ '':'' @ to_string (unat p)))"
    by (simp only: node_address_def p option.case Let_def flip: host_def)
  have init: "init_node_channel connect psize (i, node) channels =
      bind_res (InitChannel connect i host (ucast p) (word_of_int psize) channels) (\<lambda>(_, channels). Inr channels)"
    by (simp only: init_node_channel_def p option.case prod.case Let_def flip: host_def)
  show ?thesis
  proof (cases "host = []")
    case True
    then have "node_address node = None"
      and "init_node_channel connect psize (i, node) channels = Inr channels"
      by (simp_all add: addr init InitChannel_def)
    then show ?thesis
      using assms(4) list_update_id [of channels i] by (intro exI [of _ None]) (simp add: entry_ok_def entry_built_def)
  next
    case False
    let ?a = "host @ '':'' @ to_string (unat p)"
    obtain q where q: "new_pool (connect ?a) (sint (word_of_int psize :: 32 word)) 100 = Inr q"
      using new_pool_ok [OF assms(2)] by blast
    have u: "unat (ucast p :: 32 word) = unat p" 
    proof -
      have "unat p < 2 ^ 16" using unsigned_less [of p] by simp
      then show ?thesis by (simp add: unsigned_ucast_eq take_bit_nat_eq_self)
    qed
    have "node_address node = Some ?a" using False by (simp add: addr)
    moreover have "init_node_channel connect psize (i, node) channels = Inr (channels[i := Some (?a, q)])"
      using False q assms(3) unfolding init InitChannel_def Let_def u by simp
    moreover have "\<exists>k. connect ?a k = Some c" if "c \<in> set (conn_list q)" for c
      using new_pool_conns [OF q that] .
    moreover have "entry_built connect (Some (?a, q))" using q by (auto simp: entry_built_def)
    ultimately show ?thesis by (intro exI [of _ "Some (?a, q)"]) (simp add: entry_ok_def)
  qed
qed

lemma init_channels_spec:
  assumes "\<forall>node\<in>set nodes. port node \<noteq> None" and "unat (word_of_int psize :: 32 word) \<le> 100"
    and "length channels = n + length nodes" and "\<forall>j. n \<le> j \<longrightarrow> j < length channels \<longrightarrow> channels ! j = None"
  shows "\<exists>entries. fold_res (init_node_channel connect psize) (enumerate n nodes) channels =
      Inr (take n channels @ entries) \<and> list_all2 (entry_ok connect) nodes entries \<and> list_all (entry_built connect) entries"
  using assms
proof (induction nodes arbitrary: n channels)
  case (Cons node nodes)
  obtain entry where e: "init_node_channel connect psize (n, node) channels = Inr (channels[n := entry])"
    "entry_ok connect node entry" "entry_built connect entry"
    using init_node_channel_spec [of node psize n channels connect] Cons.prems by auto
  have t: "take (Suc n) (channels[n := entry]) = take n channels @ [entry]"
    using Cons.prems(3) by (simp add: take_Suc_conv_app_nth)
  obtain entries where "fold_res (init_node_channel connect psize) (enumerate (Suc n) nodes)
      (channels[n := entry]) = Inr (take (Suc n) (channels[n := entry]) @ entries)"
    "list_all2 (entry_ok connect) nodes entries" "list_all (entry_built connect) entries"
    using Cons.IH [where n = "Suc n" and channels = "channels[n := entry]"] Cons.prems by auto
  with e t show ?case by (intro exI [of _ "entry # entries"]) simp
qed simp

lemma parse_lines_length:
  assumes "parse_lines b vlines = Inr (valid, nodes)"
  shows "length valid = length nodes"
proof -
  let ?P = "\<lambda>(valid, nodes). length valid = length nodes"
  have "?P (valid, nodes)"
    using assms unfolding parse_lines_def
  proof (rule fold_res_inv)
    fix x u v
    assume "?P u" and "(case u of (valid, vNodes) \<Rightarrow> bind_res (parse_line b x)
      (\<lambda>r. case r of None \<Rightarrow> Inr (valid, vNodes)
        | Some node \<Rightarrow> Inr (valid @ [x], vNodes @ [node]))) = Inr v"
    then show "?P v" by (auto simp: res_simps split: option.splits)
  qed simp
  then show ?thesis by simp
qed

lemma owner_int: "length nodes < 2 ^ 31 \<Longrightarrow> owner 0 nodes slot = Some i \<Longrightarrow> int32 (int i) = int i"
  using owner_less [of 0 nodes slot i] by simp

lemma new_client_serves:
  assumes parse: "parse_lines b (split b [CHR 0x0A] (trim b text)) = Inr (valid, nodes)"
    and ok: "nodes \<noteq> []" "length nodes < 2 ^ 31" "ranges_ok nodes" "\<forall>node\<in>set nodes. port node \<noteq> None"
    and psize: "unat (word_of_int psize :: 32 word) \<le> 100"
  shows "\<exists>cl. new_client b connect (Nodes text) addr bal timeout psize mpsize retry = Inr cl \<and>
    serves connect nodes cl \<and> pool_index cl = 0 \<and>
    list_all (entry_built connect) (m_channel_list (get_cur_channel_pool cl)) \<and>
    (\<exists>cp. channel_pool_vec cl = [cp, new_channel_pool] \<and> valid_lines cp = valid)"
proof -
  obtain slots where slots: "InitSlotNodeMap [] nodes = Inr slots"
    "\<And>slot. slot_at slots (unat slot) = (case owner 0 nodes slot of
       Some i \<Rightarrow> int32 (int i)
     | None \<Rightarrow> if unat slot < 16384 then slot_at [] (unat slot) else -1)"
    using InitSlotNodeMap_spec [OF ok(3), of "[]"] by blast
  have n: "length (resize (length nodes) None []) = 0 + length nodes"
    "\<forall>j. 0 \<le> j \<longrightarrow> j < length (resize (length nodes) None []) \<longrightarrow> resize (length nodes) None [] ! j = None"
    by (simp_all add: resize_def)
  obtain entries where entries: "fold_res (init_node_channel connect psize) (enumerate 0 nodes)
      (resize (length nodes) None []) = Inr entries" "list_all2 (entry_ok connect) nodes entries"
    "list_all (entry_built connect) entries"
    using init_channels_spec [OF ok(4) psize n] by (auto simp: take_0)
  let ?cp = "\<lparr>m_channel_list = entries, slot_ipport_index_vec = slots, valid_lines = valid\<rparr>"
  let ?cl = "\<lparr>url = addr, lb = bal, time_out = timeout, max_retry = retry, cfg_pool_size = psize,
        channel_pool_vec = [?cp, new_channel_pool], pool_index = 0\<rparr>"
  have "valid \<noteq> []" using parse_lines_length [OF parse] ok(1) by auto
  then have "new_client b connect (Nodes text) addr bal timeout psize mpsize retry = Inr ?cl"
    using parse slots(1) entries(1)
    by (simp add: new_client_def init_channel_pool_def put_pool_def new_channel_pool_def
      is_channel_pool_changed_def no_throw_def)
  moreover have "slot_at slots (unat slot) = (case owner 0 nodes slot of Some i \<Rightarrow> int i | None \<Rightarrow> -1)" for slot
    using slots(2) [of slot] owner_int [OF ok(2)]
    by (cases "owner 0 nodes slot") (simp_all add: slot_at_def)
  then have "serves connect nodes ?cl"
    using ok(2) entries(2) by (simp add: serves_def pool_serves_def get_cur_channel_pool_def)
  moreover have "list_all (entry_built connect) (m_channel_list (get_cur_channel_pool ?cl))"
    using entries(3) by (simp add: get_cur_channel_pool_def)
  ultimately show ?thesis by simp
qed


section \<open>Commands\<close>

lemma GetKeyNodeIndex_slot_at:
  "GetKeyNodeIndex key cp =
   (let t = slot_at (slot_ipport_index_vec cp) (unat (GetKeySlot key))
    in if t = -1 then 0 else word_of_int t)"
  by (simp add: GetKeyNodeIndex_def slot_at_def Let_def)

lemma node_index:
  assumes "pool_serves connect nodes cp" and "length nodes < 2 ^ 31"
  shows "unat (GetKeyNodeIndex key cp) =
    (case owner 0 nodes (GetKeySlot key) of Some i \<Rightarrow> i | None \<Rightarrow> 0)"
proof (cases "owner 0 nodes (GetKeySlot key)")
  case None
  then show ?thesis
    using assms(1) by (simp add: GetKeyNodeIndex_slot_at pool_serves_def)
next
  case (Some i)
  then have "i < 2 ^ 31" using owner_less [OF Some] assms(2) by simp
  then have "unat (word_of_int (int i) :: 32 word) = i"
    by (simp add: unsigned_of_nat take_bit_nat_eq_self)
  then show ?thesis
    using Some assms(1) by (simp add: GetKeyNodeIndex_slot_at pool_serves_def)
qed

lemma borrow_gives:
  "fst (borrow build p) = Some c \<Longrightarrow> c \<in> set (conn_list p) \<or> (\<exists>k. build k = Some c)"
  using borrow_idle [of p] borrow_empty [of p] by (cases "conn_list p") force+

lemma borrow_keeps: "set (conn_list (snd (borrow build p))) \<subseteq> set (conn_list p)"
  using borrow_idle [of p] borrow_empty [of p] by (cases "conn_list p") auto

lemma release_keeps:
  "set (conn_list (snd (release conn p))) \<subseteq> set_option conn \<union> set (conn_list p)"
  by (auto simp: release_def Let_def split: option.splits if_splits)

lemma entry_ok_borrow:
  "entry_ok connect node (Some (a, p)) \<Longrightarrow>
   entry_ok connect node (Some (a, snd (borrow (connect a) p)))"
  using borrow_keeps [of "connect a" p] by (auto simp: entry_ok_def)

lemma entry_ok_release:
  "entry_ok connect node (Some (a, p)) \<Longrightarrow> conn = None \<or> (\<exists>k. connect a k = conn) \<Longrightarrow>
   entry_ok connect node (Some (a, snd (release conn p)))"
  using release_keeps [of conn p] by (fastforce simp: entry_ok_def)

text \<open>Using one entry of the channel list, and putting it back.\<close>

lemma borrow_none:
  assumes "borrow f p = (None, q)"
  shows "\<exists>k. f k = None"
proof (cases "conn_list p")
  case Nil
  then have "f (builds p) = None" using assms borrow_empty [of p f] by simp
  then show ?thesis by blast
next
  case (Cons c cs)
  then show ?thesis using assms borrow_idle [OF Cons, of f] by simp
qed

lemma put_serves:
  assumes sv: "serves connect nodes cl" and e: "entry_ok connect (nodes ! i) (Some (a, r))"
  shows "serves connect nodes (put_pool (nat (pool_index cl))
      ((get_cur_channel_pool cl)\<lparr>m_channel_list := (m_channel_list (get_cur_channel_pool cl))[i := Some (a, r)]\<rparr>) cl)"
    and "pool_index (put_pool k cp cl) = pool_index cl"
proof -
  have la: "list_all2 (entry_ok connect) nodes (m_channel_list (get_cur_channel_pool cl))"
    using sv by (simp add: serves_def pool_serves_def)
  have "list_all2 (entry_ok connect) nodes ((m_channel_list (get_cur_channel_pool cl))[i := Some (a, r)])"
    using list_all2_update_cong [OF la e, of i] by simp
  then show "serves connect nodes (put_pool (nat (pool_index cl))
      ((get_cur_channel_pool cl)\<lparr>m_channel_list := (m_channel_list (get_cur_channel_pool cl))[i := Some (a, r)]\<rparr>) cl)"
    using sv unfolding serves_def pool_serves_def get_cur_channel_pool_def put_pool_def by simp
  show "pool_index (put_pool k cp cl) = pool_index cl" by (simp add: put_pool_def)
qed

lemma send_on_entry:
  assumes sv: "serves connect nodes cl" and ad: "node_address (nodes ! i) = Some a"
    and i: "unat (GetKeyNodeIndex (Some key) (get_cur_channel_pool cl)) = i" and len: "i < length nodes"
  shows "\<exists>conn cl'. send_on connect key parts tmo retry cl =
      Inr (if conn = None then -1 else 0,
        map_option (\<lambda>c. \<lparr>call_channel = c, components = parts,
          call_timeout = (if tmo > 0 then Some tmo else None),
          call_retry = (if retry > 0 then Some retry else None)\<rparr>) conn, cl') \<and>
    (conn = None \<or> (\<exists>k. connect a k = conn)) \<and> (conn = None \<longrightarrow> (\<exists>k. connect a k = None)) \<and>
    serves connect nodes cl' \<and> pool_index cl' = pool_index cl"
proof -
  let ?k = "nat (pool_index cl)" and ?cp = "get_cur_channel_pool cl"
  have cp: "?cp = channel_pool_vec cl ! ?k" by (simp add: get_cur_channel_pool_def)
  have la: "list_all2 (entry_ok connect) nodes (m_channel_list ?cp)"
    using sv by (simp add: serves_def pool_serves_def)
  have il: "i < length (m_channel_list ?cp)" using la len by (simp add: list_all2_lengthD)
  have ei: "entry_ok connect (nodes ! i) (m_channel_list ?cp ! i)"
    using la len by (simp add: list_all2_nthD)
  then obtain p where p: "m_channel_list ?cp ! i = Some (a, p)"
    using ad by (cases "m_channel_list ?cp ! i") (auto simp: entry_ok_def)
  obtain conn q where b: "borrow (connect a) p = (conn, q)" by force
  have eq: "entry_ok connect (nodes ! i) (Some (a, q))"
    using entry_ok_borrow [of connect "nodes ! i" a p] ei p b by simp
  have conn: "conn = None \<or> (\<exists>k. connect a k = conn)"
    using borrow_gives [of "connect a" p] b ei p by (cases conn) (auto simp: entry_ok_def)
  have none: "\<exists>k. connect a k = None" if "conn = None" using borrow_none [of "connect a" p q] b that by simp
  define put where "put r = put_pool ?k (?cp\<lparr>m_channel_list := (m_channel_list ?cp)[i := Some (a, r)]\<rparr>) cl" for r
  have put: "serves connect nodes (put r) \<and> pool_index (put r) = pool_index cl"
    if "entry_ok connect (nodes ! i) (Some (a, r))" for r using put_serves [OF sv that] by (simp add: put_def)
  have g: "GetConnection connect (GetKeyNodeIndex (Some key) ?cp) ?cp =
      Inr (conn, ?cp\<lparr>m_channel_list := (m_channel_list ?cp)[i := Some (a, q)]\<rparr>)"
    using i il p b by (simp add: GetConnection_def)
  have s: "send_on connect key parts tmo retry cl =
      (case conn of None \<Rightarrow> Inr (-1, None, put q)
       | Some c \<Rightarrow> Inr (0, Some \<lparr>call_channel = c, components = parts,
          call_timeout = (if tmo > 0 then Some tmo else None),
          call_retry = (if retry > 0 then Some retry else None)\<rparr>, put (snd (release conn q))))"
    unfolding send_on_def Let_def cp [symmetric] g
    using i il by (simp add: FreeConnection_def put_def split: option.splits)
  show ?thesis
  proof (cases conn)
    case None
    then show ?thesis using s none put [OF eq] by auto
  next
    case (Some c)
    then show ?thesis using s conn put [OF entry_ok_release [OF eq conn]] by auto
  qed
qed

text \<open>A node without an address has no pool, and the null pointer in its place is used.\<close>

lemma send_on_no_entry:
  assumes sv: "serves connect nodes cl" and ad: "node_address (nodes ! i) = None"
    and i: "unat (GetKeyNodeIndex (Some key) (get_cur_channel_pool cl)) = i" and len: "i < length nodes"
  shows "send_on connect key parts tmo retry cl = Inl Null_Deref"
proof -
  let ?cp = "get_cur_channel_pool cl"
  have la: "list_all2 (entry_ok connect) nodes (m_channel_list ?cp)"
    using sv by (simp add: serves_def pool_serves_def)
  have il: "i < length (m_channel_list ?cp)" using la len by (simp add: list_all2_lengthD)
  have "entry_ok connect (nodes ! i) (m_channel_list ?cp ! i)" using la len by (simp add: list_all2_nthD)
  then have "m_channel_list ?cp ! i = None" using ad by (simp add: entry_ok_def)
  then show ?thesis
    using i il by (simp add: send_on_def GetConnection_def Let_def get_cur_channel_pool_def)
qed

lemma serves_index:
  assumes "serves connect nodes cl" and "nodes \<noteq> []"
  shows "unat (GetKeyNodeIndex key (get_cur_channel_pool cl)) < length nodes"
  using node_index [of connect nodes "get_cur_channel_pool cl" key] assms
    owner_less [of 0 nodes "GetKeySlot key"]
  by (cases "owner 0 nodes (GetKeySlot key)") (auto simp: serves_def)

inductive client_step :: "(string \<Rightarrow> nat \<Rightarrow> 'c option) \<Rightarrow> 'c redis_client \<Rightarrow> 'c redis_client \<Rightarrow> bool"
  for connect where
  "fetch connect key tmo retry cl = Inr (code, call, cl') \<Longrightarrow> client_step connect cl cl'"

inductive_cases client_stepE: "client_step connect cl cl'"

lemma client_step_serves:
  assumes "nodes \<noteq> [] \<and> serves connect nodes cl" and "client_step connect cl cl'"
  shows "nodes \<noteq> [] \<and> serves connect nodes cl'"
proof -
  from assms(2) obtain key tmo retry code call
    where f: "fetch connect key tmo retry cl = Inr (code, call, cl')" by (rule client_stepE)
  let ?i = "unat (GetKeyNodeIndex (Some key) (get_cur_channel_pool cl))"
  have i: "?i < length nodes" using serves_index assms(1) by blast
  have "node_address (nodes ! ?i) \<noteq> None"
    using send_on_no_entry [OF conjunct2 [OF assms(1)] _ refl i, of "[''GET'', key]" tmo retry] f
    by (auto simp: fetch_def)
  then obtain a where "node_address (nodes ! ?i) = Some a" by auto
  from send_on_entry [OF conjunct2 [OF assms(1)] this refl i, of "[''GET'', key]" tmo retry]
  show ?thesis using f assms(1) by (auto simp: fetch_def)
qed

interpretation client: invariant_system "client_step connect" "\<lambda>cl. nodes \<noteq> [] \<and> serves connect nodes cl"
  for connect nodes
  by unfold_locales (rule client_step_serves)


section \<open>Properties\<close>

text \<open>C31: The slot map of a cluster: a slot goes to the last of the nodes that claim it, in the
  order of the reply. The configuration epoch plays no part in it, although the comment of
  \<open>NodeInfo::epoch\<close> says that the node with the higher epoch wins (\<open>epoch_ignored\<close> below is a
  reply where it loses). A slot no node claims keeps the entry it had, so that a map that is built
  again still sends it to the node it belonged to before, and a slot beyond 16383 is unset.\<close>

theorem slot_map:
  assumes "ranges_ok nodes" and "length nodes < 2 ^ 31"
  shows "\<exists>v1. InitSlotNodeMap v nodes = Inr v1 \<and>
    (\<forall>slot i. i < length nodes \<longrightarrow> CheckSlot slot (nodes ! i) \<longrightarrow>
       (\<forall>node\<in>set (drop (Suc i) nodes). \<not> CheckSlot slot node) \<longrightarrow>
       slot_at v1 (unat slot) = int i) \<and>
    (\<forall>slot. (\<forall>node\<in>set nodes. \<not> CheckSlot slot node) \<longrightarrow>
       slot_at v1 (unat slot) = (if unat slot < 16384 then slot_at v (unat slot) else -1))"
proof -
  obtain v1 where v1: "InitSlotNodeMap v nodes = Inr v1"
    "\<And>slot. slot_at v1 (unat slot) = (case owner 0 nodes slot of
       Some i \<Rightarrow> int32 (int i)
     | None \<Rightarrow> if unat slot < 16384 then slot_at v (unat slot) else -1)"
    using InitSlotNodeMap_spec [OF assms(1), of v] by blast
  have "slot_at v1 (unat slot) = int i" if i: "i < length nodes" "CheckSlot slot (nodes ! i)"
    "\<forall>node\<in>set (drop (Suc i) nodes). \<not> CheckSlot slot node" for slot i
    using v1(2) [of slot] owner_last [OF i, of 0] assms(2) i(1) by simp
  moreover have "slot_at v1 (unat slot) = (if unat slot < 16384 then slot_at v (unat slot) else -1)"
    if "\<forall>node\<in>set nodes. \<not> CheckSlot slot node" for slot
    using v1(2) [of slot] owner_None [THEN iffD2, OF that, of 0] by simp
  ultimately show ?thesis using v1(1) by blast
qed

text \<open>C13: A client built from a reply of the cluster, with a pool size of at most 100, comes up,
  and after any sequence of commands it sends a command, unless no channel can be opened, to the
  node that owns the slot of the key: the call is the GET of that key, on a channel to the
  address of the last node that claims the slot.\<close>

theorem client_routes:
  assumes "parse_lines b (split b [CHR 0x0A] (trim b text)) = Inr (valid, nodes)"
    and "nodes \<noteq> []" and "length nodes < 2 ^ 31" and "ranges_ok nodes"
    and "\<forall>node\<in>set nodes. port node \<noteq> None" and "unat (word_of_int psize :: 32 word) \<le> 100"
  shows "\<exists>cl0. new_client b connect (Nodes text) addr bal timeout psize mpsize retry = Inr cl0 \<and>
    (\<forall>cl key i a tmo retry. (client_step connect)\<^sup>*\<^sup>* cl0 cl \<longrightarrow>
       i < length nodes \<longrightarrow> CheckSlot (GetKeySlot (Some key)) (nodes ! i) \<longrightarrow>
       (\<forall>node\<in>set (drop (Suc i) nodes). \<not> CheckSlot (GetKeySlot (Some key)) node) \<longrightarrow>
       node_address (nodes ! i) = Some a \<longrightarrow> (\<forall>k. connect a k \<noteq> None) \<longrightarrow>
       (\<exists>c k cl'. connect a k = Some c \<and> fetch connect key tmo retry cl =
          Inr (0, Some \<lparr>call_channel = c, components = [''GET'', key],
            call_timeout = (if tmo > 0 then Some tmo else None),
            call_retry = (if retry > 0 then Some retry else None)\<rparr>, cl')))"
proof -
  obtain cl0 where cl0: "new_client b connect (Nodes text) addr bal timeout psize mpsize retry = Inr cl0"
    "serves connect nodes cl0"
    using new_client_serves [OF assms] by blast
  have "\<exists>c k cl'. connect a k = Some c \<and> fetch connect key tmo retry cl =
          Inr (0, Some \<lparr>call_channel = c, components = [''GET'', key],
            call_timeout = (if tmo > 0 then Some tmo else None),
            call_retry = (if retry > 0 then Some retry else None)\<rparr>, cl')"
    if steps: "(client_step connect)\<^sup>*\<^sup>* cl0 cl" and i: "i < length nodes"
      "CheckSlot (GetKeySlot (Some key)) (nodes ! i)"
      "\<forall>node\<in>set (drop (Suc i) nodes). \<not> CheckSlot (GetKeySlot (Some key)) node"
      and a: "node_address (nodes ! i) = Some a" and up: "\<forall>k. connect a k \<noteq> None"
    for cl key i a tmo retry
  proof -
    have sv: "serves connect nodes cl"
      using client.steps_inv [OF steps] cl0(2) assms(2) by blast
    then have "unat (GetKeyNodeIndex (Some key) (get_cur_channel_pool cl)) = i"
      using node_index [of connect nodes "get_cur_channel_pool cl" "Some key"] assms(3)
        owner_last [OF i, of 0] by (simp add: serves_def)
    from send_on_entry [OF sv a this i(1), of "[''GET'', key]" tmo retry] up
    show ?thesis by (auto simp: fetch_def)
  qed
  with cl0(1) show ?thesis by blast
qed

text \<open>A master without an address (an empty host and port 0, as the cluster lists a node
  it has no address of) has no pool: the command for a key of its slots dereferences the null
  pointer that stands in its place.\<close>

lemma fetch_addressless:
  assumes "serves connect nodes cl" and "i < length nodes"
    and "CheckSlot (GetKeySlot (Some key)) (nodes ! i)"
    and "\<forall>node\<in>set (drop (Suc i) nodes). \<not> CheckSlot (GetKeySlot (Some key)) node"
    and "node_address (nodes ! i) = None"
  shows "fetch connect key tmo retry cl = Inl Null_Deref"
proof -
  have "unat (GetKeyNodeIndex (Some key) (get_cur_channel_pool cl)) = i"
    using node_index [of connect nodes "get_cur_channel_pool cl" "Some key"] assms(1)
      owner_last [OF assms(2-4), of 0] by (simp add: serves_def)
  from send_on_no_entry [OF assms(1,5) this assms(2)] show ?thesis by (simp add: fetch_def)
qed

text \<open>A failed poll switches to an empty pool: the first round of the update loop of a client
  that came up compares the pool in use with the other one, which the failed request left
  empty, takes the difference for a change of the cluster and switches over; every command then
  fails with -1.\<close>

lemma failed_poll_switches:
  assumes "parse_lines b (split b [CHR 0x0A] (trim b text)) = Inr (valid, nodes)"
    and "nodes \<noteq> []" and "length nodes < 2 ^ 31" and "ranges_ok nodes"
    and "\<forall>node\<in>set nodes. port node \<noteq> None" and "unat (word_of_int psize :: 32 word) \<le> 100"
  shows "\<exists>cl cl'. new_client b connect (Nodes text) addr bal timeout psize mpsize retry = Inr cl \<and>
    update_channel_pool b connect Rpc_Failed cl = Inr (True, cl') \<and> pool_index cl' = 1 \<and>
    (\<forall>key tmo retry. fetch connect key tmo retry cl' = Inr (-1, None, cl'))"
proof -
  obtain cl cp where cl: "new_client b connect (Nodes text) addr bal timeout psize mpsize retry = Inr cl"
    "pool_index cl = 0" "channel_pool_vec cl = [cp, new_channel_pool]" "valid_lines cp = valid"
    using new_client_serves [OF assms] by blast
  have "valid \<noteq> []" using parse_lines_length [OF assms(1)] assms(2) by auto
  then have "is_channel_pool_changed b cl"
    using cl by (simp add: is_channel_pool_changed_def new_channel_pool_def)
  then have "update_channel_pool b connect Rpc_Failed cl = Inr (True, cl\<lparr>pool_index := 1\<rparr>)"
    using cl(2) by (simp add: update_channel_pool_def init_channel_pool_def)
  moreover have "fetch connect key tmo retry (cl\<lparr>pool_index := 1\<rparr>) =
      Inr (-1, None, cl\<lparr>pool_index := 1\<rparr>)" for key tmo retry
    using cl(3) by (simp add: fetch_def send_on_def GetConnection_def new_channel_pool_def
      put_pool_def Let_def)
  ultimately show ?thesis using cl(1) by auto
qed

text \<open>The bound of the pools is 100 whatever the configuration says: with a configured size
  above 100 the constructor of the pool throws, and the process ends.\<close>

lemma pool_size_above_100:
  assumes "parse_lines b (split b [CHR 0x0A] (trim b text)) = Inr (valid, node # nodes)"
    and "ranges_ok (node # nodes)" and "node_address node \<noteq> None"
    and "100 < unat (word_of_int psize :: 32 word)"
  shows "new_client b connect (Nodes text) addr bal timeout psize mpsize retry = Inl Terminate"
proof -
  obtain p where p: "port node = Some p" using assms(3) by (cases "port node") (auto simp: node_address_def)
  define host where "host = (if ip node = [] \<and> p > 0 then ''127.0.0.1'' else ip node)"
  have "host \<noteq> []"
    using assms(3) p by (auto simp: node_address_def host_def Let_def split: if_splits)
  moreover have "\<not> (word_of_int psize :: 32 word) \<le> 100" using assms(4) by (simp add: word_le_nat_alt)
  ultimately have "init_node_channel connect psize (0, node) channels = Inl Terminate" for channels
    unfolding init_node_channel_def p option.case prod.case Let_def host_def [symmetric]
    by (simp add: InitChannel_def new_pool_def Let_def not_le)
  moreover have "valid \<noteq> []" using parse_lines_length [OF assms(1)] by auto
  moreover obtain slots where "InitSlotNodeMap [] (node # nodes) = Inr slots"
    using InitSlotNodeMap_spec [OF assms(2), of "[]"] by blast
  ultimately show ?thesis
    using assms(1) by (simp add: new_client_def init_channel_pool_def put_pool_def new_channel_pool_def
      is_channel_pool_changed_def no_throw_def)
qed


section \<open>Batches\<close>

lemma set_parts_gone:
  assumes "is \<noteq> [] \<or> Gone \<in> set parts"
  shows "set_parts s is parts = Inl Bad_Ptr \<or> (\<exists>ps. set_parts s is parts = Inr ps \<and> Gone \<in> set ps)"
  using assms
proof (induction s "is" parts rule: set_parts.induct)
  case (2 s i js parts)
  then show ?case by (auto simp: Let_def set_update_memI)
qed simp

lemma read_pieces_gone: "Gone \<in> set ps \<Longrightarrow> read_pieces ps = Inl Bad_Ptr"
proof (induction ps)
  case (Cons p ps)
  show ?case
  proof (cases p)
    case (Live s)
    then show ?thesis using Cons by simp
  qed (use Cons in auto)
qed simp

text \<open>A batch that has a key cannot be sent: each piece of the command points into the copy of
  the key that is local to one round of the loop, so building the command reads strings that
  are gone.\<close>

lemma multi_fetch_dangling:
  assumes "0 \<le> start_index" and "start_index < end_index" and "start_index < int (length data)"
    and "length data < 2 ^ 31" and "end_index < 2 ^ 31"
  shows "multi_fetch connect data start_index end_index tmo retry cl = Inl Bad_Ptr"
proof -
  let ?n = "parts_size (length data) start_index end_index"
  let ?is = "map int [nat start_index..<nat (min end_index (int (length data)))]"
  have n: "?n = nat (int (min (nat end_index) (length data)) - start_index + 1)"
    using assms by (simp add: parts_size_def)
  then have "\<not> 2 ^ 59 - 1 < ?n" "?n \<noteq> 0" using assms by auto
  moreover have "?is \<noteq> []" using assms by auto
  then have "set_parts start_index ?is ps = Inl Bad_Ptr \<or>
      (\<exists>qs. set_parts start_index ?is ps = Inr qs \<and> read_pieces qs = Inl Bad_Ptr)" for ps
    using set_parts_gone [of ?is ps start_index] read_pieces_gone by blast
  from this [of "Live ''MGET'' # replicate (?n - 1) Empty_Piece"]
  have "bind_res (set_parts start_index ?is (Live ''MGET'' # replicate (?n - 1) Empty_Piece))
     (\<lambda>parts. bind_res (read_pieces parts) f) = Inl Bad_Ptr" for f :: "string list \<Rightarrow> (int \<times> 'a redis_call option \<times> 'a redis_client) res"
    by auto
  ultimately show ?thesis using assms(1) unfolding multi_fetch_def Let_def by auto
qed

lemma multi_fetch_dangling_example:
  "multi_fetch (\<lambda>_ _. Some (0 :: nat)) [''a'', ''b''] 0 2 (-1) (-1)
     \<lparr>url = [], lb = [], time_out = 0, max_retry = 0, cfg_pool_size = 1,
      channel_pool_vec = [new_channel_pool, new_channel_pool], pool_index = 0\<rparr> = Inl Bad_Ptr"
  by (rule multi_fetch_dangling) simp_all

section \<open>A cluster of two masters\<close>

text \<open>\<open>trim\<close> and \<open>split\<close> as the documentation of boost describes them.\<close>

function fields_of :: "string \<Rightarrow> string \<Rightarrow> string \<Rightarrow> string list" where
  "fields_of seps acc [] = [acc]"
| "fields_of seps acc (c # cs) =
     (if c \<in> set seps then acc # fields_of seps [] (dropWhile (\<lambda>c. c \<in> set seps) cs)
      else fields_of seps (acc @ [c]) cs)"
  by pat_completeness auto
termination
  by (relation "measure (\<lambda>(seps, acc, s). length s)") (auto simp: less_Suc_eq_le length_dropWhile_le)

fun all_fields_of :: "string \<Rightarrow> string \<Rightarrow> string \<Rightarrow> string list" where
  "all_fields_of seps acc [] = [acc]"
| "all_fields_of seps acc (c # cs) =
     (if c \<in> set seps then acc # all_fields_of seps [] cs else all_fields_of seps (acc @ [c]) cs)"

definition boost_doc :: boost where
  "boost_doc = \<lparr>trim = (\<lambda>s. rev (dropWhile isspace (rev (dropWhile isspace s)))),
                split = (\<lambda>seps s. fields_of seps [] s),
                split_each = (\<lambda>seps s. all_fields_of seps [] s)\<rparr>"

definition two_masters :: string where
  "two_masters = ''n1 10.0.0.1:7000@17000 myself,master - 0 0 1 connected 0-8191'' @ [CHR 0x0A] @
     ''n2 10.0.0.2:7001@17001 master - 0 0 2 connected 8192-16383'' @ [CHR 0x0A]"

definition master1 :: node_info where
  "master1 = \<lparr>strinfo = ''n1 10.0.0.1:7000@17000 myself,master - 0 0 1 connected 0-8191'',
     id_of_node = ''n1'', ip = ''10.0.0.1'', port = Some 7000, mSlots = [(0, 8191)]\<rparr>"

definition master2 :: node_info where
  "master2 = \<lparr>strinfo = ''n2 10.0.0.2:7001@17001 master - 0 0 2 connected 8192-16383'',
     id_of_node = ''n2'', ip = ''10.0.0.2'', port = Some 7001, mSlots = [(8192, 16383)]\<rparr>"

lemma two_masters_split:
  "split boost_doc [CHR 0x0A] (trim boost_doc two_masters) = [strinfo master1, strinfo master2]"
  by (simp add: boost_doc_def two_masters_def master1_def master2_def isspace_def)

lemma master1_line: "parse_line boost_doc (strinfo master1) = Inr (Some master1)"
  by (simp add: boost_doc_def master1_def parse_line_def new_node_info_def c_str_def ParseNodeString_def
    ParseSlotString_def atoi_def isspace_def isdigit_def digits_value_def digit_value_def)

lemma master2_line: "parse_line boost_doc (strinfo master2) = Inr (Some master2)"
  by (simp add: boost_doc_def master2_def parse_line_def new_node_info_def c_str_def ParseNodeString_def
    ParseSlotString_def atoi_def isspace_def isdigit_def digits_value_def digit_value_def)

lemma two_masters_parse:
  "parse_lines boost_doc (split boost_doc [CHR 0x0A] (trim boost_doc two_masters)) =
   Inr ([strinfo master1, strinfo master2], [master1, master2])"
  by (simp add: two_masters_split parse_lines_def master1_line master2_line)


lemma two_masters_ok:
  "[master1, master2] \<noteq> []" "length [master1, master2] < 2 ^ 31" "ranges_ok [master1, master2]"
  "\<forall>node\<in>set [master1, master2]. port node \<noteq> None" "unat (word_of_int 10 :: 32 word) \<le> 100"
  by (simp_all add: ranges_ok_def master1_def master2_def)

lemma slot_foo: "GetKeySlot (Some ''foo'') = 12182"
proof -
  have "xmodem ''foo'' = 44950"
    by (simp add: xmodem_def crc16_step_byte [symmetric] crc16_step_def crc16tab_def of_char_def)
  then show ?thesis by (simp add: GetKeySlot_length hash_part_def)
qed

lemma master2_address: "node_address master2 = Some ''10.0.0.2:7001''"
proof -
  have "char_of (55 :: nat) = CHR ''7''" "char_of (48 :: nat) = CHR ''0''" "char_of (49 :: nat) = CHR ''1''"
    by code_simp+
  then show ?thesis by (simp add: node_address_def master2_def to_string.simps digit_char_def)
qed

theorem slot_map_witness:
  "\<exists>v1. InitSlotNodeMap [] [master1, master2] = Inr v1 \<and> slot_at v1 0 = 0 \<and> slot_at v1 12182 = 1"
proof -
  have "CheckSlot 0 master1" "\<not> CheckSlot 0 master2" "CheckSlot 12182 master2"
    by (simp_all add: CheckSlot_def master1_def master2_def)
  moreover obtain v1 where v1: "InitSlotNodeMap [] [master1, master2] = Inr v1"
    "\<And>slot i. i < length [master1, master2] \<Longrightarrow> CheckSlot slot ([master1, master2] ! i) \<Longrightarrow>
       \<forall>node\<in>set (drop (Suc i) [master1, master2]). \<not> CheckSlot slot node \<Longrightarrow>
       slot_at v1 (unat slot) = int i"
    using slot_map [OF two_masters_ok(3,2), of "[]"] by blast
  ultimately show ?thesis using v1(2) [of 0 0] v1(2) [of 1 12182] by auto
qed

text \<open>Two masters claim the slots from 8192 on. The first one has the configuration epoch 9, the
  second one the epoch 1, and the slots go to the second one.\<close>

definition claimer1 :: node_info where
  "claimer1 = \<lparr>strinfo = ''n1 10.0.0.1:7000@17000 master - 0 0 9 connected 0-16383'',
     id_of_node = ''n1'', ip = ''10.0.0.1'', port = Some 7000, mSlots = [(0, 16383)]\<rparr>"

definition claimer2 :: node_info where
  "claimer2 = \<lparr>strinfo = ''n2 10.0.0.2:7001@17001 master - 0 0 1 connected 8192-16383'',
     id_of_node = ''n2'', ip = ''10.0.0.2'', port = Some 7001, mSlots = [(8192, 16383)]\<rparr>"

definition two_claimers :: string where
  "two_claimers = strinfo claimer1 @ [CHR 0x0A] @ strinfo claimer2 @ [CHR 0x0A]"

lemma two_claimers_parse:
  "parse_lines boost_doc (split boost_doc [CHR 0x0A] (trim boost_doc two_claimers)) =
   Inr ([strinfo claimer1, strinfo claimer2], [claimer1, claimer2])"
proof -
  have "split boost_doc [CHR 0x0A] (trim boost_doc two_claimers) = [strinfo claimer1, strinfo claimer2]"
    by (simp add: boost_doc_def two_claimers_def claimer1_def claimer2_def isspace_def)
  moreover have "parse_line boost_doc (strinfo claimer1) = Inr (Some claimer1)"
    by (simp add: boost_doc_def claimer1_def parse_line_def new_node_info_def c_str_def ParseNodeString_def
      ParseSlotString_def atoi_def isspace_def isdigit_def digits_value_def digit_value_def)
  moreover have "parse_line boost_doc (strinfo claimer2) = Inr (Some claimer2)"
    by (simp add: boost_doc_def claimer2_def parse_line_def new_node_info_def c_str_def ParseNodeString_def
      ParseSlotString_def atoi_def isspace_def isdigit_def digits_value_def digit_value_def)
  ultimately show ?thesis by (simp add: parse_lines_def)
qed

lemma epoch_ignored:
  "split boost_doc '' '' (strinfo claimer1) ! 6 = ''9''" "split boost_doc '' '' (strinfo claimer2) ! 6 = ''1''"
  "parse_lines boost_doc (split boost_doc [CHR 0x0A] (trim boost_doc two_claimers)) =
     Inr ([strinfo claimer1, strinfo claimer2], [claimer1, claimer2])"
  "CheckSlot 12182 claimer1 \<and> CheckSlot 12182 claimer2"
  "\<exists>v1. InitSlotNodeMap [] [claimer1, claimer2] = Inr v1 \<and> slot_at v1 12182 = 1"
proof -
  show "split boost_doc '' '' (strinfo claimer1) ! 6 = ''9''" "split boost_doc '' '' (strinfo claimer2) ! 6 = ''1''"
    by (simp_all add: boost_doc_def claimer1_def claimer2_def)
  show "CheckSlot 12182 claimer1 \<and> CheckSlot 12182 claimer2"
    by (simp add: CheckSlot_def claimer1_def claimer2_def)
  have "ranges_ok [claimer1, claimer2]" by (simp add: ranges_ok_def claimer1_def claimer2_def)
  from InitSlotNodeMap_spec [OF this, of "[]"] obtain v1 where
    v1: "InitSlotNodeMap [] [claimer1, claimer2] = Inr v1"
      "\<And>slot. slot_at v1 (unat slot) = (case owner 0 [claimer1, claimer2] slot of
         Some i \<Rightarrow> int32 (int i) | None \<Rightarrow> if unat slot < 16384 then slot_at [] (unat slot) else -1)"
    by blast
  moreover have "owner 0 [claimer1, claimer2] 12182 = Some 1"
    using owner_last [of 1 "[claimer1, claimer2]" 12182 0] by (simp add: CheckSlot_def claimer2_def)
  ultimately have "slot_at v1 12182 = 1" using v1(2) [of 12182] by simp
  with v1(1) show "\<exists>v1. InitSlotNodeMap [] [claimer1, claimer2] = Inr v1 \<and> slot_at v1 12182 = 1" by blast
qed (rule two_claimers_parse)

theorem client_routes_witness:
  "\<exists>cl0 k cl'. new_client boost_doc (\<lambda>a k. Some (a, k)) (Nodes two_masters) ''10.0.0.1:7000'' [] 100 10 20 0
      = Inr cl0 \<and>
    fetch (\<lambda>a k. Some (a, k)) ''foo'' 50 (-1) cl0 =
      Inr (0, Some \<lparr>call_channel = (''10.0.0.2:7001'', k), components = [''GET'', ''foo''],
        call_timeout = Some 50, call_retry = None\<rparr>, cl')"
proof -
  have own: "CheckSlot (GetKeySlot (Some ''foo'')) ([master1, master2] ! 1)"
    by (simp add: slot_foo CheckSlot_def master2_def)
  show ?thesis
    apply (rule exE [OF client_routes [OF two_masters_parse two_masters_ok,
      of "\<lambda>a k. Some (a, k)" "''10.0.0.1:7000''" "[]" 100 20 0]])
    apply (erule conjE)
    subgoal premises p for cl0
      using p(1) p(2) [rule_format, OF rtranclp.rtrancl_refl _ own, of "''10.0.0.2:7001''" 50 "-1"]
      by (auto simp: master2_address)
    done
qed

lemma failed_poll_switches_example:
  "\<exists>cl cl'. new_client boost_doc (\<lambda>a k. Some (a, k)) (Nodes two_masters) ''10.0.0.1:7000'' [] 100 10 20 0 = Inr cl \<and>
    update_channel_pool boost_doc (\<lambda>a k. Some (a, k)) Rpc_Failed cl = Inr (True, cl') \<and>
    fetch (\<lambda>a k. Some (a, k)) ''foo'' (-1) (-1) cl' = Inr (-1, None, cl')"
  using failed_poll_switches [OF two_masters_parse two_masters_ok, of "\<lambda>a k. Some (a, k)" "''10.0.0.1:7000''" "[]" 100 20 0]
  by blast

lemma pool_size_above_100_example:
  "new_client boost_doc (\<lambda>a k. Some (a, k)) (Nodes two_masters) ''10.0.0.1:7000'' [] 100 101 200 0 = Inl Terminate"
  by (rule pool_size_above_100 [OF two_masters_parse two_masters_ok(3)])
    (simp_all add: node_address_def master1_def)

definition homeless :: node_info where
  "homeless = \<lparr>strinfo = ''n1 :0@0 master,noaddr - 0 0 1 connected 0-16383'',
     id_of_node = ''n1'', ip = '''', port = Some 0, mSlots = [(0, 16383)]\<rparr>"

lemma homeless_parse:
  "parse_lines boost_doc (split boost_doc [CHR 0x0A] (trim boost_doc (strinfo homeless))) =
   Inr ([strinfo homeless], [homeless])"
proof -
  have "parse_line boost_doc (strinfo homeless) = Inr (Some homeless)"
    by (simp add: boost_doc_def homeless_def parse_line_def new_node_info_def c_str_def ParseNodeString_def
      ParseSlotString_def atoi_def isspace_def isdigit_def digits_value_def digit_value_def)
  moreover have "split boost_doc [CHR 0x0A] (trim boost_doc (strinfo homeless)) = [strinfo homeless]"
    by (simp add: boost_doc_def homeless_def isspace_def)
  ultimately show ?thesis by (simp add: parse_lines_def)
qed

lemma fetch_addressless_example:
  "\<exists>cl. new_client boost_doc (\<lambda>a k. Some (a, k)) (Nodes (strinfo homeless)) ''10.0.0.1:7000'' [] 100 10 20 0 = Inr cl \<and>
    fetch (\<lambda>a k. Some (a, k)) ''foo'' (-1) (-1) cl = Inl Null_Deref"
proof -
  have ok: "[homeless] \<noteq> []" "length [homeless] < 2 ^ 31" "ranges_ok [homeless]"
    "\<forall>node\<in>set [homeless]. port node \<noteq> None" "unat (word_of_int 10 :: 32 word) \<le> 100"
    by (simp_all add: ranges_ok_def homeless_def)
  obtain cl where cl: "new_client boost_doc (\<lambda>a k. Some (a, k)) (Nodes (strinfo homeless)) ''10.0.0.1:7000'' [] 100 10 20 0 = Inr cl"
    "serves (\<lambda>a k. Some (a, k)) [homeless] cl"
    using new_client_serves [OF homeless_parse ok, of "\<lambda>a k. Some (a, k)"] by blast
  have "fetch (\<lambda>a k. Some (a, k)) ''foo'' (-1) (-1) cl = Inl Null_Deref"
    by (rule fetch_addressless [OF cl(2), of 0])
      (simp_all add: slot_foo CheckSlot_def homeless_def node_address_def)
  with cl(1) show ?thesis by blast
qed

theorem change_detection_witness:
  "\<not> is_channel_pool_changed boost_doc
     \<lparr>url = [], lb = [], time_out = 0, max_retry = 0, cfg_pool_size = 1,
      channel_pool_vec =
        [new_channel_pool\<lparr>valid_lines := [''n1 10.0.0.1:7000 master - 0 5 1 connected 0-9'']\<rparr>,
         new_channel_pool\<lparr>valid_lines := [''n1 10.0.0.1:7000 master - 3 8 2 connected 0-9'']\<rparr> :: nat channel_pool],
      pool_index = 0\<rparr>"
  by (subst change_detection [OF redis_client.select_convs(6)])
    (simp_all add: new_channel_pool_def boost_doc_def identity_of_def)

end
