(* ===== verification/GraphBuild.thy ===== *)
theory GraphBuild
  imports GraphManager ManagersSpec RedisRouting
begin

text \<open>
  What the graph manager promises: the heap it builds is well formed (the counters are the
  in-degrees, ids are positions, names are unique), its edges are exactly the declared ones
  between nodes that can be made, and a graph it has accepted runs to its end.
\<close>

section \<open>Adding an edge\<close>

lemma length_add_output [simp]: "length (add_output p q h) = length h"
  by (simp add: add_output_def incr_input_num_def upd_node_def Let_def)

lemma add_output_fields:
  assumes "p < length h" and "q < length h"
  shows "out_nodes (add_output p q h ! k) = (if k = p then out_nodes (h ! p) @ [q] else out_nodes (h ! k))"
    and "input_num (add_output p q h ! k) = input_num (h ! k) + (if k = q then 1 else 0)"
    and "input_num_4_check (add_output p q h ! k) = input_num_4_check (h ! k) + (if k = q then 1 else 0)"
    and "node_id (add_output p q h ! k) = node_id (h ! k)"
    and "name (add_output p q h ! k) = name (h ! k)"
    and "service_context_factory (add_output p q h ! k) = service_context_factory (h ! k)"
  using assms by (auto simp: add_output_def incr_input_num_def upd_node_def nth_list_update Let_def)

lemma edges_add_output:
  "p < length h \<Longrightarrow> q < length h \<Longrightarrow> edges (add_output p q h) = insert (p, q) (edges h)"
  by (auto simp: edges_def add_output_fields split: if_splits)

lemma indeg_add_output:
  assumes "p < length h" and "q < length h"
  shows "indeg (add_output p q h) k = indeg h k + (if k = q then 1 else 0)"
proof -
  have "indeg (add_output p q h) k =
      (\<Sum>j<length h. count_list (out_nodes (h ! j)) k + (if j = p then if k = q then 1 else 0 else 0))"
    unfolding indeg_def length_add_output using assms
    by (intro sum.cong) (auto simp: add_output_fields)
  also have "\<dots> = indeg h k + (if k = q then 1 else 0)"
    using assms(1) by (simp add: indeg_def sum.distrib)
  finally show ?thesis .
qed

section \<open>The invariant of the builder\<close>

definition creatable :: "'cfg builder_env \<Rightarrow> service_map \<Rightarrow> string \<Rightarrow> bool" where
  "creatable env sm nm \<longleftrightarrow>
     (\<exists>conf cls f. env_nodes env nm = Some conf \<and>
        get_string (env_hocon env) conf ''class'' = Inr cls \<and> sm cls = Some (Some f))"

definition heap_ok :: "node list \<Rightarrow> bool" where
  "heap_ok h \<longleftrightarrow> closed_heap h \<and> counts_ok h \<and> check_fresh h \<and>
     (\<forall>p<length h. node_id (h ! p) = int32 (int p))"

definition builder_ok :: "'cfg builder_env \<Rightarrow> service_map \<Rightarrow> builder \<Rightarrow> bool" where
  "builder_ok env sm st \<longleftrightarrow> heap_ok (heap st) \<and>
     node_id_gen st = int32 (int (length (heap st))) \<and>
     (\<forall>nm p. nodes_map st nm = Some p \<longleftrightarrow> p < length (heap st) \<and> name (heap st ! p) = nm) \<and>
     (\<forall>nm\<in>dom (nodes_map st). creatable env sm nm) \<and>
     (\<forall>cls f. services st cls = Some (Some f) \<longleftrightarrow> sm cls = Some (Some f)) \<and>
     (\<forall>p<length (heap st). distinct (out_nodes (heap st ! p)))"

definition named_edges :: "builder \<Rightarrow> (string \<times> string) set" where
  "named_edges st = (\<lambda>(p, q). (name (heap st ! p), name (heap st ! q))) ` edges (heap st)"

lemma int32_Suc: "int32 (int32 x + 1) = int32 (x + 1)"
  by (simp add: int32_def mod_simps algebra_simps)

lemma int32_Suc': "int32 (int32 x + 1) = int32 (1 + x)"
  using int32_Suc [of x] by (simp add: add.commute)

lemma heap_ok_snoc:
  assumes "heap_ok h" and "out_nodes n = []" and "input_num n = 0" and "input_num_4_check n = 0"
    and "node_id n = int32 (int (length h))"
  shows "heap_ok (h @ [n]) \<and> edges (h @ [n]) = edges h"
proof -
  have ind: "indeg (h @ [n]) q = indeg h q" for q
    using assms(2) by (simp add: indeg_def nth_append)
  have new: "indeg h (length h) = 0"
    using assms(1) indeg_pos [of h "length h"] edges_bound [of h _ "length h"]
    by (auto simp: heap_ok_def)
  have "edges (h @ [n]) = edges h"
    using assms(2) by (auto simp: edges_def nth_append less_Suc_eq split: if_splits)
  moreover have "closed_heap (h @ [n])"
    using assms(1,2) by (fastforce simp: heap_ok_def closed_heap_def nth_append less_Suc_eq)
  ultimately show ?thesis
    using assms ind new
    by (auto simp: heap_ok_def counts_ok_def check_fresh_def nth_append less_Suc_eq)
qed

lemma heap_ok_add_output:
  assumes "heap_ok h" and "p < length h" and "q < length h"
  shows "heap_ok (add_output p q h)"
  using assms
  by (fastforce simp: heap_ok_def closed_heap_def counts_ok_def check_fresh_def add_output_fields
      indeg_add_output)

lemma heap_ok_Nil: "heap_ok []"
  by (simp add: heap_ok_def closed_heap_def counts_ok_def check_fresh_def)

lemma new_builder_ok: "builder_ok env sm (new_builder sm names)"
  by (simp add: builder_ok_def new_builder_def heap_ok_Nil)

lemma GET_SERVICE_FACTORY_spec:
  assumes "GET_SERVICE_FACTORY fatal cls m = Inr (r, m')"
  shows "(\<forall>c f. m' c = Some (Some f) \<longleftrightarrow> m c = Some (Some f)) \<and> (\<forall>f. r = Some f \<longleftrightarrow> m cls = Some (Some f))"
  using assms by (auto simp: GET_SERVICE_FACTORY_def log_fatal_def split: option.splits if_splits)

lemma new_node_ok:
  assumes ok: "builder_ok env sm st" and fresh: "nodes_map st nm = None" and crt: "creatable env sm nm"
    and m: "\<forall>c f. m c = Some (Some f) \<longleftrightarrow> services st c = Some (Some f)"
    and n: "name n = nm" "node_id n = node_id_gen st" "input_num_4_check n = 0" "input_num n = 0" "out_nodes n = []"
    and st': "st' = st\<lparr>services := m, node_id_gen := int32 (node_id_gen st + 1), heap := heap st @ [n],
      nodes_map := (nodes_map st)(nm \<mapsto> length (heap st)), graph_node_vec := vec\<rparr>"
  shows "builder_ok env sm st'" and "nodes_map st \<subseteq>\<^sub>m nodes_map st'" and "named_edges st' = named_edges st"
proof -
  let ?h = "heap st"
  have hs: "heap_ok (?h @ [n])" "edges (?h @ [n]) = edges ?h"
    using heap_ok_snoc [of ?h n] ok n by (auto simp: builder_ok_def)
  have "(p, q) \<in> edges ?h \<Longrightarrow> p < length ?h \<and> q < length ?h" for p q
    using edges_bound [of ?h p q] ok by (simp add: builder_ok_def heap_ok_def)
  then show "named_edges st' = named_edges st"
    unfolding named_edges_def st' by (auto simp: hs(2) nth_append intro!: image_cong)
  have "\<forall>p<length ?h. name (?h ! p) \<noteq> nm"
    using ok fresh unfolding builder_ok_def by (metis option.distinct(1))
  then show "builder_ok env sm st'"
    using ok hs(1) fresh crt m n by (auto simp: builder_ok_def st' int32_Suc' nth_append less_Suc_eq)
  show "nodes_map st \<subseteq>\<^sub>m nodes_map st'" using fresh by (auto simp: st' map_le_def)
qed

lemma create_parts:
  assumes "create_service_if_not_exist fatal env nm st = Inr (r, st')"
  obtains (known) p where "nodes_map st nm = Some p" "r = Some p" "st' = st"
    | (no_conf) "nodes_map st nm = None" "env_nodes env nm = None" "r = None" "st' = st"
    | (no_class) conf cls m where "nodes_map st nm = None" "env_nodes env nm = Some conf"
      "get_string (env_hocon env) conf ''class'' = Inr cls"
      "GET_SERVICE_FACTORY fatal cls (services st) = Inr (None, m)" "r = None" "st' = st\<lparr>services := m\<rparr>"
    | (new) conf cls f m where "nodes_map st nm = None" "env_nodes env nm = Some conf"
      "get_string (env_hocon env) conf ''class'' = Inr cls"
      "GET_SERVICE_FACTORY fatal cls (services st) = Inr (Some f, m)" "r = Some (length (heap st))"
      "st' = st\<lparr>services := m, node_id_gen := int32 (node_id_gen st + 1),
         heap := heap st @ [\<lparr>name = nm, node_id = node_id_gen st, input_num_4_check = 0, input_num = 0,
           out_nodes = [], service_context_factory = f\<rparr>],
         nodes_map := (nodes_map st)(nm \<mapsto> length (heap st)), graph_node_vec := graph_node_vec st @ [(nm, cls)]\<rparr>"
  using assms
  by (auto simp: create_service_if_not_exist_def get_node_info_def allocate_node_id_def log_fatal_def res_simps Let_def
      split: option.splits if_splits)

lemma create_spec:
  assumes ok: "builder_ok env sm st" and cr: "create_service_if_not_exist fatal env nm st = Inr (r, st')"
  shows "builder_ok env sm st' \<and> nodes_map st \<subseteq>\<^sub>m nodes_map st' \<and> named_edges st' = named_edges st \<and>
    r = nodes_map st' nm \<and> (r \<noteq> None \<longleftrightarrow> creatable env sm nm)"
  using cr
proof (cases rule: create_parts)
  case (known p)
  moreover have "creatable env sm nm" using ok known by (auto simp: builder_ok_def)
  ultimately show ?thesis using ok by simp
next
  case no_conf
  then show ?thesis using ok by (auto simp: creatable_def)
next
  case (no_class conf cls m)
  note sf = GET_SERVICE_FACTORY_spec [OF no_class(4)]
  have "\<not> creatable env sm nm" using no_class(2,3) sf ok by (auto simp: creatable_def builder_ok_def)
  then show ?thesis using ok no_class sf by (auto simp: builder_ok_def named_edges_def)
next
  case (new conf cls f m)
  note sf = GET_SERVICE_FACTORY_spec [OF new(4)]
  have c: "creatable env sm nm" using new(2,3) sf ok by (auto simp: creatable_def builder_ok_def)
  show ?thesis using new_node_ok [OF ok new(1) c conjunct1 [OF sf] _ _ _ _ _ new(6)] new(5,6) c by simp
qed

section \<open>Wiring\<close>

lemma connect_nodes_spec:
  assumes ok: "builder_ok env sm st" and p: "nodes_map st a = Some p" and q: "nodes_map st b = Some q"
  shows "builder_ok env sm (connect_nodes p q st) \<and> nodes_map (connect_nodes p q st) = nodes_map st \<and>
    named_edges (connect_nodes p q st) = insert (a, b) (named_edges st)"
proof -
  have len: "p < length (heap st)" "q < length (heap st)" "name (heap st ! p) = a" "name (heap st ! q) = b"
    using ok p q by (auto simp: builder_ok_def)
  show ?thesis
  proof (cases "q \<in> set (out_nodes (heap st ! p))")
    case True
    then have "(p, q) \<in> edges (heap st)" using len by (simp add: edges_def)
    then have "(a, b) \<in> named_edges st" using len unfolding named_edges_def by force
    then show ?thesis using True ok by (simp add: connect_nodes_def insert_absorb)
  next
    case False
    have "named_edges (st\<lparr>heap := add_output p q (heap st)\<rparr>) = insert (a, b) (named_edges st)"
      using len by (simp add: named_edges_def edges_add_output add_output_fields)
    moreover have "builder_ok env sm (st\<lparr>heap := add_output p q (heap st)\<rparr>)"
      using ok False len heap_ok_add_output [OF _ len(1,2)]
      by (auto simp: builder_ok_def add_output_fields)
    ultimately show ?thesis using False by (simp add: connect_nodes_def)
  qed
qed

lemma add_child_spec:
  assumes ok: "builder_ok env sm st" and s: "nodes_map st a = Some s"
    and ac: "add_child fatal env s c st = Inr st'"
  shows "builder_ok env sm st' \<and> nodes_map st \<subseteq>\<^sub>m nodes_map st' \<and>
    named_edges st' = named_edges st \<union>
      {(a, b) | b. b = trim (env_boost env) c \<and> c \<noteq> [] \<and> creatable env sm b}"
proof (cases "c = []")
  case True
  then show ?thesis using ac ok by (simp add: add_child_def)
next
  case False
  with ac obtain r st1 where cr: "create_service_if_not_exist fatal env (trim (env_boost env) c) st = Inr (r, st1)"
    and st': "st' = (case r of None \<Rightarrow> st1 | Some q \<Rightarrow> connect_nodes s q st1)"
    by (auto simp: add_child_def res_simps split: option.splits)
  note c = create_spec [OF ok cr]
  show ?thesis
  proof (cases r)
    case None
    then show ?thesis using c st' by auto
  next
    case (Some q)
    have "nodes_map st1 a = Some s" using c s by (metis domI map_le_def)
    from connect_nodes_spec [OF conjunct1 [OF c] this] show ?thesis using Some c st' False by auto
  qed
qed

lemma add_parent_spec:
  assumes ok: "builder_ok env sm st" and s: "nodes_map st a = Some s"
    and ac: "add_parent fatal env s c st = Inr st'"
  shows "builder_ok env sm st' \<and> nodes_map st \<subseteq>\<^sub>m nodes_map st' \<and>
    named_edges st' = named_edges st \<union> {(b, a) | b. b = trim (env_boost env) c \<and> creatable env sm b}"
proof -
  from ac obtain r st1 where cr: "create_service_if_not_exist fatal env (trim (env_boost env) c) st = Inr (r, st1)"
    and st': "st' = (case r of None \<Rightarrow> st1 | Some q \<Rightarrow> connect_nodes q s st1)"
    by (auto simp: add_parent_def res_simps split: option.splits)
  note c = create_spec [OF ok cr]
  show ?thesis
  proof (cases r)
    case None
    then show ?thesis using c st' by auto
  next
    case (Some q)
    have a: "nodes_map st1 a = Some s" using c s by (metis domI map_le_def)
    have "nodes_map st1 (trim (env_boost env) c) = Some q" using c Some by simp
    from connect_nodes_spec [OF conjunct1 [OF c] this a] show ?thesis using Some c st' by auto
  qed
qed

text \<open>The names of an attribute, one after the other.\<close>

lemma fold_wire:
  assumes "fold_res f cs st = Inr st'" and "builder_ok env sm st" and "nodes_map st a = Some s"
    and step: "\<And>c u v. builder_ok env sm u \<Longrightarrow> nodes_map u a = Some s \<Longrightarrow> f c u = Inr v \<Longrightarrow>
      builder_ok env sm v \<and> nodes_map u \<subseteq>\<^sub>m nodes_map v \<and> named_edges v = named_edges u \<union> E c"
  shows "builder_ok env sm st' \<and> nodes_map st \<subseteq>\<^sub>m nodes_map st' \<and>
    named_edges st' = named_edges st \<union> (\<Union>c\<in>set cs. E c)"
  using assms(1-3)
proof (induction cs arbitrary: st)
  case (Cons c cs)
  then obtain u where u: "f c st = Inr u" "fold_res f cs u = Inr st'" by (auto simp: res_simps)
  note s = step [OF Cons.prems(2,3) u(1)]
  have "nodes_map u a = Some s" using s Cons.prems(3) by (metis domI map_le_def)
  from Cons.IH [OF u(2) conjunct1 [OF s] this] s show ?case by (auto intro: map_le_trans)
qed simp

section \<open>The declared graph\<close>

definition attribute_names :: "'cfg builder_env \<Rightarrow> 'cfg \<Rightarrow> string \<Rightarrow> string \<Rightarrow> string list" where
  \<comment> \<open>the names an entry of the graph lists under an attribute\<close>
  "attribute_names env graph_conf nm attr =
     (case get_object (env_hocon env) graph_conf nm of
        Inl e \<Rightarrow> []
      | Inr conf \<Rightarrow>
          (case get_or (env_hocon env) (get_string (env_hocon env)) conf attr [] of
             Inl e \<Rightarrow> [] | Inr s \<Rightarrow> names_of env s))"

definition entry_edges :: "'cfg builder_env \<Rightarrow> service_map \<Rightarrow> 'cfg \<Rightarrow> string \<Rightarrow> (string \<times> string) set" where
  \<comment> \<open>the edges one entry declares, between nodes that can be made\<close>
  "entry_edges env sm graph_conf nm =
     {(nm, b) | b c. c \<in> set (attribute_names env graph_conf nm ''children'') \<and> c \<noteq> [] \<and>
        b = trim (env_boost env) c \<and> creatable env sm b} \<union>
     {(b, nm) | b c. c \<in> set (attribute_names env graph_conf nm ''parents'') \<and>
        b = trim (env_boost env) c \<and> creatable env sm b}"

definition entry_is_root :: "'cfg builder_env \<Rightarrow> 'cfg \<Rightarrow> string \<Rightarrow> bool" where
  "entry_is_root env graph_conf nm \<longleftrightarrow>
     (\<exists>conf. get_object (env_hocon env) graph_conf nm = Inr conf \<and>
        get_or (env_hocon env) (get_bool (env_hocon env)) conf ''root'' False = Inr True)"

lemma add_graph_node_parts:
  assumes "add_graph_node fatal env graph_conf nm (root, st) = Inr (go, root', st')"
  obtains (unknown) "create_service_if_not_exist fatal env nm st = Inr (None, st')" "\<not> go" "root' = root"
    | (known) conf s st1 is_root children st2 parents
    where "get_object (env_hocon env) graph_conf nm = Inr conf"
      and "create_service_if_not_exist fatal env nm st = Inr (Some s, st1)"
      and "get_or (env_hocon env) (get_bool (env_hocon env)) conf ''root'' False = Inr is_root"
      and "get_or (env_hocon env) (get_string (env_hocon env)) conf ''children'' [] = Inr children"
      and "fold_res (add_child fatal env s) (names_of env children) st1 = Inr st2"
      and "get_or (env_hocon env) (get_string (env_hocon env)) conf ''parents'' [] = Inr parents"
      and "fold_res (add_parent fatal env s) (names_of env parents) st2 = Inr st'"
      and "go" and "root' = (if is_root then Some s else root)"
  using assms by (auto simp: add_graph_node_def res_simps Let_def split: option.splits)

lemma wired_node:
  assumes ok: "builder_ok env sm st1" and n1: "nodes_map st1 nm = Some s"
    and f1: "fold_res (add_child fatal env s) (names_of env children) st1 = Inr st2"
    and f2: "fold_res (add_parent fatal env s) (names_of env parents) st2 = Inr st'"
  shows "builder_ok env sm st'" and "nodes_map st1 \<subseteq>\<^sub>m nodes_map st'" and "nodes_map st' nm = Some s"
    and "named_edges st' = named_edges st1 \<union>
      (\<Union>c\<in>set (names_of env children). {(nm, b) | b. b = trim (env_boost env) c \<and> c \<noteq> [] \<and> creatable env sm b}) \<union>
      (\<Union>c\<in>set (names_of env parents). {(b, nm) | b. b = trim (env_boost env) c \<and> creatable env sm b})"
proof -
  from fold_wire [OF f1 ok n1 add_child_spec]
  have w1: "builder_ok env sm st2 \<and> nodes_map st1 \<subseteq>\<^sub>m nodes_map st2 \<and>
    named_edges st2 = named_edges st1 \<union> (\<Union>c\<in>set (names_of env children).
      {(nm, b) | b. b = trim (env_boost env) c \<and> c \<noteq> [] \<and> creatable env sm b})" .
  have n2: "nodes_map st2 nm = Some s" using w1 n1 by (metis domI map_le_def)
  from fold_wire [OF f2 conjunct1 [OF w1] n2 add_parent_spec]
  have w2: "builder_ok env sm st' \<and> nodes_map st2 \<subseteq>\<^sub>m nodes_map st' \<and>
    named_edges st' = named_edges st2 \<union> (\<Union>c\<in>set (names_of env parents).
      {(b, nm) | b. b = trim (env_boost env) c \<and> creatable env sm b})" .
  show "builder_ok env sm st'" using w2 by blast
  show "nodes_map st1 \<subseteq>\<^sub>m nodes_map st'"
    by (rule map_le_trans [OF conjunct1 [OF conjunct2 [OF w1]] conjunct1 [OF conjunct2 [OF w2]]])
  show "nodes_map st' nm = Some s" using w2 n2 by (metis domI map_le_def)
  show "named_edges st' = named_edges st1 \<union>
      (\<Union>c\<in>set (names_of env children). {(nm, b) | b. b = trim (env_boost env) c \<and> c \<noteq> [] \<and> creatable env sm b}) \<union>
      (\<Union>c\<in>set (names_of env parents). {(b, nm) | b. b = trim (env_boost env) c \<and> creatable env sm b})"
    using conjunct2 [OF conjunct2 [OF w1]] conjunct2 [OF conjunct2 [OF w2]] by (simp only: Un_assoc)
qed

lemma add_graph_node_spec:
  assumes ok: "builder_ok env sm st"
    and ag: "add_graph_node fatal env graph_conf nm (root, st) = Inr (go, root', st')"
  shows "builder_ok env sm st' \<and> nodes_map st \<subseteq>\<^sub>m nodes_map st' \<and>
    (go \<longleftrightarrow> creatable env sm nm) \<and>
    (go \<longrightarrow> named_edges st' = named_edges st \<union> entry_edges env sm graph_conf nm \<and>
       nodes_map st' nm \<noteq> None \<and>
       root' = (if entry_is_root env graph_conf nm then nodes_map st' nm else root)) \<and>
    (\<not> go \<longrightarrow> named_edges st' = named_edges st \<and> root' = root)"
  using ag
proof (cases rule: add_graph_node_parts)
  case unknown
  then show ?thesis using create_spec [OF ok unknown(1)] by auto
next
  case (known conf s st1 is_root children st2 parents)
  note c = create_spec [OF ok known(2)]
  have "builder_ok env sm st1" "nodes_map st1 nm = Some s" using c by simp_all
  note w = wired_node [OF this known(5,7)]
  have names: "attribute_names env graph_conf nm ''children'' = names_of env children"
    "attribute_names env graph_conf nm ''parents'' = names_of env parents"
    using known(1,4,6) by (simp_all add: attribute_names_def)
  have "entry_edges env sm graph_conf nm =
      (\<Union>c\<in>set (names_of env children). {(nm, b) | b. b = trim (env_boost env) c \<and> c \<noteq> [] \<and> creatable env sm b}) \<union>
      (\<Union>c\<in>set (names_of env parents). {(b, nm) | b. b = trim (env_boost env) c \<and> creatable env sm b})"
    unfolding entry_edges_def names by blast
  moreover have "named_edges st1 = named_edges st" "nodes_map st \<subseteq>\<^sub>m nodes_map st1" using c by simp_all
  ultimately have "named_edges st' = named_edges st \<union> entry_edges env sm graph_conf nm"
    "nodes_map st \<subseteq>\<^sub>m nodes_map st'" using w(2,4) by (simp_all only: Un_assoc map_le_trans [of _ "nodes_map st1"])
  moreover have "entry_is_root env graph_conf nm = is_root" using known(1,3) by (simp add: entry_is_root_def)
  moreover have "creatable env sm nm" using c by simp
  ultimately show ?thesis using w(1,3) known(8,9) by simp
qed

lemma heap_mono:
  assumes "builder_ok env sm st0" and "builder_ok env sm st1" and "nodes_map st0 \<subseteq>\<^sub>m nodes_map st1"
  shows "length (heap st0) \<le> length (heap st1)"
proof (rule ccontr)
  assume "\<not> length (heap st0) \<le> length (heap st1)"
  then obtain p where p: "p = length (heap st1)" "p < length (heap st0)" by auto
  then have "nodes_map st0 (name (heap st0 ! p)) = Some p" using assms(1) by (simp add: builder_ok_def)
  then have "nodes_map st1 (name (heap st0 ! p)) = Some p" using assms(3) by (metis domI map_le_def)
  then show False using assms(2) p(1) by (auto simp: builder_ok_def)
qed

lemma add_graph_node_root:
  assumes ok: "builder_ok env sm st0" and r: "\<forall>p. root0 = Some p \<longrightarrow> p < length (heap st0)"
    and ag: "add_graph_node fatal env gc nm (root0, st0) = Inr (go, root1, st1)"
  shows "\<forall>p. root1 = Some p \<longrightarrow> p < length (heap st1)"
proof -
  note s = add_graph_node_spec [OF ok ag]
  have le: "length (heap st0) \<le> length (heap st1)"
    using heap_mono [OF ok] s by blast
  have "root1 = root0 \<or> root1 = nodes_map st1 nm" using s by (cases go) auto
  then show ?thesis
  proof
    assume "root1 = nodes_map st1 nm"
    then show ?thesis using conjunct1 [OF s] by (auto simp: builder_ok_def)
  qed (use r le in force)
qed

lemma build_loop_spec:
  assumes "loop_res (add_graph_node fatal env gc) nms (root0, st0) = Inr (True, root, st)"
    and "builder_ok env sm st0" and "\<forall>p. root0 = Some p \<longrightarrow> p < length (heap st0)"
  shows "builder_ok env sm st \<and> nodes_map st0 \<subseteq>\<^sub>m nodes_map st \<and>
    named_edges st = named_edges st0 \<union> (\<Union>nm\<in>set nms. entry_edges env sm gc nm) \<and>
    set nms \<subseteq> dom (nodes_map st) \<and> (\<forall>p. root = Some p \<longrightarrow> p < length (heap st)) \<and>
    root = (case filter (entry_is_root env gc) nms of [] \<Rightarrow> root0 | ns \<Rightarrow> nodes_map st (last ns))"
  using assms
proof (induction nms arbitrary: root0 st0)
  case (Cons nm nms)
  then obtain root1 st1 where 1: "add_graph_node fatal env gc nm (root0, st0) = Inr (True, root1, st1)"
    and 2: "loop_res (add_graph_node fatal env gc) nms (root1, st1) = Inr (True, root, st)"
    by (auto simp: res_simps split: if_splits)
  note s = add_graph_node_spec [OF Cons.prems(2) 1]
  obtain p where p: "nodes_map st1 nm = Some p" using s by auto
  have r1: "root1 = (if entry_is_root env gc nm then Some p else root0)" using s p by simp
  have "\<forall>p. root1 = Some p \<longrightarrow> p < length (heap st1)"
    by (rule add_graph_node_root [OF Cons.prems(2,3) 1])
  note IH = Cons.IH [OF 2 conjunct1 [OF s] this]
  have nm: "nodes_map st nm = Some p" using IH p by (metis domI map_le_def)
  have e: "named_edges st = named_edges st0 \<union> (\<Union>nm\<in>set (nm # nms). entry_edges env sm gc nm)"
    using IH s by auto
  have rt: "root = (case filter (entry_is_root env gc) (nm # nms) of [] \<Rightarrow> root0 | ns \<Rightarrow> nodes_map st (last ns))"
  proof (cases "filter (entry_is_root env gc) nms")
    case Nil
    then show ?thesis using IH r1 nm by simp
  next
    case (Cons x xs)
    then show ?thesis using IH by simp
  qed
  have m: "nodes_map st0 \<subseteq>\<^sub>m nodes_map st" 
    by (rule map_le_trans [OF conjunct1 [OF conjunct2 [OF s]] conjunct1 [OF conjunct2 [OF IH]]])
  have d: "set (nm # nms) \<subseteq> dom (nodes_map st)" using IH nm by auto
  have "builder_ok env sm st" "\<forall>p. root = Some p \<longrightarrow> p < length (heap st)" using IH by blast+
  with m e d rt show ?case by (intro conjI)
qed simp

section \<open>Accepted graphs run\<close>

definition manager_ok :: "(graph \<times> node list) \<Rightarrow> bool" where
  \<comment> \<open>a graph of the manager: what \<open>Graph::init\<close> made of a well-formed heap\<close>
  "manager_ok gh \<longleftrightarrow> (\<exists>fatal h0 r nm g0. heap_ok h0 \<and> r < length h0 \<and>
     (\<forall>p<length h0. distinct (out_nodes (h0 ! p))) \<and>
     max_node_id g0 = int32 (int (length h0)) \<and>
     init fatal (Some r) nm g0 h0 = Inr (0, fst gh, snd gh))"

lemma init_None: "init fatal None nm g h = Inl Null_Deref"
  by (simp add: init_def Let_def)

lemma build_loop_root:
  assumes "loop_res (add_graph_node fatal env gc) nms rs = Inr (go, root, st)"
    and "builder_ok env sm (snd rs) \<and> (\<forall>p. fst rs = Some p \<longrightarrow> p < length (heap (snd rs)))"
  shows "builder_ok env sm st \<and> (\<forall>p. root = Some p \<longrightarrow> p < length (heap st))"
proof -
  let ?P = "\<lambda>u. builder_ok env sm (snd u) \<and> (\<forall>p. fst u = Some p \<longrightarrow> p < length (heap (snd u)))"
  have "?P (root, st)"
    using assms
  proof (rule loop_res_inv)
    fix nm u g v
    assume P: "?P u" and step: "add_graph_node fatal env gc nm u = Inr (g, v)"
    have st: "add_graph_node fatal env gc nm (fst u, snd u) = Inr (g, fst v, snd v)" using step by simp
    show "?P v"
      using add_graph_node_spec [OF conjunct1 [OF P] st]
        add_graph_node_root [OF conjunct1 [OF P] conjunct2 [OF P] st] by blast
  qed
  then show ?thesis by simp
qed

lemma build_graph_root:
  assumes "build_graph fatal env gc (new_builder sm names) = Inr (go, root, st)"
  shows "builder_ok env sm st" and "root = Some p \<Longrightarrow> p < length (heap st)"
proof -
  have "builder_ok env sm st \<and> (\<forall>p. root = Some p \<longrightarrow> p < length (heap st))"
    using assms unfolding build_graph_def by (rule build_loop_root) (simp add: new_builder_ok)
  then show "builder_ok env sm st" "root = Some p \<Longrightarrow> p < length (heap st)" by simp_all
qed

lemma add_graph_ok:
  assumes "add_graph fatal env rc gname gm = Inr (go, gm')" and "\<forall>gh\<in>ran (graph_map gm). manager_ok gh"
  shows "\<forall>gh\<in>ran (graph_map gm'). manager_ok gh"
proof -
  from assms(1) obtain gc names b root st ret g h where
    b: "build_graph fatal env gc (new_builder (service_classes gm) names) = Inr (b, root, st)"
    and i: "init fatal root gname (new_graph\<lparr>max_node_id := node_id_gen st\<rparr>) (heap st) = Inr (ret, g, h)"
    and r: "(if ret = 0 then Inr (True, gm\<lparr>service_classes := services st,
        graph_node_names := (graph_node_names gm)(gname \<mapsto> graph_node_vec st),
        graph_map := umap_insert gname (g, h) (graph_map gm)\<rparr>)
      else log_fatal fatal (False, gm\<lparr>service_classes := services st,
        graph_node_names := (graph_node_names gm)(gname \<mapsto> graph_node_vec st)\<rparr>)) = Inr (go, gm')"
    by (auto simp: add_graph_def res_simps Let_def)
  show ?thesis
  proof (cases "ret = 0")
    case False
    then show ?thesis using r assms(2) by (auto simp: log_fatal_def split: if_splits)
  next
    case True
    then have "graph_map gm' = umap_insert gname (g, h) (graph_map gm)" using r by auto
    moreover obtain p where p: "root = Some p" using i init_None by (cases root) auto
    have "manager_ok (g, h)"
      using build_graph_root [OF b] p i True unfolding manager_ok_def builder_ok_def
      by (intro exI [of _ fatal] exI [of _ "heap st"] exI [of _ p] exI [of _ gname]
        exI [of _ "new_graph\<lparr>max_node_id := node_id_gen st\<rparr>"]) auto
    ultimately show ?thesis using assms(2)
      by (auto simp: umap_insert_def ran_def split: option.splits if_splits)
  qed
qed

lemma graphs_init_ok:
  assumes "graphs_init fatal env path gm = Inr (go, gm')" and "\<forall>gh\<in>ran (graph_map gm). manager_ok gh"
  shows "\<forall>gh\<in>ran (graph_map gm'). manager_ok gh"
proof -
  from assms(1) obtain rc where "loop_res (add_graph fatal env rc) (key_set (env_hocon env) rc) gm = Inr (go, gm')"
    by (auto simp: graphs_init_def res_simps)
  then show ?thesis using assms(2) by (rule loop_res_inv) (rule add_graph_ok)
qed

lemma count_list_distinct: "distinct xs \<Longrightarrow> count_list xs q \<le> 1"
  by (induction xs) (auto simp: count_list_0_iff)

lemma indeg_le_length:
  assumes "\<forall>p<length h. distinct (out_nodes (h ! p))"
  shows "indeg h q \<le> length h"
proof -
  have "indeg h q \<le> (\<Sum>p<length h. 1)" unfolding indeg_def
    using assms by (intro sum_mono count_list_distinct) simp
  then show ?thesis by simp
qed

lemma manager_ok_prepared:
  assumes "manager_ok (g, h)" and "length h < 2 ^ 31"
    and "root_node g = Some r" and "reach h r = {..<length h}"
  shows "prepared g h r (length h)"
proof -
  from assms(1) obtain fatal h0 r0 nm g0 where ok: "heap_ok h0" "r0 < length h0"
    "\<forall>p<length h0. distinct (out_nodes (h0 ! p))" "max_node_id g0 = int32 (int (length h0))"
    and i: "init fatal (Some r0) nm g0 h0 = Inr (0, g, h)" by (auto simp: manager_ok_def)
  have wf: "closed_heap h0" "check_fresh h0" "counts_ok h0" using ok(1) by (simp_all add: heap_ok_def)
  note res = init_result [OF wf(1,2) ok(2) i]
  have len: "length h = length h0" using res(2) by (rule same_nodes_len)
  have r: "r = r0" using res(3) assms(3) by simp
  have "reach h0 r0 = {..<length h}" using assms(4) same_nodes_reach [OF res(2)] r by simp
  moreover have "indeg h0 p < 2 ^ 31" for p 
    using indeg_le_length [OF ok(3), of p] assms(2) len by simp
  moreover have "node_id (h0 ! p) = int p" if "p < length h0" for p
    using that ok(1) assms(2) len by (simp add: heap_ok_def)
  ultimately show ?thesis
    using init_prepared [OF wf ok(2) _ _ _ _ _ _ i, of "length h"] assms(2) len ok(4) r by simp
qed


section \<open>Properties\<close>

text \<open>C18: The graph that is built is the declared one: when every entry of a graph was processed,
  the edges of the heap, read as pairs of names, are exactly those the \<open>children\<close> and \<open>parents\<close>
  of the entries declare between nodes that can be made (configured, and of a registered
  class); the counters of every node are its in-degree, names are unique, and the root is the
  node of the last entry with \<open>root\<close> set.\<close>

theorem built_as_declared:
  assumes "build_graph fatal env gc (new_builder sm names) = Inr (True, root, st)"
  shows "named_edges st = (\<Union>nm\<in>set (key_set (env_hocon env) gc). entry_edges env sm gc nm) \<and>
    closed_heap (heap st) \<and> counts_ok (heap st) \<and> check_fresh (heap st) \<and>
    distinct (map name (heap st)) \<and>
    root = (case filter (entry_is_root env gc) (key_set (env_hocon env) gc) of
              [] \<Rightarrow> None | ns \<Rightarrow> nodes_map st (last ns))"
proof -
  let ?st0 = "new_builder sm names :: builder"
  have e: "named_edges ?st0 = {}" by (simp add: named_edges_def new_builder_def edges_def)
  note s = build_loop_spec [OF assms [unfolded build_graph_def] new_builder_ok]
  have ok: "builder_ok env sm st" using s by simp
  have "distinct (map name (heap st))"
    unfolding distinct_conv_nth
  proof (intro allI impI)
    fix i j assume ij: "i < length (map name (heap st))" "j < length (map name (heap st))" "i \<noteq> j"
    then have "nodes_map st (name (heap st ! i)) = Some i" "nodes_map st (name (heap st ! j)) = Some j"
      using ok by (simp_all add: builder_ok_def)
    then show "map name (heap st) ! i \<noteq> map name (heap st) ! j" using ij by auto
  qed
  then show ?thesis using s e ok by (simp add: builder_ok_def heap_ok_def)
qed

text \<open>From the configuration files to the requests: a graph that \<open>get_graph\<close> finds after the
  manager was initialised, all of whose nodes its root reaches, can be run: the run starts, and
  under every schedule each node is served at most once and after its inputs, the run can come
  to its end, and at the end every node of the graph was served exactly once.\<close>

lemma manager_graphs_run:
  assumes "graphs_init fatal env path \<lparr>graph_map = Map.empty, service_classes = sm,
      graph_node_names = Map.empty\<rparr> = Inr (go, gm)"
    and "get_graph fatal' nm gm = Inr (Some (g, h))"
    and "length h < 2 ^ 31" and "root_node g = Some r" and "reach h r = {..<length h}"
  shows "\<exists>s0. run fatal' g h = Inr (0, Some s0) \<and>
    (\<forall>xenv s. (exec_step fatal' xenv h)\<^sup>*\<^sup>* s0 s \<longrightarrow>
       (\<forall>p. count (begun (trace s)) p \<le> 1) \<and> in_order h (trace s) \<and>
       (\<exists>t. (exec_step fatal' xenv h)\<^sup>*\<^sup>* s t \<and> tasks t = []) \<and>
       (tasks s = [] \<longrightarrow> begun (trace s) = mset (all_nodes g) \<and> set (all_nodes g) = {..<length h}))"
proof -
  have "(g, h) \<in> ran (graph_map gm)"
    using assms(2) by (auto simp: get_graph_def log_fatal_def ran_def split: option.splits if_splits)
  then have "manager_ok (g, h)" using graphs_init_ok [OF assms(1)] by simp
  then have p: "prepared g h r (length h)" using assms(3-5) by (rule manager_ok_prepared)
  obtain s0 where s0: "run fatal' g h = Inr (0, Some s0)" using run_prepared [OF p, of fatal'] by blast
  have inv: "exec_inv h r (length h) s" if "(exec_step fatal' xenv h)\<^sup>*\<^sup>* s0 s" for xenv s
    using exec.steps_inv [OF that prepared_start(1) [OF p s0]] .
  show ?thesis
    using s0 exec_once_in_order [OF inv] exec_can_end [OF inv] exec_final [OF inv]
      prepared_all_nodes [OF p] by (intro exI [of _ s0]) auto
qed

section \<open>The configuration of the unit test\<close>

definition unit_graphs :: conf_tree where
  "unit_graphs = Obj [(''graph1'', Obj
     [(''start'', Obj [(''root'', Flag True), (''children'', Text ''mid1, mid2'')]),
      (''mid1'', Obj [(''children'', Text ''done'')]),
      (''mid2'', Obj [(''children'', Text ''done'')])])]"

definition unit_builder_env :: "conf_tree builder_env" where
  "unit_builder_env =
     \<lparr>env_hocon = tree_hocon [(''graph.conf'', unit_graphs)], env_boost = boost_doc,
      env_nodes = map_of
        [(''start'', Obj [(''class'', Text ''StartService'')]),
         (''mid1'', Obj [(''class'', Text ''StartService'')]),
         (''mid2'', Obj [(''class'', Text ''StartService'')]),
         (''done'', Obj [(''class'', Text ''DoneService'')])],
      node_init = (\<lambda>_ _. Inr ())\<rparr>"

definition unit_classes :: service_map where
  "unit_classes = service_register ''StartService'' (service_register ''DoneService'' Map.empty)"

definition unit_manager :: "(bool \<times> graph_manager) res" where
  "unit_manager = graphs_init False unit_builder_env ''graph.conf''
     \<lparr>graph_map = Map.empty, service_classes = unit_classes, graph_node_names = Map.empty\<rparr>"

lemma unit_manager_graph:
  "case unit_manager of Inl e \<Rightarrow> False
   | Inr (go, gm) \<Rightarrow> go \<and> get_graph False ''graph1'' gm = Inr (Some (unit_inited, unit_nodes))"
  by code_simp


definition unit_graph1 :: conf_tree where
  "unit_graph1 = Obj
     [(''start'', Obj [(''root'', Flag True), (''children'', Text ''mid1, mid2'')]),
      (''mid1'', Obj [(''children'', Text ''done'')]),
      (''mid2'', Obj [(''children'', Text ''done'')])]"

lemma unit_graph1_built:
  "case build_graph False unit_builder_env unit_graph1 (new_builder unit_classes []) of
     Inl e \<Rightarrow> False | Inr (go, root, st) \<Rightarrow> go \<and> root = Some 0 \<and> heap st = diamond"
  by code_simp

theorem built_as_declared_witness:
  "\<exists>st. build_graph False unit_builder_env unit_graph1 (new_builder unit_classes []) = Inr (True, Some 0, st) \<and>
     heap st = diamond \<and> distinct (map name (heap st)) \<and>
     named_edges st = (\<Union>nm\<in>{''start'', ''mid1'', ''mid2''}. entry_edges unit_builder_env unit_classes unit_graph1 nm)"
proof -
  obtain st where st: "build_graph False unit_builder_env unit_graph1 (new_builder unit_classes []) = Inr (True, Some 0, st)"
    "heap st = diamond"
    using unit_graph1_built by (auto split: sum.splits)
  have "set (key_set (env_hocon unit_builder_env) unit_graph1) = {''start'', ''mid1'', ''mid2''}"
    by (simp add: unit_builder_env_def tree_hocon_def unit_graph1_def)
  then show ?thesis using built_as_declared [OF st(1)] st by simp
qed

lemma manager_graphs_run_example:
  "\<exists>gm. unit_manager = Inr (True, gm) \<and>
     get_graph False ''graph1'' gm = Inr (Some (unit_inited, unit_nodes)) \<and>
     run False unit_inited unit_nodes = Inr (0, Some unit_start) \<and>
     in_order unit_nodes (trace unit_final) \<and> begun (trace unit_final) = {#0, 1, 2, 3#}"
proof -
  obtain gm where gm: "unit_manager = Inr (True, gm)"
    "get_graph False ''graph1'' gm = Inr (Some (unit_inited, unit_nodes))"
    using unit_manager_graph by (auto split: sum.splits)
  have len: "length unit_nodes = 4" by (simp add: unit_nodes_def diamond_ok(4))
  have "root_node unit_inited = Some 0" "reach unit_nodes 0 = {..<length unit_nodes}"
    using unit_prepared len by (simp_all add: prepared_def runnable_def)
  from manager_graphs_run [OF gm(1) [unfolded unit_manager_def] gm(2) _ this] len
  obtain s0 where s0: "run False unit_inited unit_nodes = Inr (0, Some s0)"
    "\<And>xenv s. (exec_step False xenv unit_nodes)\<^sup>*\<^sup>* s0 s \<Longrightarrow> in_order unit_nodes (trace s) \<and>
       (tasks s = [] \<longrightarrow> begun (trace s) = mset (all_nodes unit_inited))"
    by auto
  have "s0 = unit_start" using s0(1) unit_run by simp
  with s0(2) [of unit_env unit_final] unit_steps
  have "in_order unit_nodes (trace unit_final) \<and> begun (trace unit_final) = {#0, 1, 2, 3#}"
    by (simp add: unit_final_def unit_inited_def)
  with gm unit_run show ?thesis by blast
qed

text \<open>
  An entry whose node cannot be made ends the loop over the entries, not the initialisation: what
  was built before it is the graph.
\<close>

definition partial_graphs :: conf_tree where
  "partial_graphs = Obj [(''g'', Obj
     [(''start'', Obj [(''root'', Flag True), (''children'', Text ''mid1'')]),
      (''typo'', Obj [(''children'', Text ''done'')]),
      (''mid1'', Obj [(''children'', Text ''done'')])])]"

lemma partial_graph_built:
  "case graphs_init False (unit_builder_env\<lparr>env_hocon := tree_hocon [(''graph.conf'', partial_graphs)]\<rparr>)
      ''graph.conf'' \<lparr>graph_map = Map.empty, service_classes = unit_classes, graph_node_names = Map.empty\<rparr> of
     Inl e \<Rightarrow> False
   | Inr (go, gm) \<Rightarrow> go \<and>
       (case graph_map gm ''g'' of None \<Rightarrow> False | Some (g, h) \<Rightarrow> map name h = [''start'', ''mid1'']
          \<and> all_nodes g = [0, 1])"
  by code_simp

text \<open>A graph with an entry that cannot be made is still accepted, cut off at that entry: with
  the second of three entries naming an unknown node, \<open>init\<close> returns true and the graph in the
  registry lacks the edge and the node of the third one.\<close>

lemma partial_graph_accepted:
  "\<exists>gm g h. graphs_init False (unit_builder_env\<lparr>env_hocon := tree_hocon [(''graph.conf'', partial_graphs)]\<rparr>)
      ''graph.conf'' \<lparr>graph_map = Map.empty, service_classes = unit_classes, graph_node_names = Map.empty\<rparr> =
      Inr (True, gm) \<and>
    get_graph False ''g'' gm = Inr (Some (g, h)) \<and> map name h = [''start'', ''mid1''] \<and> all_nodes g = [0, 1]"
proof -
  let ?init = "graphs_init False (unit_builder_env\<lparr>env_hocon := tree_hocon [(''graph.conf'', partial_graphs)]\<rparr>)
      ''graph.conf'' \<lparr>graph_map = Map.empty, service_classes = unit_classes, graph_node_names = Map.empty\<rparr>"
  obtain go gm where gm: "?init = Inr (go, gm)"
    using partial_graph_built by (cases ?init) auto
  with partial_graph_built show ?thesis
    by (auto simp: get_graph_def split: option.splits)
qed

end
