(* ===== verification/Process.thy ===== *)
theory Process
  imports GraphBuild CacheManager Rpc
begin

text \<open>
  The process: \<open>init_graph_frame\<close> (\<open>frame/graph_manager.cpp\<close>) fills the registries from the files that the
  configuration names, \<open>main\<close> (\<open>main.cpp\<close>) starts the server, and \<open>Echo\<close> (\<open>server/server_impl.cpp\<close>) runs the graph
  \<open>graph1\<close> for a request. The libraries are a record of parameters; set-up of the logging library and
  the parsing of command line flags have no effect here.
\<close>

section \<open>The process\<close>

record server_options =
  idle_timeout_sec :: int
  num_threads :: int

record ('cfg, 'm, 'c) platform =
  conf_lib :: "'cfg hocon"
  text_lib :: boost
  cache_lib :: "'m shmcache"
  connect :: "string \<Rightarrow> nat \<Rightarrow> 'c option"
  cluster :: "string \<Rightarrow> cluster_reply"
  init_of_node :: "string \<Rightarrow> 'cfg \<Rightarrow> unit res" \<comment> \<open>the virtual \<open>init\<close>, of a class and its configuration\<close>
  fatal_ends :: bool
  exists_path :: "string \<Rightarrow> bool res"
  create_directories :: "string \<Rightarrow> unit res"
  add_service :: int
  hardware_concurrency :: nat
  server_start :: "int \<Rightarrow> server_options \<Rightarrow> int"

record ('cfg, 'm, 'c, 'ch) process =
  shm_cache :: "'m cache_manager"
  downstream_map :: "string \<rightharpoonup> 'ch"
  redis_clients :: "string \<rightharpoonup> 'c redis_client"
  node_confs :: "string \<rightharpoonup> 'cfg"
  graphs :: graph_manager

definition new_process :: "service_map \<Rightarrow> ('cfg, 'm, 'c, 'ch) process" where
  \<comment> \<open>before \<open>main\<close>: the classes have registered themselves\<close>
  "new_process classes =
     \<lparr>shm_cache = None, downstream_map = Map.empty, redis_clients = Map.empty, node_confs = Map.empty,
      graphs = \<lparr>graph_map = Map.empty, service_classes = classes, graph_node_names = Map.empty\<rparr>\<rparr>"

definition env_of :: "('cfg, 'm, 'c) platform \<Rightarrow> (string \<rightharpoonup> 'cfg) \<Rightarrow> 'cfg builder_env" where
  "env_of pl confs =
     \<lparr>env_hocon = conf_lib pl, env_boost = text_lib pl, env_nodes = confs, node_init = init_of_node pl\<rparr>"

section \<open>Initialisation\<close>

text \<open>The result of the cache is only logged; each of the other steps can end the initialisation.\<close>

definition init_graph_frame ::
  "('cfg, 'm, 'c) platform \<Rightarrow> string \<Rightarrow> ('cfg, 'm, 'c, 'ch) process \<Rightarrow>
   (bool \<times> ('cfg, 'm, 'c, 'ch) process) res"
where
  "init_graph_frame pl graph_frame_file pr =
     bind_res (parse_file_any_syntax (conf_lib pl) graph_frame_file) (\<lambda>root_conf.
     if ''graph_frame'' \<notin> set (key_set (conf_lib pl) root_conf) then log_fatal (fatal_ends pl) (False, pr)
     else
     bind_res (get_object (conf_lib pl) root_conf ''graph_frame'') (\<lambda>conf.
     bind_res (get_string (conf_lib pl) conf ''shmcache_conf_file'') (\<lambda>shmcache_conf_file.
     let pr1 = pr\<lparr>shm_cache := snd (cache_init (cache_lib pl) shmcache_conf_file (shm_cache pr))\<rparr> in
     bind_res (get_string (conf_lib pl) conf ''redis_client_conf_file'') (\<lambda>redis_client_conf_file.
     bind_res (clients_init (conf_lib pl) (text_lib pl) (connect pl) (cluster pl) redis_client_conf_file
         (redis_clients pr1)) (\<lambda>(suc, clients).
     let pr2 = pr1\<lparr>redis_clients := clients\<rparr> in
     if \<not> suc then log_fatal (fatal_ends pl) (False, pr2)
     else
     bind_res (get_string (conf_lib pl) conf ''node_service_conf_file'') (\<lambda>node_service_conf_file.
     bind_res (nodes_init (conf_lib pl) (downstream_map pr2) (redis_clients pr2) node_service_conf_file
         (node_confs pr2)) (\<lambda>(suc, confs).
     let pr3 = pr2\<lparr>node_confs := confs\<rparr> in
     if \<not> suc then log_fatal (fatal_ends pl) (False, pr3)
     else
     bind_res (get_string (conf_lib pl) conf ''graph_conf_file'') (\<lambda>graph_conf_file.
     bind_res (graphs_init (fatal_ends pl) (env_of pl confs) graph_conf_file (graphs pr3)) (\<lambda>(suc, gm).
     let pr4 = pr3\<lparr>graphs := gm\<rparr> in
     if \<not> suc then log_fatal (fatal_ends pl) (False, pr4)
     else Inr (True, pr4))))))))))"

section \<open>The server\<close>

text \<open>
  The returned code, the process and, when it was reached, the start of the server: the port and the
  options. An exception that leaves \<open>main\<close> ends the program.
\<close>

definition main_start ::
  "('cfg, 'm, 'c) platform \<Rightarrow> ('cfg, 'm, 'c, 'ch) process \<Rightarrow>
   (int \<times> (int \<times> server_options) option \<times> ('cfg, 'm, 'c, 'ch) process) res"
where
  "main_start pl pr = no_throw (
     bind_res (parse_file_any_syntax (conf_lib pl) ''conf/server.conf'') (\<lambda>root_conf.
     bind_res (get_string (conf_lib pl) root_conf ''log_path'') (\<lambda>log_path.
     bind_res (init_graph_frame pl ''conf/server.conf'' pr) (\<lambda>(suc, pr1).
     if \<not> suc then Inr (-1, None, pr1)
     else
     bind_res (exists_path pl log_path) (\<lambda>there.
     bind_res (if \<not> there then create_directories pl log_path else Inr ()) (\<lambda>_.
     bind_res (get_int (conf_lib pl) root_conf ''port'') (\<lambda>port.
     if add_service pl \<noteq> 0 then Inr (-1, None, pr1)
     else
     bind_res (get_int (conf_lib pl) root_conf ''cores_multi'') (\<lambda>p.
     let options = \<lparr>idle_timeout_sec = 600, num_threads = int32 (int (hardware_concurrency pl) * p)\<rparr>
     in if server_start pl port options \<noteq> 0 then Inr (-1, Some (port, options), pr1)
        else Inr (0, Some (port, options), pr1)))))))))"

text \<open>
  A call of \<open>Echo\<close>: the run it starts, and whether the closure that answers the call has run. The guard that
  would run it is released, and \<open>GraphContext\<close> drops the closure it gets.
\<close>

record echo =
  started_run :: "exec option"
  run_nodes :: "node list"
  done_called :: bool

definition Echo :: "bool \<Rightarrow> graph_manager \<Rightarrow> echo res" where
  "Echo fatal gm =
     bind_res (get_graph fatal ''graph1'' gm) (\<lambda>found.
       case found of
         None \<Rightarrow> Inl Null_Deref
       | Some (g, h) \<Rightarrow>
           bind_res (run fatal g h) (\<lambda>(ret, s).
             Inr \<lparr>started_run = s, run_nodes = h, done_called = False\<rparr>))"

text \<open>No branch of \<open>Echo\<close> runs the closure: the caller is never answered.\<close>

lemma Echo_never_answers: "Echo fatal gm = Inr e \<Longrightarrow> \<not> done_called e"
  by (auto simp: Echo_def res_simps split: option.splits prod.splits)

section \<open>What the graphs of the manager are made of\<close>

definition made_of :: "'cfg builder_env \<Rightarrow> service_map \<Rightarrow> graph_manager \<Rightarrow> bool" where
  "made_of env sm gm \<longleftrightarrow>
     (\<forall>cls f. service_classes gm cls = Some (Some f) \<longleftrightarrow> sm cls = Some (Some f)) \<and>
     (\<forall>nm g h. graph_map gm nm = Some (g, h) \<longrightarrow>
        distinct (map name h) \<and> (\<forall>n\<in>set h. creatable env sm (name n)) \<and>
        (\<exists>r. root_node g = Some r \<and> dag_from h r \<and> set (all_nodes g) = reach h r))"

lemma builder_names:
  assumes "builder_ok env sm st"
  shows "distinct (map name (heap st))" and "n \<in> set (heap st) \<Longrightarrow> creatable env sm (name n)"
proof -
  have ok: "nodes_map st nm = Some p \<longleftrightarrow> p < length (heap st) \<and> name (heap st ! p) = nm" for nm p
    using assms by (simp add: builder_ok_def)
  show "distinct (map name (heap st))"
    unfolding distinct_conv_nth
  proof (intro allI impI)
    fix i j assume ij: "i < length (map name (heap st))" "j < length (map name (heap st))" "i \<noteq> j"
    then have "nodes_map st (name (heap st ! i)) = Some i" "nodes_map st (name (heap st ! j)) = Some j"
      by (simp_all add: ok)
    then show "map name (heap st) ! i \<noteq> map name (heap st) ! j" using ij by auto
  qed
  assume "n \<in> set (heap st)"
  then obtain p where "nodes_map st (name n) = Some p" by (auto simp: in_set_conv_nth ok)
  then show "creatable env sm (name n)" using assms by (auto simp: builder_ok_def)
qed

lemma same_nodes_names: "same_nodes h h' \<Longrightarrow> map name h' = map name h"
  by (intro nth_equalityI) (auto simp: same_nodes_len same_nodes_fields)

lemma creatable_classes:
  assumes "\<And>cls f. sm cls = Some (Some f) \<longleftrightarrow> sm' cls = Some (Some f)"
  shows "creatable env sm nm = creatable env sm' nm"
  using assms by (simp add: creatable_def)

lemma add_graph_made:
  assumes "add_graph fatal env rc gname gm = Inr (go, gm')" and made: "made_of env sm gm"
  shows "made_of env sm gm'"
proof -
  from assms(1) obtain gc names b root st ret g h where
    b: "build_graph fatal env gc (new_builder (service_classes gm) names) = Inr (b, root, st)"
    and i: "init fatal root gname (new_graph\<lparr>max_node_id := node_id_gen st\<rparr>) (heap st) = Inr (ret, g, h)"
    and r: "(if ret = 0 then Inr (True, gm\<lparr>service_classes := services st,
        graph_node_names := (graph_node_names gm)(gname \<mapsto> graph_node_vec st),
        graph_map := umap_insert gname (g, h) (graph_map gm)\<rparr>)
      else log_fatal fatal (False, gm\<lparr>service_classes := services st,
        graph_node_names := (graph_node_names gm)(gname \<mapsto> graph_node_vec st)\<rparr>)) = Inr (go, gm')"
    by (auto simp: add_graph_def res_simps Let_def)
  have bo: "builder_ok env (service_classes gm) st" by (rule build_graph_root(1) [OF b])
  have cls: "service_classes gm cls = Some (Some f) \<longleftrightarrow> sm cls = Some (Some f)" for cls f
    using made by (simp add: made_of_def)
  then have cls': "services st cls = Some (Some f) \<longleftrightarrow> sm cls = Some (Some f)" for cls f
    using bo by (simp add: builder_ok_def)
  show ?thesis
  proof (cases "ret = 0")
    case False
    then show ?thesis using r made cls' by (auto simp: log_fatal_def made_of_def split: if_splits)
  next
    case True
    then have gm': "graph_map gm' = umap_insert gname (g, h) (graph_map gm)" "service_classes gm' = services st"
      using r by auto
    obtain p where p: "root = Some p" using i init_None by (cases root) auto
    have "closed_heap (heap st)" "check_fresh (heap st)" using bo by (simp_all add: builder_ok_def heap_ok_def)
    note res = init_result [OF this build_graph_root(2) [OF b p] i [unfolded p True]]
    have names: "map name h = map name (heap st)" by (rule same_nodes_names [OF res(2)])
    have "creatable env sm (name n)" if "n \<in> set h" for n
    proof -
      have "name n \<in> name ` set (heap st)" using that names by (metis imageI list.set_map)
      then obtain n' where "n' \<in> set (heap st)" "name n = name n'" by auto
      then have "creatable env (service_classes gm) (name n)" using builder_names(2) [OF bo] by simp
      then show ?thesis by (simp add: creatable_classes [OF cls])
    qed
    moreover have "distinct (map name h)" using names builder_names(1) [OF bo] by simp
    moreover have "dag_from h p" "set (all_nodes g) = reach h p"
      using res by (simp_all add: same_nodes_dag same_nodes_reach)
    moreover have "root_node g = Some p" by (rule res(3))
    ultimately show ?thesis using made cls' unfolding made_of_def gm'
      by (auto simp: umap_insert_def split: option.splits if_splits)
  qed
qed

lemma graphs_init_made:
  assumes "graphs_init fatal env path gm = Inr (go, gm')" and "made_of env sm gm"
  shows "made_of env sm gm'"
proof -
  from assms(1) obtain rc where "loop_res (add_graph fatal env rc) (key_set (env_hocon env) rc) gm = Inr (go, gm')"
    by (auto simp: graphs_init_def res_simps)
  then show ?thesis using assms(2) by (rule loop_res_inv) (rule add_graph_made)
qed


lemma init_frame_parts:
  assumes "init_graph_frame pl file pr = Inr (True, pr')"
  obtains conf node_file graph_file root where
    "get_string (conf_lib pl) conf ''node_service_conf_file'' = Inr node_file"
    and "nodes_init (conf_lib pl) (downstream_map pr) (redis_clients pr') node_file (node_confs pr) =
      Inr (True, node_confs pr')"
    and "graphs_init (fatal_ends pl) (env_of pl (node_confs pr')) graph_file (graphs pr) = Inr (True, graphs pr')"
    and "parse_file_any_syntax (conf_lib pl) file = Inr root" and "get_object (conf_lib pl) root ''graph_frame'' = Inr conf"
    and "downstream_map pr' = downstream_map pr"
  using assms by (auto simp: init_graph_frame_def res_simps Let_def log_fatal_def split: if_splits prod.splits)

lemma nodes_init_go:
  assumes "nodes_init hc transports clients path m = Inr (True, m')"
  obtains root where "parse_file_any_syntax hc path = Inr root"
    and "\<And>nm ds. nm \<in> set (key_set hc root) \<Longrightarrow> downstream_of hc root nm = Some ds \<Longrightarrow>
      get_transport ds transports \<noteq> None \<or> get_client ds clients \<noteq> None"
proof -
  let ?known = "\<lambda>n. get_transport n transports \<noteq> None \<or> get_client n clients \<noteq> None"
  obtain root where r: "parse_file_any_syntax hc path = Inr root"
    "loop_res (add_node_conf hc ?known root) (key_set hc root) m = Inr (True, m')"
    using assms by (auto simp: nodes_init_def res_simps)
  from nodes_loop_go [OF r(2)] that [OF r(1)] show ?thesis unfolding dangling_def by blast
qed

lemma main_parts:
  assumes "main_start pl pr = Inr (ret, Some (port_no, options), pr')"
  obtains root cores where "init_graph_frame pl ''conf/server.conf'' pr = Inr (True, pr')"
    and "parse_file_any_syntax (conf_lib pl) ''conf/server.conf'' = Inr root"
    and "get_int (conf_lib pl) root ''port'' = Inr port_no" and "get_int (conf_lib pl) root ''cores_multi'' = Inr cores"
    and "options = \<lparr>idle_timeout_sec = 600, num_threads = int32 (int (hardware_concurrency pl) * cores)\<rparr>"
    and "ret = (if server_start pl port_no options = 0 then 0 else -1)" and "add_service pl = 0"
  using assms unfolding main_start_def no_throw_Inr
  by (elim bind_res_InrE; auto simp: res_simps Let_def split: if_splits)


section \<open>The configuration of the repository\<close>

definition server_conf :: "(string \<times> conf_tree) list \<Rightarrow> conf_tree" where
  \<comment> \<open>\<open>conf/server.conf\<close>, and further entries\<close>
  "server_conf extra = Obj ([(''port'', Num 8889), (''graph_frame'', Obj
     [(''shmcache_conf_file'', Text ''conf/graph_frame/shmcache.conf''),
      (''redis_client_conf_file'', Text ''conf/graph_frame/redis_client.conf''),
      (''node_service_conf_file'', Text ''conf/graph_frame/node_service.conf''),
      (''graph_conf_file'', Text ''conf/graph_frame/graph.conf'')]),
     (''log_path'', Text ''log'')] @ extra)"

definition conf_files :: "(string \<times> conf_tree) list" where
  "conf_files =
     [(''conf/graph_frame/redis_client.conf'', Obj [(''test_redis'', Obj
        [(''address'', Text ''127.0.0.1:6379''), (''pool_size'', Num 50), (''max_pool_size'', Num 50),
         (''timeout_ms'', Num 50)])]),
      (''conf/graph_frame/node_service.conf'', Obj
        [(''start'', Obj [(''class'', Text ''StartService''), (''func'', Text ''start'')]),
         (''done'', Obj [(''class'', Text ''DoneService'')]),
         (''mid1'', Obj [(''class'', Text ''StartService''), (''func'', Text ''mide1'')]),
         (''mid2'', Obj [(''class'', Text ''StartService''), (''func'', Text ''mid2'')])]),
      (''conf/graph_frame/graph.conf'', Obj [(''graph1'', Obj
        [(''start'', Obj [(''root'', Flag True), (''children'', Text ''mid1, mid2'')]),
         (''mid1'', Obj [(''parents'', Text ''start''), (''children'', Text ''done'')]),
         (''done'', Obj [(''parents'', Text ''mid1, mid2'')])])])]"

text \<open>\<open>init\<close> of the two classes: \<open>StartService\<close> reads \<open>func\<close>.\<close>

definition own_init :: "conf_tree hocon \<Rightarrow> string \<Rightarrow> conf_tree \<Rightarrow> unit res" where
  "own_init hc cls conf =
     (if cls = ''StartService'' then bind_res (get_string hc conf ''func'') (\<lambda>func. Inr ()) else Inr ())"

definition unit_platform :: "(string \<times> conf_tree) list \<Rightarrow> (conf_tree, (string \<times> string \<times> int) list, string) platform" where
  "unit_platform extra =
     (let hc = tree_hocon ((''conf/server.conf'', server_conf extra) # conf_files)
      in \<lparr>conf_lib = hc, text_lib = boost_doc, cache_lib = table_shm, connect = (\<lambda>a k. Some a),
          cluster = (\<lambda>a. Rpc_Failed), init_of_node = own_init hc, fatal_ends = False,
          exists_path = (\<lambda>f. Inr True), create_directories = (\<lambda>f. Inr ()), add_service = 0,
          hardware_concurrency = 4, server_start = (\<lambda>port opts. 0)\<rparr>)"

abbreviation unit_process :: "(conf_tree, (string \<times> string \<times> int) list, string, unit) process" where
  "unit_process \<equiv> new_process unit_classes"

lemma unit_init_frame:
  "case init_graph_frame (unit_platform []) ''conf/server.conf'' unit_process of
     Inl e \<Rightarrow> False
   | Inr (suc, pr) \<Rightarrow> suc \<and> graph_map (graphs pr) ''graph1'' = Some (unit_inited, unit_nodes)"
  by code_simp

lemma unit_main:
  "case main_start (unit_platform [(''cores_multi'', Num 2)]) unit_process of
     Inl e \<Rightarrow> False
   | Inr (ret, started, pr) \<Rightarrow> ret = 0 \<and> started = Some (8889, \<lparr>idle_timeout_sec = 600, num_threads = 8\<rparr>) \<and>
       graph_map (graphs pr) ''graph1'' = Some (unit_inited, unit_nodes)"
  by code_simp

lemma shipped_main: "case main_start (unit_platform []) unit_process of Inl e \<Rightarrow> e = Terminate | Inr x \<Rightarrow> False"
  by code_simp

text \<open>The shipped configuration has no \<open>cores_multi\<close>: the exception leaves \<open>main\<close>.\<close>

lemma shipped_conf_terminates: "main_start (unit_platform []) unit_process = Inl Terminate"
  using shipped_main by (simp split: sum.splits)

section \<open>The properties\<close>

lemma made_of_new: "made_of env sm (graphs (new_process sm))"
  by (simp add: made_of_def new_process_def)

text \<open>C23: After \<open>init_graph_frame\<close> returned true, every graph of the process is one that can run: it has a
  root, what the root reaches has no cycle and no other source, and is what \<open>run\<close> will set up; its nodes
  have different names, each with a configuration whose class is registered.\<close>

theorem process_graphs:
  assumes "init_graph_frame pl file (new_process classes) = Inr (True, pr)"
    and "graph_map (graphs pr) nm = Some (g, h)"
  shows "distinct (map name h) \<and>
    list_all (\<lambda>n. creatable (env_of pl (node_confs pr)) classes (name n)) h \<and>
    (\<exists>r. root_node g = Some r \<and> dag_from h r \<and> set (all_nodes g) = reach h r)"
proof -
  obtain graph_file where
    "graphs_init (fatal_ends pl) (env_of pl (node_confs pr)) graph_file (graphs (new_process classes :: (_, _, _, 'd) process))
      = Inr (True, graphs pr)"
    using init_frame_parts [OF assms(1)] by (simp add: new_process_def) blast
  from graphs_init_made [OF this made_of_new] assms(2) show ?thesis
    by (simp add: made_of_def list_all_iff)
qed

text \<open>C40: Nothing initialises the channels: after \<open>init_graph_frame\<close> returned true there is none, so the
  \<open>do_service\<close> of every brpc and http node returns -1 without a call and notifies the output nodes; and
  \<open>init_graph_frame\<close> returns true only if every node that names a downstream names a redis client,
  whatever the file of the channels says.\<close>

theorem channels_never_ready:
  fixes pr :: "('cfg, 'm, 'c, 'ch) process" and pl :: "('cfg, 'm, 'c) platform"
  assumes "init_graph_frame pl file (new_process classes) = Inr (True, pr)"
  shows "brpc_do_service (downstream_map pr) nm call req w = (-1, log_rpc (Outputs req) w) \<and>
    http_do_service (downstream_map pr) nm req w = (-1, log_rpc (Outputs req) w) \<and>
    (\<exists>root conf node_file nodes. parse_file_any_syntax (conf_lib pl) file = Inr root \<and>
       get_object (conf_lib pl) root ''graph_frame'' = Inr conf \<and>
       get_string (conf_lib pl) conf ''node_service_conf_file'' = Inr node_file \<and>
       parse_file_any_syntax (conf_lib pl) node_file = Inr nodes \<and>
       (\<forall>node ds. node \<in> set (key_set (conf_lib pl) nodes) \<longrightarrow> downstream_of (conf_lib pl) nodes node = Some ds \<longrightarrow>
          get_client ds (redis_clients pr) \<noteq> None))"
proof -
  obtain conf node_file root where c: "get_string (conf_lib pl) conf ''node_service_conf_file'' = Inr node_file"
    "nodes_init (conf_lib pl) (downstream_map (new_process classes :: ('cfg, 'm, 'c, 'ch) process)) (redis_clients pr)
       node_file (node_confs (new_process classes :: ('cfg, 'm, 'c, 'ch) process)) = Inr (True, node_confs pr)"
    "parse_file_any_syntax (conf_lib pl) file = Inr root" "get_object (conf_lib pl) root ''graph_frame'' = Inr conf"
    and none: "downstream_map pr = downstream_map (new_process classes :: ('cfg, 'm, 'c, 'ch) process)"
    using init_frame_parts [OF assms] by metis
  have e: "downstream_map pr = Map.empty" unfolding none by (simp add: new_process_def)
  obtain nodes where nodes: "parse_file_any_syntax (conf_lib pl) node_file = Inr nodes"
    "\<And>node ds. node \<in> set (key_set (conf_lib pl) nodes) \<Longrightarrow> downstream_of (conf_lib pl) nodes node = Some ds \<Longrightarrow>
      get_transport ds (downstream_map (new_process classes :: ('cfg, 'm, 'c, 'ch) process)) \<noteq> None \<or>
      get_client ds (redis_clients pr) \<noteq> None"
    using nodes_init_go [OF c(2)] by blast
  then have "\<forall>node ds. node \<in> set (key_set (conf_lib pl) nodes) \<longrightarrow> downstream_of (conf_lib pl) nodes node = Some ds \<longrightarrow>
      get_client ds (redis_clients pr) \<noteq> None"
    by (simp add: get_transport_def new_process_def)
  moreover have "brpc_do_service (downstream_map pr) nm call req w = (-1, log_rpc (Outputs req) w)"
    "http_do_service (downstream_map pr) nm req w = (-1, log_rpc (Outputs req) w)"
    unfolding e by (simp_all add: brpc_do_service_def http_do_service_def get_transport_def)
  ultimately show ?thesis using c nodes(1) by blast
qed

text \<open>C15: From \<open>main\<close> to the end of a request: when \<open>main\<close> has started the server, with the configured port and
  the number of threads that \<open>cores_multi\<close> asks for, and \<open>graph1\<close> is a graph all of whose nodes its root
  reaches, then a call of \<open>Echo\<close> starts a run of this graph; under every interleaving each node is served at
  most once and after its inputs, the run can come to its end, and at the end every node was served
  once. The closure that would answer the call is not run.\<close>

theorem main_serves:
  assumes "main_start pl (new_process classes) = Inr (0, Some (port_no, options), pr)"
    and "graph_map (graphs pr) ''graph1'' = Some (g, h)"
    and "length h < 2 ^ 31" and "root_node g = Some r" and "reach h r = {..<length h}"
  shows "server_start pl port_no options = 0 \<and>
    (\<exists>root cores. parse_file_any_syntax (conf_lib pl) ''conf/server.conf'' = Inr root \<and>
       get_int (conf_lib pl) root ''port'' = Inr port_no \<and> get_int (conf_lib pl) root ''cores_multi'' = Inr cores \<and>
       num_threads options = int32 (int (hardware_concurrency pl) * cores)) \<and>
    (\<exists>s0. Echo fatal (graphs pr) = Inr \<lparr>started_run = Some s0, run_nodes = h, done_called = False\<rparr> \<and>
       (\<forall>xenv s. (exec_step fatal xenv h)\<^sup>*\<^sup>* s0 s \<longrightarrow>
          (\<forall>p. count (begun (trace s)) p \<le> 1) \<and> in_order h (trace s) \<and>
          (\<exists>t. (exec_step fatal xenv h)\<^sup>*\<^sup>* s t \<and> tasks t = []) \<and>
          (tasks s = [] \<longrightarrow> begun (trace s) = mset (all_nodes g) \<and> set (all_nodes g) = {..<length h})))"
proof -
  obtain root cores where m: "init_graph_frame pl ''conf/server.conf'' (new_process classes) = Inr (True, pr)"
    "parse_file_any_syntax (conf_lib pl) ''conf/server.conf'' = Inr root"
    "get_int (conf_lib pl) root ''port'' = Inr port_no" "get_int (conf_lib pl) root ''cores_multi'' = Inr cores"
    "options = \<lparr>idle_timeout_sec = 600, num_threads = int32 (int (hardware_concurrency pl) * cores)\<rparr>"
    "0 = (if server_start pl port_no options = 0 then 0 else -1 :: int)"
    by (rule main_parts [OF assms(1)])
  obtain graph_file where gi: "graphs_init (fatal_ends pl) (env_of pl (node_confs pr)) graph_file
      \<lparr>graph_map = Map.empty, service_classes = classes, graph_node_names = Map.empty\<rparr> = Inr (True, graphs pr)"
    using init_frame_parts [OF m(1)] by (simp add: new_process_def) blast
  have found: "get_graph fatal ''graph1'' (graphs pr) = Inr (Some (g, h))" using assms(2) by (simp add: get_graph_def)
  obtain s0 where s0: "run fatal g h = Inr (0, Some s0)"
    "\<And>xenv s. (exec_step fatal xenv h)\<^sup>*\<^sup>* s0 s \<Longrightarrow>
       (\<forall>p. count (begun (trace s)) p \<le> 1) \<and> in_order h (trace s) \<and>
       (\<exists>t. (exec_step fatal xenv h)\<^sup>*\<^sup>* s t \<and> tasks t = []) \<and>
       (tasks s = [] \<longrightarrow> begun (trace s) = mset (all_nodes g) \<and> set (all_nodes g) = {..<length h})"
    using manager_graphs_run [OF gi found assms(3-5)] by blast
  have "Echo fatal (graphs pr) = Inr \<lparr>started_run = Some s0, run_nodes = h, done_called = False\<rparr>"
    using found s0(1) by (simp add: Echo_def)
  moreover have "server_start pl port_no options = 0" using m(6) by (simp split: if_splits)
  moreover have "num_threads options = int32 (int (hardware_concurrency pl) * cores)" using m(5) by simp
  ultimately show ?thesis using m(2-4) s0(2) by blast
qed

text \<open>The configuration of the repository, with \<open>cores_multi\<close> added for \<open>main\<close>.\<close>

theorem process_graphs_witness:
  "distinct (map name unit_nodes) \<and> (\<exists>r. root_node unit_inited = Some r \<and> dag_from unit_nodes r)"
proof -
  obtain pr where "init_graph_frame (unit_platform []) ''conf/server.conf'' unit_process = Inr (True, pr)"
    "graph_map (graphs pr) ''graph1'' = Some (unit_inited, unit_nodes)"
    using unit_init_frame by (auto split: sum.splits)
  from process_graphs [OF this] show ?thesis by blast
qed

theorem channels_never_ready_witness:
  "\<exists>pr. init_graph_frame (unit_platform []) ''conf/server.conf'' unit_process = Inr (True, pr) \<and>
     http_do_service (downstream_map pr) ''ds1'' 0 new_world = (-1, log_rpc (Outputs 0) new_world)"
proof -
  obtain pr where pr: "init_graph_frame (unit_platform []) ''conf/server.conf'' unit_process = Inr (True, pr)"
    using unit_init_frame by (auto split: sum.splits)
  from channels_never_ready [OF pr] show ?thesis using pr by blast
qed

theorem main_serves_witness:
  "\<exists>pr. main_start (unit_platform [(''cores_multi'', Num 2)]) unit_process =
       Inr (0, Some (8889, \<lparr>idle_timeout_sec = 600, num_threads = 8\<rparr>), pr) \<and>
     Echo False (graphs pr) = Inr \<lparr>started_run = Some unit_start, run_nodes = unit_nodes, done_called = False\<rparr> \<and>
     begun (trace unit_final) = {#0, 1, 2, 3#}"
proof -
  obtain pr where pr: "main_start (unit_platform [(''cores_multi'', Num 2)]) unit_process =
      Inr (0, Some (8889, \<lparr>idle_timeout_sec = 600, num_threads = 8\<rparr>), pr)"
    "graph_map (graphs pr) ''graph1'' = Some (unit_inited, unit_nodes)"
    using unit_main by (auto split: sum.splits)
  have len: "length unit_nodes = 4" by (simp add: unit_nodes_def diamond_ok(4))
  have "root_node unit_inited = Some 0" "reach unit_nodes 0 = {..<length unit_nodes}"
    using unit_prepared len by (simp_all add: prepared_def runnable_def)
  from main_serves [OF pr _ this, of False] len obtain s0 where
    s0: "Echo False (graphs pr) = Inr \<lparr>started_run = Some s0, run_nodes = unit_nodes, done_called = False\<rparr>"
    "\<And>xenv s. (exec_step False xenv unit_nodes)\<^sup>*\<^sup>* s0 s \<Longrightarrow>
       tasks s = [] \<longrightarrow> begun (trace s) = mset (all_nodes unit_inited)"
    by auto
  have "s0 = unit_start" using s0(1) pr(2) unit_run by (simp add: Echo_def get_graph_def)
  with s0 s0(2) [of unit_env unit_final] unit_steps pr(1) show ?thesis
    by (intro exI [of _ pr]) (simp add: unit_final_def unit_inited_def)
qed

end
