(* ===== verification/ClientRun.thy ===== *)
theory ClientRun
  imports RedisRouting
begin

text \<open>
  Commands of a redis client that run at the same time (\<open>RedisClient::fetch\<close> on many bthreads): each looks up the
  node of its key and borrows a channel of the node's pool, calls \<open>CallMethod\<close> on it, which returns at once, and gives
  the channel back. The pools lock each borrowing and each return; between them the commands interleave. The thread that
  would update the pools is commented out in the constructor, so none runs beside the commands.
\<close>

section \<open>Steps\<close>

datatype 'c command =
    Asking string "string list" int int \<comment> \<open>about to call \<open>GetConnection\<close> for this key, with the parts of the command\<close>
  | Holding nat "32 word" "'c redis_call" \<comment> \<open>the channel pool, the index of the node, and the call to be made\<close>
  | Called nat "32 word" 'c \<comment> \<open>\<open>CallMethod\<close> has returned\<close>
  | Returned int

record 'c client_run =
  the_client :: "'c redis_client"
  commands :: "'c command list"
  issued :: "(nat \<times> 'c redis_call) list" \<comment> \<open>the calls, with the number of the command\<close>

fun command_step ::
  "(string \<Rightarrow> nat \<Rightarrow> 'c option) \<Rightarrow> 'c command \<Rightarrow> 'c redis_client \<Rightarrow>
   ('c command \<times> 'c redis_call list \<times> 'c redis_client) res"
where
  "command_step connect (Asking key parts timeout_ms retry) cl =
     (let k = nat (pool_index cl); cp = channel_pool_vec cl ! k;
          index = GetKeyNodeIndex (Some key) cp
      in bind_res (GetConnection connect index cp) (\<lambda>(channel, cp1).
         case channel of
           None \<Rightarrow> Inr (Returned (-1), [], put_pool k cp1 cl)
         | Some c \<Rightarrow>
             Inr (Holding k index \<lparr>call_channel = c, components = parts,
                   call_timeout = (if timeout_ms > 0 then Some timeout_ms else None),
                   call_retry = (if retry > 0 then Some retry else None)\<rparr>,
               [], put_pool k cp1 cl)))"
| "command_step connect (Holding k index call) cl = Inr (Called k index (call_channel call), [call], cl)"
| "command_step connect (Called k index c) cl =
     bind_res (FreeConnection (Some c) index (channel_pool_vec cl ! k)) (\<lambda>cp.
       Inr (Returned 0, [], put_pool k cp cl))"
| "command_step connect (Returned code) cl = Inr (Returned code, [], cl)"

fun has_returned :: "'c command \<Rightarrow> bool" where
  "has_returned (Returned code) \<longleftrightarrow> True"
| "has_returned _ \<longleftrightarrow> False"

inductive run_step :: "(string \<Rightarrow> nat \<Rightarrow> 'c option) \<Rightarrow> 'c client_run \<Rightarrow> 'c client_run \<Rightarrow> bool" for connect where
  "j < length (commands s) \<Longrightarrow> \<not> has_returned (commands s ! j) \<Longrightarrow>
   command_step connect (commands s ! j) (the_client s) = Inr (cmd, cs, cl) \<Longrightarrow>
   run_step connect s \<lparr>the_client = cl, commands = (commands s)[j := cmd], issued = issued s @ map (Pair j) cs\<rparr>"

inductive_cases run_stepE: "run_step connect s t"

text \<open>A GET, with its timeout and number of retries.\<close>

type_synonym get = "string \<times> int \<times> int"

fun ask_get :: "get \<Rightarrow> 'c command" where
  "ask_get (key, timeout_ms, retry) = Asking key [''GET'', key] timeout_ms retry"

definition start_gets :: "'c redis_client \<Rightarrow> get list \<Rightarrow> 'c client_run" where
  "start_gets cl gets = \<lparr>the_client = cl, commands = map ask_get gets, issued = []\<rparr>"

text \<open>\<open>fetch\<close> is a command that no other interrupts.\<close>

lemma put_pool_simps [simp]:
  "pool_index (put_pool k cp cl) = pool_index cl"
  "k < length (channel_pool_vec cl) \<Longrightarrow> channel_pool_vec (put_pool k cp cl) ! k = cp"
  "put_pool k cp' (put_pool k cp cl) = put_pool k cp' cl"
  by (simp_all add: put_pool_def)

lemma run_stepI:
  assumes "command_step connect cmd cl = Inr (cmd', cs, cl')" and "\<not> has_returned cmd"
  shows "run_step connect \<lparr>the_client = cl, commands = [cmd], issued = log\<rparr>
    \<lparr>the_client = cl', commands = [cmd'], issued = log @ map (Pair 0) cs\<rparr>"
  using run_step.intros [of 0 "\<lparr>the_client = cl, commands = [cmd], issued = log\<rparr>" connect cmd' cs cl'] assms by simp

lemma three_steps: "r x y \<Longrightarrow> r y z \<Longrightarrow> r z w \<Longrightarrow> r\<^sup>*\<^sup>* x w"
  by (meson converse_rtranclp_into_rtranclp rtranclp.rtrancl_refl)

lemma fetch_alone:
  assumes f: "fetch connect key timeout_ms retry cl = Inr (code, call, cl')"
    and k: "nat (pool_index cl) < length (channel_pool_vec cl)"
  shows "(run_step connect)\<^sup>*\<^sup>* (start_gets cl [(key, timeout_ms, retry)])
    \<lparr>the_client = cl', commands = [Returned code], issued = (case call of None \<Rightarrow> [] | Some c \<Rightarrow> [(0, c)])\<rparr>"
proof -
  let ?k = "nat (pool_index cl)" and ?ask = "Asking key [''GET'', key] timeout_ms retry"
  let ?cp = "channel_pool_vec cl ! ?k"
  let ?index = "GetKeyNodeIndex (Some key) ?cp"
  from f obtain channel cp1 where g: "GetConnection connect ?index ?cp = Inr (channel, cp1)"
    by (auto simp: fetch_def send_on_def Let_def res_simps)
  show ?thesis
  proof (cases channel)
    case None
    then have r: "code = -1" "call = None" "cl' = put_pool ?k cp1 cl" using f g by (simp_all add: fetch_def send_on_def Let_def)
    have "command_step connect ?ask cl = Inr (Returned (-1), [], put_pool ?k cp1 cl)" using g None by (simp add: Let_def)
    from run_stepI [OF this, of "[]"] show ?thesis by (simp add: start_gets_def r r_into_rtranclp)
  next
    case (Some c)
    let ?call = "\<lparr>call_channel = c, components = [''GET'', key],
      call_timeout = (if timeout_ms > 0 then Some timeout_ms else None), call_retry = (if retry > 0 then Some retry else None)\<rparr>"
    from f g Some obtain cp2 where fr: "FreeConnection (Some c) ?index cp1 = Inr cp2"
      and r: "code = 0" "call = Some ?call" "cl' = put_pool ?k cp2 cl"
      by (auto simp: fetch_def send_on_def Let_def res_simps)
    have "command_step connect ?ask cl = Inr (Holding ?k ?index ?call, [], put_pool ?k cp1 cl)"
      using g Some by (simp add: Let_def)
    note s1 = run_stepI [OF this, of "[]", simplified]
    have "command_step connect (Holding ?k ?index ?call) (put_pool ?k cp1 cl) =
        Inr (Called ?k ?index c, [?call], put_pool ?k cp1 cl)" by simp
    note s2 = run_stepI [OF this, of "[]", simplified]
    have "command_step connect (Called ?k ?index c) (put_pool ?k cp1 cl) = Inr (Returned 0, [], put_pool ?k cp2 cl)"
      using fr k by simp
    note s3 = run_stepI [OF this, of "[(0, ?call)]", simplified]
    have "(run_step connect)\<^sup>*\<^sup>* (start_gets cl [(key, timeout_ms, retry)])
        \<lparr>the_client = put_pool ?k cp2 cl, commands = [Returned 0], issued = [(0, ?call)]\<rparr>"
      using three_steps [where r = "run_step connect", OF s1 s2 s3]
      by (simp add: start_gets_def)
    then show ?thesis by (simp add: r)
  qed
qed

section \<open>What the commands keep\<close>

definition node_of :: "node_info list \<Rightarrow> string \<Rightarrow> nat" where
  \<comment> \<open>the last node that claims the slot of the key, or else the first node\<close>
  "node_of nodes key = (case owner 0 nodes (GetKeySlot (Some key)) of Some i \<Rightarrow> i | None \<Rightarrow> 0)"

definition reaches :: "(string \<Rightarrow> nat \<Rightarrow> 'c option) \<Rightarrow> node_info list \<Rightarrow> string \<Rightarrow> 'c \<Rightarrow> bool" where
  "reaches connect nodes key c \<longleftrightarrow> (\<exists>a n. node_address (nodes ! node_of nodes key) = Some a \<and> connect a n = Some c)"

fun good_call :: "(string \<Rightarrow> nat \<Rightarrow> 'c option) \<Rightarrow> node_info list \<Rightarrow> get \<Rightarrow> 'c redis_call \<Rightarrow> bool" where
  "good_call connect nodes (key, timeout_ms, retry) call \<longleftrightarrow>
     reaches connect nodes key (call_channel call) \<and> components call = [''GET'', key] \<and>
     call_timeout call = (if timeout_ms > 0 then Some timeout_ms else None) \<and>
     call_retry call = (if retry > 0 then Some retry else None)"

definition unreachable :: "(string \<Rightarrow> nat \<Rightarrow> 'c option) \<Rightarrow> bool" where
  "unreachable connect \<longleftrightarrow> (\<exists>a n. connect a n = None)"

fun command_ok :: "(string \<Rightarrow> nat \<Rightarrow> 'c option) \<Rightarrow> node_info list \<Rightarrow> nat \<Rightarrow> get \<Rightarrow> 'c command \<Rightarrow> bool" where
  "command_ok connect nodes k0 g (Asking key parts timeout_ms retry) \<longleftrightarrow>
     g = (key, timeout_ms, retry) \<and> parts = [''GET'', key]"
| "command_ok connect nodes k0 g (Holding k index call) \<longleftrightarrow>
     k = k0 \<and> unat index = node_of nodes (fst g) \<and> good_call connect nodes g call"
| "command_ok connect nodes k0 g (Called k index c) \<longleftrightarrow>
     k = k0 \<and> unat index = node_of nodes (fst g) \<and> reaches connect nodes (fst g) c"
| "command_ok connect nodes k0 g (Returned code) \<longleftrightarrow> code = 0 \<or> code = -1 \<and> unreachable connect"

fun in_hand_of :: "'c command \<Rightarrow> (nat \<times> 'c) option" where
  "in_hand_of (Holding k index call) = Some (unat index, call_channel call)"
| "in_hand_of (Called k index c) = Some (unat index, c)"
| "in_hand_of _ = None"

definition held_by :: "nat \<Rightarrow> 'c command \<Rightarrow> 'c multiset" where
  "held_by i cmd = (case in_hand_of cmd of Some (i', c) \<Rightarrow> if i' = i then {#c#} else {#} | None \<Rightarrow> {#})"

definition held :: "nat \<Rightarrow> 'c command list \<Rightarrow> 'c multiset" where
  "held i cmds = sum_list (map (held_by i) cmds)"

definition pool_ok ::
  "(string \<Rightarrow> nat \<Rightarrow> 'c option) \<Rightarrow> nat \<Rightarrow> 'c command list \<Rightarrow> (string \<times> 'c connect_pool) option \<Rightarrow> bool"
where
  \<comment> \<open>the pool and the commands that hold its channels are a pool in use\<close>
  "pool_ok connect i cmds entry \<longleftrightarrow> (\<forall>a p. entry = Some (a, p) \<longrightarrow>
     (\<exists>n. use_inv (connect a) \<lparr>pool_state = p, lent = held i cmds, failed = n\<rparr> \<and> (0 < n \<longrightarrow> unreachable connect)))"

fun call_made :: "'c command \<Rightarrow> bool" where
  "call_made (Called k index c) \<longleftrightarrow> True"
| "call_made (Returned code) \<longleftrightarrow> code = 0"
| "call_made _ \<longleftrightarrow> False"

definition log_ok ::
  "(string \<Rightarrow> nat \<Rightarrow> 'c option) \<Rightarrow> node_info list \<Rightarrow> get list \<Rightarrow> 'c command list \<Rightarrow> (nat \<times> 'c redis_call) list \<Rightarrow> bool"
where
  "log_ok connect nodes gets cmds log \<longleftrightarrow> distinct (map fst log) \<and>
     (\<forall>(j, call)\<in>set log. j < length gets \<and> good_call connect nodes (gets ! j) call) \<and>
     (\<forall>j<length gets. j \<in> fst ` set log \<longleftrightarrow> call_made (cmds ! j))"

definition run_inv ::
  "(string \<Rightarrow> nat \<Rightarrow> 'c option) \<Rightarrow> node_info list \<Rightarrow> get list \<Rightarrow> 'c client_run \<Rightarrow> bool"
where
  "run_inv connect nodes gets s \<longleftrightarrow> nodes \<noteq> [] \<and> (\<forall>node\<in>set nodes. node_address node \<noteq> None) \<and>
     serves connect nodes (the_client s) \<and>
     list_all2 (command_ok connect nodes (nat (pool_index (the_client s)))) gets (commands s) \<and>
     (\<forall>i<length nodes. pool_ok connect i (commands s) (m_channel_list (get_cur_channel_pool (the_client s)) ! i)) \<and>
     log_ok connect nodes gets (commands s) (issued s)"


section \<open>The pool of the node of a command\<close>

definition put_entry :: "nat \<Rightarrow> string \<times> 'c connect_pool \<Rightarrow> 'c redis_client \<Rightarrow> 'c redis_client" where
  "put_entry i e cl = put_pool (nat (pool_index cl)) ((get_cur_channel_pool cl)
     \<lparr>m_channel_list := (m_channel_list (get_cur_channel_pool cl))[i := Some e]\<rparr>) cl"

lemma put_entry_simps:
  assumes "serves connect nodes cl"
  shows "pool_index (put_entry i e cl) = pool_index cl"
    and "m_channel_list (get_cur_channel_pool (put_entry i e cl)) = (m_channel_list (get_cur_channel_pool cl))[i := Some e]"
  using assms by (simp_all add: put_entry_def get_cur_channel_pool_def serves_def)

lemma serves_put_entry:
  "serves connect nodes cl \<Longrightarrow> entry_ok connect (nodes ! i) (Some e) \<Longrightarrow> serves connect nodes (put_entry i e cl)"
  using put_serves(1) [of connect nodes cl i "fst e" "snd e"] by (simp add: put_entry_def)

lemma client_entry:
  assumes sv: "serves connect nodes cl" and i: "i < length nodes" and a: "node_address (nodes ! i) = Some a"
  obtains p where "m_channel_list (get_cur_channel_pool cl) ! i = Some (a, p)"
    and "entry_ok connect (nodes ! i) (Some (a, p))" and "i < length (m_channel_list (get_cur_channel_pool cl))"
proof -
  have la: "list_all2 (entry_ok connect) nodes (m_channel_list (get_cur_channel_pool cl))"
    using sv by (simp add: serves_def pool_serves_def)
  then have e: "entry_ok connect (nodes ! i) (m_channel_list (get_cur_channel_pool cl) ! i)"
    using i by (simp add: list_all2_nthD)
  then obtain p where "m_channel_list (get_cur_channel_pool cl) ! i = Some (a, p)"
    using a by (cases "m_channel_list (get_cur_channel_pool cl) ! i") (auto simp: entry_ok_def)
  with that e la i show ?thesis by (simp add: list_all2_lengthD)
qed

lemma node_of_less: "nodes \<noteq> [] \<Longrightarrow> node_of nodes key < length nodes"
  using owner_less [of 0 nodes "GetKeySlot (Some key)"] by (auto simp: node_of_def split: option.splits)

lemma key_node:
  "serves connect nodes cl \<Longrightarrow> unat (GetKeyNodeIndex (Some key) (get_cur_channel_pool cl)) = node_of nodes key"
  using node_index [of connect nodes "get_cur_channel_pool cl" "Some key"] by (simp add: serves_def node_of_def)

lemma asking_step:
  assumes sv: "serves connect nodes cl" and ne: "nodes \<noteq> []" and a: "node_address (nodes ! node_of nodes key) = Some a"
  obtains p conn q index where "m_channel_list (get_cur_channel_pool cl) ! node_of nodes key = Some (a, p)"
    and "borrow (connect a) p = (conn, q)" and "unat index = node_of nodes key"
    and "serves connect nodes (put_entry (node_of nodes key) (a, q) cl)"
    and "conn = None \<longrightarrow> unreachable connect" and "\<forall>c. conn = Some c \<longrightarrow> reaches connect nodes key c"
    and "command_step connect (Asking key parts tmo retry) cl =
      Inr (case conn of None \<Rightarrow> Returned (-1)
         | Some c \<Rightarrow> Holding (nat (pool_index cl)) index \<lparr>call_channel = c, components = parts,
             call_timeout = (if tmo > 0 then Some tmo else None), call_retry = (if retry > 0 then Some retry else None)\<rparr>,
        [], put_entry (node_of nodes key) (a, q) cl)"
proof -
  let ?i = "node_of nodes key" and ?cp = "get_cur_channel_pool cl"
  let ?index = "GetKeyNodeIndex (Some key) ?cp"
  obtain p where p: "m_channel_list ?cp ! ?i = Some (a, p)" "entry_ok connect (nodes ! ?i) (Some (a, p))"
    "?i < length (m_channel_list ?cp)" using client_entry [OF sv node_of_less [OF ne] a] by blast
  obtain conn q where b: "borrow (connect a) p = (conn, q)" by force
  have u: "unat ?index = ?i" by (rule key_node [OF sv])
  have "serves connect nodes (put_entry ?i (a, q) cl)"
    using serves_put_entry [OF sv] entry_ok_borrow [OF p(2)] b by (metis snd_conv)
  moreover have "unreachable connect" if "conn = None"
    using borrow_none [of "connect a" p q] b that by (auto simp: unreachable_def)
  moreover have "reaches connect nodes key c" if "conn = Some c" for c
    using borrow_gives [of "connect a" p c] b p(2) a that by (auto simp: reaches_def entry_ok_def)
  moreover have "command_step connect (Asking key parts tmo retry) cl =
      Inr (case conn of None \<Rightarrow> Returned (-1)
         | Some c \<Rightarrow> Holding (nat (pool_index cl)) ?index \<lparr>call_channel = c, components = parts,
             call_timeout = (if tmo > 0 then Some tmo else None), call_retry = (if retry > 0 then Some retry else None)\<rparr>,
        [], put_entry ?i (a, q) cl)"
    using p b by (simp add: GetConnection_def u Let_def put_entry_def flip: get_cur_channel_pool_def split: option.splits)
  ultimately show ?thesis using that [OF p(1) b u] by blast
qed

lemma called_step:
  assumes sv: "serves connect nodes cl" and i: "unat index < length nodes"
    and a: "node_address (nodes ! unat index) = Some a" and c: "connect a n = Some c"
  obtains p where "m_channel_list (get_cur_channel_pool cl) ! unat index = Some (a, p)"
    and "serves connect nodes (put_entry (unat index) (a, snd (release (Some c) p)) cl)"
    and "command_step connect (Called (nat (pool_index cl)) index c) cl =
      Inr (Returned 0, [], put_entry (unat index) (a, snd (release (Some c) p)) cl)"
proof -
  obtain p where p: "m_channel_list (get_cur_channel_pool cl) ! unat index = Some (a, p)"
    "entry_ok connect (nodes ! unat index) (Some (a, p))" "unat index < length (m_channel_list (get_cur_channel_pool cl))"
    using client_entry [OF sv i a] by blast
  have "entry_ok connect (nodes ! unat index) (Some (a, snd (release (Some c) p)))"
    using entry_ok_release [OF p(2), of "Some c"] c by auto
  from serves_put_entry [OF sv this] show ?thesis
    using that p by (simp add: FreeConnection_def put_entry_def flip: get_cur_channel_pool_def)
qed

section \<open>Every step keeps the invariant\<close>

lemma held_update:
  "j < length cmds \<Longrightarrow> held i (cmds[j := cmd]) + held_by i (cmds ! j) = held i cmds + held_by i cmd"
  unfolding held_def by (rule sum_list_list_update)

lemma pool_ok_other:
  assumes "pool_ok connect i cmds e" and "j < length cmds" and "held_by i (cmds ! j) = held_by i cmd"
  shows "pool_ok connect i (cmds[j := cmd]) e"
proof -
  have "held i (cmds[j := cmd]) = held i cmds" using held_update [OF assms(2), of i cmd] assms(3) by simp
  with assms(1) show ?thesis by (simp add: pool_ok_def)
qed

lemma pool_ok_borrow:
  assumes ok: "pool_ok connect i cmds (Some (a, p))" and b: "borrow (connect a) p = (conn, q)"
    and j: "j < length cmds" "in_hand_of (cmds ! j) = None" and new: "in_hand_of cmd = map_option (Pair i) conn"
  shows "pool_ok connect i (cmds[j := cmd]) (Some (a, q))"
proof -
  obtain n where u: "use_inv (connect a) \<lparr>pool_state = p, lent = held i cmds, failed = n\<rparr>"
    and n: "0 < n \<longrightarrow> unreachable connect" using ok by (auto simp: pool_ok_def)
  have h: "held i (cmds[j := cmd]) = held i cmds + held_by i cmd"
    using held_update [OF j(1), of i cmd] j(2) by (simp add: held_by_def)
  show ?thesis
  proof (cases conn)
    case None
    then have "unreachable connect" using borrow_none [of "connect a" p q] b by (auto simp: unreachable_def)
    then show ?thesis
      using use_borrow_inv [OF u] b None h new by (auto simp: pool_ok_def use_borrow_def held_by_def)
  next
    case (Some c)
    then show ?thesis
      using use_borrow_inv [OF u] b h new n by (auto simp: pool_ok_def use_borrow_def held_by_def)
  qed
qed

lemma pool_ok_release:
  assumes ok: "pool_ok connect i cmds (Some (a, p))"
    and j: "j < length cmds" "in_hand_of (cmds ! j) = Some (i, c)" and new: "in_hand_of cmd = None"
  shows "pool_ok connect i (cmds[j := cmd]) (Some (a, snd (release (Some c) p)))"
proof -
  obtain n where u: "use_inv (connect a) \<lparr>pool_state = p, lent = held i cmds, failed = n\<rparr>"
    and n: "0 < n \<longrightarrow> unreachable connect" using ok by (auto simp: pool_ok_def)
  have h: "add_mset c (held i (cmds[j := cmd])) = held i cmds"
    using held_update [OF j(1), of i cmd] j(2) new by (simp add: held_by_def)
  then have "held i (cmds[j := cmd]) = held i cmds - {#c#}" "c \<in># held i cmds" by (metis add_mset_remove_trivial, metis union_single_eq_member)
  with use_return_inv [OF u, of c] n show ?thesis by (auto simp: pool_ok_def)
qed

lemma log_ok_quiet:
  assumes "log_ok connect nodes gets cmds log" and "call_made cmd = call_made (cmds ! j)"
  shows "log_ok connect nodes gets (cmds[j := cmd]) log"
proof -
  have "call_made (cmds[j := cmd] ! l) = call_made (cmds ! l)" for l
    using assms(2) by (cases "j < length cmds") (simp_all add: nth_list_update list_update_beyond)
  with assms(1) show ?thesis by (simp add: log_ok_def)
qed

lemma log_ok_call:
  assumes "log_ok connect nodes gets cmds log" and "length cmds = length gets" and "j < length gets"
    and "\<not> call_made (cmds ! j)" and "call_made cmd" and "good_call connect nodes (gets ! j) call"
  shows "log_ok connect nodes gets (cmds[j := cmd]) (log @ [(j, call)])"
proof -
  have "j \<notin> fst ` set log" using assms(1,3,4) by (simp add: log_ok_def)
  with assms show ?thesis by (auto simp: log_ok_def nth_list_update)
qed

lemma run_invD:
  assumes "run_inv connect nodes gets s"
  shows "nodes \<noteq> []" and "i < length nodes \<Longrightarrow> \<exists>a. node_address (nodes ! i) = Some a"
    and "serves connect nodes (the_client s)" and "length (commands s) = length gets"
    and "j < length gets \<Longrightarrow> command_ok connect nodes (nat (pool_index (the_client s))) (gets ! j) (commands s ! j)"
    and "i < length nodes \<Longrightarrow> pool_ok connect i (commands s) (m_channel_list (get_cur_channel_pool (the_client s)) ! i)"
    and "log_ok connect nodes gets (commands s) (issued s)"
  using assms by (auto simp: run_inv_def list_all2_conv_all_nth)

lemma run_invI:
  assumes inv: "run_inv connect nodes gets s" and j: "j < length gets" and sv: "serves connect nodes cl"
    and k: "pool_index cl = pool_index (the_client s)"
    and cmd: "command_ok connect nodes (nat (pool_index (the_client s))) (gets ! j) cmd"
    and po: "\<forall>i<length nodes. pool_ok connect i ((commands s)[j := cmd]) (m_channel_list (get_cur_channel_pool cl) ! i)"
    and lo: "log_ok connect nodes gets ((commands s)[j := cmd]) log"
  shows "run_inv connect nodes gets \<lparr>the_client = cl, commands = (commands s)[j := cmd], issued = log\<rparr>"
proof -
  let ?P = "command_ok connect nodes (nat (pool_index (the_client s)))"
  have "list_all2 ?P gets (commands s)" using inv by (simp add: run_inv_def)
  from list_all2_update_cong [OF this cmd] have "list_all2 ?P gets ((commands s)[j := cmd])"
    by (metis list_update_id)
  with inv sv k po lo show ?thesis by (simp add: run_inv_def)
qed

text \<open>Only the pool of one node changes.\<close>

lemma pools_put:
  assumes inv: "run_inv connect nodes gets s" and j: "j < length (commands s)"
    and il: "i < length (m_channel_list (get_cur_channel_pool (the_client s)))"
    and here: "pool_ok connect i ((commands s)[j := cmd]) (Some e)"
    and there: "\<forall>i'. i' \<noteq> i \<longrightarrow> held_by i' (commands s ! j) = held_by i' cmd"
  shows "\<forall>i'<length nodes. pool_ok connect i' ((commands s)[j := cmd])
    (m_channel_list (get_cur_channel_pool (put_entry i e (the_client s))) ! i')"
proof (intro allI impI)
  fix i'
  assume i': "i' < length nodes"
  note d = run_invD [OF inv]
  show "pool_ok connect i' ((commands s)[j := cmd]) (m_channel_list (get_cur_channel_pool (put_entry i e (the_client s))) ! i')"
  proof (cases "i' = i")
    case True
    then show ?thesis using here il by (simp add: put_entry_simps(2) [OF d(3)])
  next
    case False
    then show ?thesis using pool_ok_other [OF d(6) [OF i'] j] there by (simp add: put_entry_simps(2) [OF d(3)])
  qed
qed

definition togo :: "'c command \<Rightarrow> nat" where
  "togo cmd = (case cmd of Asking _ _ _ _ \<Rightarrow> 3 | Holding _ _ _ \<Rightarrow> 2 | Called _ _ _ \<Rightarrow> 1 | Returned _ \<Rightarrow> 0)"

definition goes_on :: "(string \<Rightarrow> nat \<Rightarrow> 'c option) \<Rightarrow> node_info list \<Rightarrow> get list \<Rightarrow> 'c client_run \<Rightarrow> nat \<Rightarrow> bool" where
  \<comment> \<open>the command has a step, which keeps the invariant and brings the end nearer\<close>
  "goes_on connect nodes gets s j \<longleftrightarrow> (\<exists>cmd cs cl.
     command_step connect (commands s ! j) (the_client s) = Inr (cmd, cs, cl) \<and> togo cmd < togo (commands s ! j) \<and>
     run_inv connect nodes gets \<lparr>the_client = cl, commands = (commands s)[j := cmd], issued = issued s @ map (Pair j) cs\<rparr>)"

lemma asking_goes_on:
  assumes inv: "run_inv connect nodes gets s" and j: "j < length gets" and cmd: "commands s ! j = Asking key parts tmo retry"
  shows "goes_on connect nodes gets s j"
proof -
  note d = run_invD [OF inv]
  let ?cl = "the_client s" and ?i = "node_of nodes key"
  have g: "gets ! j = (key, tmo, retry)" "parts = [''GET'', key]" using d(5) [OF j] cmd by simp_all
  have i: "?i < length nodes" by (rule node_of_less [OF d(1)])
  obtain a where a: "node_address (nodes ! ?i) = Some a" using d(2) [OF i] by blast
  have jc: "j < length (commands s)" using j d(4) by simp
  obtain p conn q index where p: "m_channel_list (get_cur_channel_pool ?cl) ! ?i = Some (a, p)"
    "borrow (connect a) p = (conn, q)" "unat index = ?i" "serves connect nodes (put_entry ?i (a, q) ?cl)"
    "conn = None \<longrightarrow> unreachable connect" "\<forall>c. conn = Some c \<longrightarrow> reaches connect nodes key c"
    and st: "command_step connect (Asking key parts tmo retry) ?cl =
      Inr (case conn of None \<Rightarrow> Returned (-1)
         | Some c \<Rightarrow> Holding (nat (pool_index ?cl)) index \<lparr>call_channel = c, components = parts,
             call_timeout = (if tmo > 0 then Some tmo else None), call_retry = (if retry > 0 then Some retry else None)\<rparr>,
        [], put_entry ?i (a, q) ?cl)"
    by (rule asking_step [OF d(3,1) a])
  define new where "new = (case conn of None \<Rightarrow> Returned (-1)
    | Some c \<Rightarrow> Holding (nat (pool_index ?cl)) index \<lparr>call_channel = c, components = parts,
        call_timeout = (if tmo > 0 then Some tmo else None), call_retry = (if retry > 0 then Some retry else None)\<rparr>)"
  have ch: "in_hand_of new = map_option (Pair ?i) conn" using p(3) by (simp add: new_def split: option.splits)
  have il: "?i < length (m_channel_list (get_cur_channel_pool ?cl))" by (rule client_entry [OF d(3) i a])
  have none: "in_hand_of (commands s ! j) = None" by (simp add: cmd)
  have "pool_ok connect ?i ((commands s)[j := new]) (Some (a, q))"
    by (rule pool_ok_borrow [OF d(6) [OF i, unfolded p(1)] p(2) jc none ch])
  from pools_put [OF inv jc il this] have po: "\<forall>i'<length nodes. pool_ok connect i' ((commands s)[j := new])
      (m_channel_list (get_cur_channel_pool (put_entry ?i (a, q) ?cl)) ! i')"
    by (simp add: cmd ch held_by_def split: option.splits)
  have "command_ok connect nodes (nat (pool_index ?cl)) (gets ! j) new"
    using p(3,5,6) by (simp add: new_def g split: option.splits)
  moreover have "log_ok connect nodes gets ((commands s)[j := new]) (issued s)"
    by (rule log_ok_quiet [OF d(7)]) (simp add: cmd new_def split: option.splits)
  ultimately have "run_inv connect nodes gets \<lparr>the_client = put_entry ?i (a, q) ?cl, commands = (commands s)[j := new], issued = issued s\<rparr>"
    by (intro run_invI [OF inv j p(4) put_entry_simps(1) [OF d(3)] _ po])
  moreover have "togo new < 3" by (simp add: togo_def new_def split: option.splits)
  ultimately show ?thesis unfolding goes_on_def cmd st new_def [symmetric] by (simp add: togo_def)
qed

lemma holding_goes_on:
  assumes inv: "run_inv connect nodes gets s" and j: "j < length gets" and cmd: "commands s ! j = Holding k index call"
  shows "goes_on connect nodes gets s j"
proof -
  note d = run_invD [OF inv]
  let ?cl = "the_client s" and ?new = "Called k index (call_channel call)"
  have c: "good_call connect nodes (gets ! j) call" using d(5) [OF j] cmd by simp
  have jc: "j < length (commands s)" using j d(4) by simp
  have "command_ok connect nodes (nat (pool_index ?cl)) (gets ! j) ?new"
    using d(5) [OF j] cmd by (cases "gets ! j") simp
  moreover have "pool_ok connect i ((commands s)[j := ?new]) (m_channel_list (get_cur_channel_pool ?cl) ! i)"
    if "i < length nodes" for i by (rule pool_ok_other [OF d(6) [OF that] jc]) (simp add: cmd held_by_def)
  moreover have "log_ok connect nodes gets ((commands s)[j := ?new]) (issued s @ [(j, call)])"
    by (rule log_ok_call [OF d(7,4) j _ _ c]) (simp_all add: cmd)
  ultimately have "run_inv connect nodes gets \<lparr>the_client = ?cl, commands = (commands s)[j := ?new], issued = issued s @ [(j, call)]\<rparr>"
    by (intro run_invI [OF inv j d(3) refl]) blast+
  then show ?thesis by (simp add: goes_on_def cmd togo_def)
qed

lemma called_goes_on:
  assumes inv: "run_inv connect nodes gets s" and j: "j < length gets" and cmd: "commands s ! j = Called k index c"
  shows "goes_on connect nodes gets s j"
proof -
  note d = run_invD [OF inv]
  let ?cl = "the_client s" and ?i = "unat index" and ?new = "Returned 0 :: 'a command"
  have c: "k = nat (pool_index ?cl)" "?i = node_of nodes (fst (gets ! j))" "reaches connect nodes (fst (gets ! j)) c"
    using d(5) [OF j] cmd by simp_all
  have i: "?i < length nodes" unfolding c(2) by (rule node_of_less [OF d(1)])
  have jc: "j < length (commands s)" using j d(4) by simp
  obtain a n where a: "node_address (nodes ! ?i) = Some a" and n: "connect a n = Some c" using c(2,3) by (auto simp: reaches_def)
  obtain p where p: "m_channel_list (get_cur_channel_pool ?cl) ! ?i = Some (a, p)"
    "serves connect nodes (put_entry ?i (a, snd (release (Some c) p)) ?cl)"
    and st: "command_step connect (Called (nat (pool_index ?cl)) index c) ?cl =
      Inr (Returned 0, [], put_entry ?i (a, snd (release (Some c) p)) ?cl)"
    by (rule called_step [OF d(3) i a n])
  have il: "?i < length (m_channel_list (get_cur_channel_pool ?cl))" by (rule client_entry [OF d(3) i a])
  have "pool_ok connect ?i ((commands s)[j := ?new]) (Some (a, snd (release (Some c) p)))"
    by (rule pool_ok_release [OF d(6) [OF i, unfolded p(1)] jc]) (simp_all add: cmd)
  from pools_put [OF inv jc il this] have po: "\<forall>i'<length nodes. pool_ok connect i' ((commands s)[j := ?new])
      (m_channel_list (get_cur_channel_pool (put_entry ?i (a, snd (release (Some c) p)) ?cl)) ! i')"
    by (simp add: cmd held_by_def)
  have "log_ok connect nodes gets ((commands s)[j := ?new]) (issued s)"
    by (rule log_ok_quiet [OF d(7)]) (simp add: cmd)
  then have "run_inv connect nodes gets \<lparr>the_client = put_entry ?i (a, snd (release (Some c) p)) ?cl,
      commands = (commands s)[j := ?new], issued = issued s\<rparr>"
    by (intro run_invI [OF inv j p(2) put_entry_simps(1) [OF d(3)] _ po]) simp_all
  then show ?thesis unfolding goes_on_def cmd c(1) st by (simp add: togo_def)
qed

lemma command_goes_on:
  assumes "run_inv connect nodes gets s" and "j < length gets" and "\<not> has_returned (commands s ! j)"
  shows "goes_on connect nodes gets s j"
  using asking_goes_on [OF assms(1,2)] holding_goes_on [OF assms(1,2)] called_goes_on [OF assms(1,2)] assms(3)
  by (cases "commands s ! j") auto

definition run_mu :: "'c client_run \<Rightarrow> nat" where
  "run_mu s = sum_list (map togo (commands s))"

lemma run_step_goes:
  assumes inv: "run_inv connect nodes gets s" and st: "run_step connect s t"
  shows "run_inv connect nodes gets t" and "run_mu t < run_mu s"
proof -
  from st obtain j cmd cs cl where j: "j < length (commands s)" "\<not> has_returned (commands s ! j)"
    and c: "command_step connect (commands s ! j) (the_client s) = Inr (cmd, cs, cl)"
    and t: "t = \<lparr>the_client = cl, commands = (commands s)[j := cmd], issued = issued s @ map (Pair j) cs\<rparr>"
    by (rule run_stepE)
  have "goes_on connect nodes gets s j" using command_goes_on [OF inv] j run_invD(4) [OF inv] by simp
  then have g: "togo cmd < togo (commands s ! j)" "run_inv connect nodes gets t" using c by (simp_all add: goes_on_def t)
  show "run_inv connect nodes gets t" by (rule g(2))
  have "sum_list (map togo ((commands s)[j := cmd])) + togo (commands s ! j) = sum_list (map togo (commands s)) + togo cmd"
    by (rule sum_list_list_update [OF j(1)])
  with g(1) show "run_mu t < run_mu s" by (simp add: run_mu_def t)
qed

interpretation gets: terminating_system "run_step connect" "run_inv connect nodes gs" run_mu for connect nodes gs
  by unfold_locales (fact run_step_goes)+

lemma held_ask [simp]: "held i (map ask_get gets) = {#}"
  by (induction gets) (auto simp: held_def held_by_def)

lemma not_sent_ask [simp]: "\<not> call_made (ask_get g)"
  by (cases g) simp

lemma start_run:
  assumes sv: "serves connect nodes cl" "nodes \<noteq> []" "\<forall>node\<in>set nodes. node_address node \<noteq> None"
    and eb: "list_all (entry_built connect) (m_channel_list (get_cur_channel_pool cl))"
    and inj: "\<forall>a b i j c. connect a i = Some c \<longrightarrow> connect b j = Some c \<longrightarrow> a = b \<and> i = j"
  shows "run_inv connect nodes gets (start_gets cl gets)" and "run_mu (start_gets cl gets) = 3 * length gets"
proof -
  have "pool_ok connect i (map ask_get gets) (m_channel_list (get_cur_channel_pool cl) ! i)" if i: "i < length nodes" for i
  proof -
    obtain a where "node_address (nodes ! i) = Some a" using sv(3) i by fastforce
    then have "i < length (m_channel_list (get_cur_channel_pool cl))" using client_entry [OF sv(1) i] by blast
    then have b: "entry_built connect (m_channel_list (get_cur_channel_pool cl) ! i)" using eb by (simp add: list_all_length)
    have "use_inv (connect a) \<lparr>pool_state = p, lent = {#}, failed = 0\<rparr>" if "new_pool (connect a) ps 100 = Inr p" for a p ps
      using new_pool_inv [OF that] inj unfolding unused_def by blast
    with b show ?thesis unfolding pool_ok_def entry_built_def held_ask by blast
  qed
  moreover have "list_all2 (command_ok connect nodes k) gets (map ask_get gets)" for k
    by (induction gets) auto
  moreover have "log_ok connect nodes gets (map ask_get gets) []"
    by (auto simp: log_ok_def split: prod.splits)
  ultimately show "run_inv connect nodes gets (start_gets cl gets)"
    using sv by (simp add: run_inv_def start_gets_def)
  show "run_mu (start_gets cl gets) = 3 * length gets"
    unfolding run_mu_def start_gets_def by (induction gets) (auto simp: togo_def)
qed

text \<open>A command more.\<close>

lemma held_add [simp]: "held i (cmds @ [ask_get g]) = held i cmds"
  by (cases g) (simp add: held_def held_by_def)

lemma run_inv_add:
  assumes inv: "run_inv connect nodes gets s"
  shows "run_inv connect nodes (gets @ [g]) (s\<lparr>commands := commands s @ [ask_get g]\<rparr>)"
proof -
  note d = run_invD [OF inv]
  have "pool_ok connect i (commands s @ [ask_get g]) e = pool_ok connect i (commands s) e" for i e by (simp add: pool_ok_def)
  moreover have "command_ok connect nodes k g (ask_get g)" for k by (cases g) simp
  moreover have "log_ok connect nodes (gets @ [g]) (commands s @ [ask_get g]) (issued s)"
    using d(4,7) by (fastforce simp: log_ok_def nth_append less_Suc_eq)
  ultimately show ?thesis using inv by (auto simp: run_inv_def intro: list_all2_appendI)
qed

lemma command_step_made:
  assumes "command_step connect cmd cl = Inr (cmd', cs, cl')" and "\<not> has_returned cmd"
  shows "call_made cmd' \<longleftrightarrow> call_made cmd \<or> cs \<noteq> []" and "cs \<noteq> [] \<Longrightarrow> \<not> call_made cmd"
  using assms by (cases cmd; auto simp: Let_def res_simps split: option.splits)+

section \<open>Channels in hand\<close>

lemma held_twice:
  assumes "j < length cmds" and "l < length cmds" and "j \<noteq> l"
    and "in_hand_of (cmds ! j) = Some (i, c)" and "in_hand_of (cmds ! l) = Some (i, c)"
  shows "2 \<le> count (held i cmds) c"
proof -
  let ?R = "Returned 0 :: 'a command"
  have "held i (cmds[j := ?R]) + {#c#} = held i cmds"
    using held_update [OF assms(1), of i ?R] assms(4) by (simp add: held_by_def)
  moreover have "held i (cmds[j := ?R, l := ?R]) + {#c#} = held i (cmds[j := ?R])"
    using held_update [of l "cmds[j := ?R]" i ?R] assms by (simp add: held_by_def)
  ultimately have "held i cmds = held i (cmds[j := ?R, l := ?R]) + {#c, c#}" by (metis add_mset_add_single union_assoc union_mset_add_mset_left union_mset_add_mset_right)
  then show ?thesis by simp
qed

lemma held_one:
  assumes "j < length cmds" and "in_hand_of (cmds ! j) = Some (i, c)"
  shows "c \<in># held i cmds"
  using held_update [OF assms(1), of i "Returned 0"] assms(2) by (simp add: held_by_def) (metis union_single_eq_member)

text \<open>A channel in hand is one of the node of the command, and of no other command; it is not idle.\<close>

lemma in_hand:
  assumes inv: "run_inv connect nodes gets s" and j: "j < length gets" and c: "in_hand_of (commands s ! j) = Some (i, c)"
  shows "i = node_of nodes (fst (gets ! j))" and "reaches connect nodes (fst (gets ! j)) c"
    and "\<forall>x. count (held i (commands s)) x \<le> 1"
    and "\<exists>a p. m_channel_list (get_cur_channel_pool (the_client s)) ! i = Some (a, p) \<and> c \<notin> set (conn_list p)"
proof -
  note d = run_invD [OF inv]
  show i: "i = node_of nodes (fst (gets ! j))" and "reaches connect nodes (fst (gets ! j)) c"
    using d(5) [OF j] c by (cases "commands s ! j"; cases "gets ! j"; auto)+
  have il: "i < length nodes" unfolding i by (rule node_of_less [OF d(1)])
  then obtain a where "node_address (nodes ! i) = Some a" using d(2) by blast
  then obtain p where p: "m_channel_list (get_cur_channel_pool (the_client s)) ! i = Some (a, p)"
    using client_entry [OF d(3) il] by blast
  obtain n where "use_inv (connect a) \<lparr>pool_state = p, lent = held i (commands s), failed = n\<rparr>"
    using d(6) [OF il] p by (auto simp: pool_ok_def)
  then have one: "count (mset (conn_list p)) x + count (held i (commands s)) x \<le> 1" for x by (simp add: use_inv_def)
  show "\<forall>x. count (held i (commands s)) x \<le> 1" using one add_leD2 by blast
  have "c \<in># held i (commands s)" using held_one [OF _ c] j d(4) by simp
  then have "1 \<le> count (held i (commands s)) c" by simp
  then have "count (mset (conn_list p)) c = 0" using one [of c] by linarith
  then show "\<exists>a p. m_channel_list (get_cur_channel_pool (the_client s)) ! i = Some (a, p) \<and> c \<notin> set (conn_list p)"
    using p by (metis count_mset_0_iff)
qed

lemma one_holder:
  assumes inv: "run_inv connect nodes gets s" and d: "distinct (map node_address nodes)"
    and inj: "\<forall>a b i j c. connect a i = Some c \<longrightarrow> connect b j = Some c \<longrightarrow> a = b \<and> i = j"
    and j: "j < length gets" "in_hand_of (commands s ! j) = Some (i, c)"
    and l: "l < length gets" "in_hand_of (commands s ! l) = Some (i', c)"
  shows "j = l"
proof (rule ccontr)
  assume "j \<noteq> l"
  note hj = in_hand [OF inv j] and hl = in_hand [OF inv l]
  have "i < length nodes" "i' < length nodes" unfolding hj(1) hl(1) by (rule node_of_less [OF run_invD(1) [OF inv]])+
  moreover have "node_address (nodes ! i) = node_address (nodes ! i')"
    using hj(1,2) hl(1,2) inj by (fastforce simp: reaches_def)
  ultimately have "i = i'" using d by (metis length_map nth_eq_iff_index_eq nth_map)
  with held_twice [of j "commands s" l i c] j l \<open>j \<noteq> l\<close> run_invD(4) [OF inv] hj(3) show False
    by (metis Suc_1 not_less_eq_eq)
qed

lemma run_stopped:
  assumes inv: "run_inv connect nodes gets s" and stop: "\<And>t. \<not> run_step connect s t"
  shows "set (commands s) \<subseteq> {Returned 0, Returned (-1)}"
    and "\<not> unreachable connect \<Longrightarrow> commands s = replicate (length gets) (Returned 0)"
proof -
  note d = run_invD [OF inv]
  have ret: "has_returned (commands s ! j)" if "j < length gets" for j
    using command_goes_on [OF inv that] run_step.intros [of j s connect] stop that d(4) by (force simp: goes_on_def)
  have r: "commands s ! j = Returned 0 \<or> commands s ! j = Returned (-1) \<and> unreachable connect" if "j < length gets" for j
    using ret [OF that] d(5) [OF that] by (cases "commands s ! j") auto
  then show "set (commands s) \<subseteq> {Returned 0, Returned (-1)}" using d(4) by (fastforce simp: in_set_conv_nth)
  show "commands s = replicate (length gets) (Returned 0)" if "\<not> unreachable connect"
    using r that d(4) by (intro nth_equalityI) force+
qed

text \<open>Where all have returned, each was sent, and no pool counts a channel as lent.\<close>

definition nothing_lent :: "'c redis_client \<Rightarrow> bool" where
  "nothing_lent cl \<longleftrightarrow> (\<forall>(a, p)\<in>Option.these (set (m_channel_list (get_cur_channel_pool cl))). borrow_size p = 0)"

lemma all_returned:
  assumes inv: "run_inv connect nodes gets s" and stop: "\<forall>t. \<not> run_step connect s t" and up: "\<forall>a k. connect a k \<noteq> None"
  shows "commands s = replicate (length gets) (Returned 0)" and "fst ` set (issued s) = {..<length gets}"
    and "nothing_lent (the_client s)"
proof -
  note d = run_invD [OF inv]
  have nu: "\<not> unreachable connect" using up by (simp add: unreachable_def)
  show c: "commands s = replicate (length gets) (Returned 0)" using run_stopped(2) [OF inv _ nu] stop by blast
  show "fst ` set (issued s) = {..<length gets}" using d(7) by (force simp: log_ok_def c)
  have "sum_list (replicate k {#}) = {#}" for k by (induction k) auto
  then have h: "held i (commands s) = {#}" for i by (simp add: c held_def held_by_def)
  have "borrow_size p = 0" if "Some (a, p) \<in> set (m_channel_list (get_cur_channel_pool (the_client s)))" for a p
  proof -
    have "length (m_channel_list (get_cur_channel_pool (the_client s))) = length nodes"
      using d(3) by (simp add: serves_def pool_serves_def list_all2_conv_all_nth)
    with that obtain i where "i < length nodes" "m_channel_list (get_cur_channel_pool (the_client s)) ! i = Some (a, p)"
      unfolding in_set_conv_nth [of "Some (a, p)"] by metis
    from d(6) [OF this(1)] this(2) nu show ?thesis by (auto simp: pool_ok_def use_inv_def h)
  qed
  then show "nothing_lent (the_client s)"
    by (auto simp: nothing_lent_def in_these_eq)
qed

section \<open>The property\<close>

text \<open>C14: Any number of GETs run at the same time on a client built from the reply of a cluster, under any interleaving:
  they take at most three steps each; a channel is in the hands of one command at a time, and not idle then; every call
  that is made is the GET of a command that makes no other, on a channel to the node that owns the slot of its key; they
  all return, and if channels can be opened, all of them made their call and every pool counts no channel as lent. The node
  that owns a slot is the last one of the reply that claims it.\<close>

theorem client_concurrent:
  assumes "parse_lines b (split b [CHR 0x0A] (trim b text)) = Inr (valid, nodes)"
    and "nodes \<noteq> []" and "length nodes < 2 ^ 31" and "ranges_ok nodes"
    and "\<forall>node\<in>set nodes. node_address node \<noteq> None" and "distinct (map node_address nodes)"
    and "unat (word_of_int psize :: 32 word) \<le> 100"
    and "\<forall>a b i j c. connect a i = Some c \<longrightarrow> connect b j = Some c \<longrightarrow> a = b \<and> i = j"
    and "new_client b connect (Nodes text) addr bal timeout psize mpsize retry = Inr cl"
    and "(run_step connect ^^ m) (start_gets cl gets) s"
  shows "m \<le> 3 * length gets \<and>
    (\<forall>j<length gets. \<forall>i c. in_hand_of (commands s ! j) = Some (i, c) \<longrightarrow>
       (\<forall>l<length gets. \<forall>i'. in_hand_of (commands s ! l) = Some (i', c) \<longrightarrow> j = l) \<and>
       (\<exists>a p. m_channel_list (get_cur_channel_pool (the_client s)) ! i = Some (a, p) \<and> c \<notin> set (conn_list p))) \<and>
    distinct (map fst (issued s)) \<and>
    (\<forall>(j, call)\<in>set (issued s). j < length gets \<and> good_call connect nodes (gets ! j) call) \<and>
    ((\<forall>t. \<not> run_step connect s t) \<longrightarrow> set (commands s) \<subseteq> {Returned 0, Returned (-1)} \<and>
      ((\<forall>a k. connect a k \<noteq> None) \<longrightarrow> commands s = replicate (length gets) (Returned 0) \<and>
        fst ` set (issued s) = {..<length gets} \<and>
        nothing_lent (the_client s)))"
proof -
  have "\<forall>node\<in>set nodes. port node \<noteq> None" using assms(5) by (auto simp: node_address_def split: option.splits)
  from new_client_serves [where connect = connect and addr = addr and bal = bal and timeout = timeout
      and mpsize = mpsize and retry = retry, OF assms(1-4) this assms(7)] assms(9)
  have sv: "serves connect nodes cl" "list_all (entry_built connect) (m_channel_list (get_cur_channel_pool cl))" by auto
  note st = start_run [OF sv(1) assms(2,5) sv(2) assms(8)]
  have inv: "run_inv connect nodes gets s" by (rule gets.relpow_inv [OF assms(10) st(1)])
  note d = run_invD [OF inv]
  have "m \<le> 3 * length gets" using gets.run_bound [OF assms(10) st(1)] st(2) [of gets] by linarith
  moreover have "j = l" if "j < length gets" "in_hand_of (commands s ! j) = Some (i, c)"
    "l < length gets" "in_hand_of (commands s ! l) = Some (i', c)" for j l i i' c
    by (rule one_holder [OF inv assms(6,8) that])
  moreover note in_hand(4) [OF inv]
  moreover have "distinct (map fst (issued s))" "\<forall>(j, call)\<in>set (issued s). j < length gets \<and> good_call connect nodes (gets ! j) call"
    using d(7) by (simp_all add: log_ok_def)
  moreover have "set (commands s) \<subseteq> {Returned 0, Returned (-1)}" if "\<forall>t. \<not> run_step connect s t"
    using run_stopped(1) [OF inv] that by blast
  moreover have "commands s = replicate (length gets) (Returned 0)" "fst ` set (issued s) = {..<length gets}"
    "nothing_lent (the_client s)"
    if "\<forall>t. \<not> run_step connect s t" "\<forall>a k. connect a k \<noteq> None"
    using all_returned [OF inv] that by auto
  ultimately show ?thesis by blast
qed

lemma masters_addresses:
  "\<forall>node\<in>set [master1, master2]. node_address node \<noteq> None" "distinct (map node_address [master1, master2])"
  by (simp_all add: node_address_def master1_def master2_def to_string.simps digit_char_def)

theorem client_concurrent_witness:
  "\<exists>cl m s. new_client boost_doc (\<lambda>a k. Some (a, k)) (Nodes two_masters) ''10.0.0.1:7000'' [] 100 10 20 0 = Inr cl \<and>
     (run_step (\<lambda>a k. Some (a, k)) ^^ m) (start_gets cl [(''foo'', 50, -1), (''foo'', 0, 3)]) s \<and> m \<le> 6 \<and>
     commands s = [Returned 0, Returned 0] \<and> fst ` set (issued s) = {0, 1}"
proof -
  let ?connect = "\<lambda>(a :: string) (k :: nat). Some (a, k)" and ?gets = "[(''foo'', 50, -1), (''foo'', 0, 3)] :: get list"
  have inj: "\<forall>a b i j c. ?connect a i = Some c \<longrightarrow> ?connect b j = Some c \<longrightarrow> a = b \<and> i = j" by simp
  obtain cl where cl: "new_client boost_doc ?connect (Nodes two_masters) ''10.0.0.1:7000'' [] 100 10 20 0 = Inr cl"
    "serves ?connect [master1, master2] cl" "list_all (entry_built ?connect) (m_channel_list (get_cur_channel_pool cl))"
    using new_client_serves [OF two_masters_parse two_masters_ok, of ?connect] by blast
  obtain s where s: "(run_step ?connect)\<^sup>*\<^sup>* (start_gets cl ?gets) s" "\<forall>t. \<not> run_step ?connect s t"
    using gets.ends [OF start_run(1) [OF cl(2) two_masters_ok(1) masters_addresses(1) cl(3) inj]] by blast
  obtain m where m: "(run_step ?connect ^^ m) (start_gets cl ?gets) s" using rtranclp_imp_relpowp [OF s(1)] by blast
  have "m \<le> 6 \<and> commands s = [Returned 0, Returned 0] \<and> fst ` set (issued s) = {0, 1}"
    using client_concurrent [OF two_masters_parse two_masters_ok(1-3) masters_addresses two_masters_ok(5) inj cl(1) m] s(2)
    by (auto simp: numeral_eq_Suc lessThan_Suc)
  with cl(1) m show ?thesis by blast
qed

end
