(* ===== verification/RedisSend.thy ===== *)
theory RedisSend
  imports FetchSpec ClientRun
begin

text \<open>
  \<open>RedisService::do_service\<close> on the clients it sends with, for a service that fetches its keys one by one
  (\<open>enable_multi_get\<close> is false): the call of \<open>fetch\<close> in the loop over the keys is the command of a \<open>RedisClient\<close>, whose
  steps interleave with the callbacks of the request and with whatever other commands the clients run.
\<close>

section \<open>Steps\<close>

text \<open>A command is named by the id of its client and its number there.\<close>

type_synonym command_id = "string \<times> nat"

record ('m, 'c) sending =
  service :: "'m fetch_run"
  client_runs :: "string \<Rightarrow> 'c client_run"
  mine :: "command_id \<rightharpoonup> info_ptr \<times> nat" \<comment> \<open>the \<open>FetchInfo\<close> and the position of the key of a command of this request\<close>
  waits :: "nat \<rightharpoonup> command_id" \<comment> \<open>the call of \<open>fetch\<close> a thread is in\<close>

definition get_of :: "fetch_info list \<Rightarrow> info_ptr \<Rightarrow> nat \<Rightarrow> get" where
  "get_of fis p i = (keys (fis ! p) ! i, -1, -1)"

definition add_get :: "get \<Rightarrow> 'c client_run \<Rightarrow> 'c client_run" where
  "add_get g r = r\<lparr>commands := commands r @ [ask_get g]\<rparr>"

definition advance :: "nat \<Rightarrow> 'c command \<times> 'c redis_call list \<times> 'c redis_client \<Rightarrow> 'c client_run \<Rightarrow> 'c client_run" where
  "advance j x r = (case x of (cmd, cs, cl) \<Rightarrow>
     \<lparr>the_client = cl, commands = (commands r)[j := cmd], issued = issued r @ map (Pair j) cs\<rparr>)"

definition in_progress :: "('m, 'c) sending \<Rightarrow> command_id \<Rightarrow> bool" where
  "in_progress s x \<longleftrightarrow> (case x of (c, j) \<Rightarrow>
     j < length (commands (client_runs s c)) \<and> \<not> has_returned (commands (client_runs s c) ! j))"

definition command_of :: "('m, 'c) sending \<Rightarrow> command_id \<Rightarrow> 'c command" where
  "command_of s x = (case x of (c, j) \<Rightarrow> commands (client_runs s c) ! j)"

inductive send_step ::
  "('m, 'c) service_env \<Rightarrow> net \<Rightarrow> (string \<Rightarrow> string \<Rightarrow> nat \<Rightarrow> 'c option) \<Rightarrow> fetch_info list \<Rightarrow>
   ('m, 'c) sending \<Rightarrow> ('m, 'c) sending \<Rightarrow> bool"
  for env net connect fis
where
  work: "k < length (threads (service s)) \<Longrightarrow> threads (service s) ! k = op # rest \<Longrightarrow> (\<forall>p i. op \<noteq> Issue p i) \<Longrightarrow>
    \<not> blocked op (service s) \<Longrightarrow> thread_step env net fis k (service s) = Inr t \<Longrightarrow>
    send_step env net connect fis s (s\<lparr>service := t\<rparr>)"
| call_fetch: "k < length (threads (service s)) \<Longrightarrow> threads (service s) ! k = Issue p i # rest \<Longrightarrow> waits s k = None \<Longrightarrow>
    c = redis_client_id (fis ! p) \<Longrightarrow> j = length (commands (client_runs s c)) \<Longrightarrow>
    send_step env net connect fis s
      (s\<lparr>client_runs := (client_runs s)(c := add_get (get_of fis p i) (client_runs s c)),
         mine := (mine s)((c, j) \<mapsto> (p, i)), waits := (waits s)(k \<mapsto> (c, j))\<rparr>)"
| in_fetch: "k < length (threads (service s)) \<Longrightarrow> threads (service s) ! k = Issue p i # rest \<Longrightarrow> waits s k = Some (c, j) \<Longrightarrow>
    in_progress s (c, j) \<Longrightarrow> command_step (connect c) (command_of s (c, j)) (the_client (client_runs s c)) = Inr (cmd, cs, cl) \<Longrightarrow>
    send_step env net connect fis s
      (s\<lparr>client_runs := (client_runs s)(c := advance j (cmd, cs, cl) (client_runs s c)),
         service := (service s)\<lparr>threads := threads (service s) @ (if cs = [] then [] else [[Reply p i, Deep p True]])\<rparr>\<rparr>)"
| return: "k < length (threads (service s)) \<Longrightarrow> threads (service s) ! k = Issue p i # rest \<Longrightarrow> waits s k = Some x \<Longrightarrow>
    command_of s x = Returned ret \<Longrightarrow>
    send_step env net connect fis s
      (s\<lparr>service := (service s)\<lparr>threads := (threads (service s))[k := (if ret = -1 then [Deep p False] else []) @ rest]\<rparr>,
         waits := (waits s)(k := None)\<rparr>)"
| other: "clients env c \<noteq> None \<Longrightarrow> mine s (c, j) = None \<Longrightarrow> in_progress s (c, j) \<Longrightarrow>
    command_step (connect c) (command_of s (c, j)) (the_client (client_runs s c)) = Inr y \<Longrightarrow>
    send_step env net connect fis s (s\<lparr>client_runs := (client_runs s)(c := advance j y (client_runs s c))\<rparr>)"

text \<open>The clients run other commands already.\<close>

definition start_sending :: "('m, 'c) service_env \<Rightarrow> (string \<Rightarrow> get list) \<Rightarrow> 'm fetch_run \<Rightarrow> ('m, 'c) sending" where
  "start_sending env others u =
     \<lparr>service = u, client_runs = (\<lambda>c. start_gets (the (clients env c)) (others c)), mine = Map.empty, waits = Map.empty\<rparr>"

section \<open>The service without its clients\<close>

text \<open>Seen from the service, a batch is sent when \<open>CallMethod\<close> was called.\<close>

definition call_seen :: "('m, 'c) sending \<Rightarrow> nat \<Rightarrow> bool" where
  "call_seen s k \<longleftrightarrow> (\<exists>x. waits s k = Some x \<and> call_made (command_of s x))"

definition seen :: "('m, 'c) sending \<Rightarrow> nat \<Rightarrow> fetch_op list" where
  "seen s k = (if call_seen s k then tl (threads (service s) ! k) else threads (service s) ! k)"

definition view_service :: "('m, 'c) sending \<Rightarrow> 'm fetch_run" where
  "view_service s = (service s)\<lparr>threads := map (seen s) [0..<length (threads (service s))]\<rparr>"

lemma view_threads [simp]:
  "length (threads (view_service s)) = length (threads (service s))"
  "k < length (threads (service s)) \<Longrightarrow> threads (view_service s) ! k = seen s k"
  "fetch_log (view_service s) = fetch_log (service s)"
  by (simp_all add: view_service_def)

lemma view_eqI:
  assumes "length (threads (service t)) = length T" and "\<And>k. k < length T \<Longrightarrow> seen t k = T ! k"
  shows "view_service t = (service t)\<lparr>threads := T\<rparr>"
proof -
  have "map (seen t) [0..<length (threads (service t))] = T" by (rule nth_equalityI) (use assms in auto)
  then show ?thesis by (simp add: view_service_def)
qed

text \<open>The effects of a thread do not look at the threads.\<close>

lemma op_step_threads:
  "op_step env net fis op (s\<lparr>threads := T\<rparr>) = map_sum id (\<lambda>(new, started, t). (new, started, t\<lparr>threads := T\<rparr>)) (op_step env net fis op s)"
  by (cases op)
    (auto simp: bind_res_def Let_def parse_cached_def fetch_sub1_def split: sum.splits prod.splits cxx_error.splits option.splits list.splits)

lemma op_step_threads_same:
  "op_step env net fis op s = Inr (new, started, t) \<Longrightarrow> threads t = threads s"
  by (cases op)
    (auto simp: res_simps Let_def parse_cached_def split: sum.splits prod.splits cxx_error.splits option.splits list.splits if_splits)

lemma blocked_threads: "blocked op (s\<lparr>threads := T\<rparr>) = blocked op s"
  by (simp add: blocked_def)

lemma no_thread_started:
  "op_step env net fis op s = Inr (new, started, t) \<Longrightarrow> (\<forall>p i. op \<noteq> Issue p i) \<Longrightarrow> started = []"
  by (cases op)
    (auto simp: res_simps Let_def parse_cached_def split: sum.splits prod.splits cxx_error.splits option.splits list.splits if_splits)

lemma op_step_view:
  assumes "op_step env net fis op (service s) = Inr (new, started, u)"
  shows "op_step env net fis op (view_service s) =
    Inr (new, started, u\<lparr>threads := map (seen s) [0..<length (threads (service s))]\<rparr>)"
  unfolding view_service_def op_step_threads assms by simp

section \<open>What the steps keep\<close>

definition clients_ok ::
  "('m, 'c) service_env \<Rightarrow> (string \<Rightarrow> string \<Rightarrow> nat \<Rightarrow> 'c option) \<Rightarrow> (string \<Rightarrow> node_info list) \<Rightarrow> fetch_info list \<Rightarrow>
   ('m, 'c) sending \<Rightarrow> bool"
where
  "clients_ok env connect nodes fis s \<longleftrightarrow> (\<forall>c. clients env c \<noteq> None \<longrightarrow>
     (\<exists>gets. run_inv (connect c) (nodes c) gets (client_runs s c) \<and>
       (\<forall>j p i. mine s (c, j) = Some (p, i) \<longrightarrow> j < length gets \<and> gets ! j = get_of fis p i)))"

definition waits_ok :: "('m, 'c) service_env \<Rightarrow> fetch_info list \<Rightarrow> ('m, 'c) sending \<Rightarrow> bool" where
  "waits_ok env fis s \<longleftrightarrow>
     (\<forall>k c j. waits s k = Some (c, j) \<longrightarrow> k < length (threads (service s)) \<and>
       (\<exists>p i rest. threads (service s) ! k = Issue p i # rest \<and> c = redis_client_id (fis ! p) \<and>
         clients env c \<noteq> None \<and> mine s (c, j) = Some (p, i))) \<and>
     (\<forall>k k' x. waits s k = Some x \<longrightarrow> waits s k' = Some x \<longrightarrow> k = k')"

fun reply_of :: "fetch_op \<Rightarrow> (info_ptr \<times> nat) multiset" where
  "reply_of (Reply p i) = {#(p, i)#}"
| "reply_of _ = {#}"

definition answerable :: "'m fetch_run \<Rightarrow> (info_ptr \<times> nat) multiset" where
  "answerable u = replied (fetch_log u) + (\<Sum>op\<in>#ops (threads u). reply_of op)"

definition made_calls :: "('m, 'c) sending \<Rightarrow> command_id set" where
  "made_calls s = {x \<in> dom (mine s). call_made (command_of s x)}"

definition calls_ok :: "('m, 'c) service_env \<Rightarrow> fetch_info list \<Rightarrow> ('m, 'c) sending \<Rightarrow> bool" where
  \<comment> \<open>a command of the request is waited for or over; the batches that were or will be answered are those sent\<close>
  "calls_ok env fis s \<longleftrightarrow> finite (dom (mine s)) \<and>
     (\<forall>c j p i. mine s (c, j) = Some (p, i) \<longrightarrow> c = redis_client_id (fis ! p) \<and> clients env c \<noteq> None \<and>
       ((\<exists>k. waits s k = Some (c, j)) \<or> command_of s (c, j) = Returned 0)) \<and>
     image_mset (\<lambda>x. the (mine s x)) (mset_set (made_calls s)) = answerable (service s)"

definition send_inv ::
  "('m, 'c) service_env \<Rightarrow> net \<Rightarrow> (string \<Rightarrow> string \<Rightarrow> nat \<Rightarrow> 'c option) \<Rightarrow> (string \<Rightarrow> node_info list) \<Rightarrow> fetch_info list \<Rightarrow>
   cache_data_item list \<Rightarrow> 'm cache_manager \<Rightarrow> 'm cache_manager \<Rightarrow> ('m, 'c) sending \<Rightarrow> bool"
where
  "send_inv env net connect nodes fis cdv inst inst' s \<longleftrightarrow>
     finite (dom (clients env)) \<and> (\<forall>p i. send_ret net p i = 0) \<and> (\<forall>c a n. connect c a n \<noteq> None) \<and>
     join_inv env net fis cdv inst inst' (view_service s) \<and>
     clients_ok env connect nodes fis s \<and> waits_ok env fis s \<and> calls_ok env fis s"

lemma send_invD:
  assumes "send_inv env net connect nodes fis cdv inst inst' s"
  shows "send_ret net p i = 0" and "\<not> unreachable (connect c)"
    and "join_inv env net fis cdv inst inst' (view_service s)"
    and "clients_ok env connect nodes fis s" and "waits_ok env fis s" and "calls_ok env fis s"
    and "finite (dom (clients env))"
  using assms by (auto simp: send_inv_def unreachable_def)

lemma clients_okD:
  assumes "clients_ok env connect nodes fis s" and "clients env c \<noteq> None"
  obtains gets where "run_inv (connect c) (nodes c) gets (client_runs s c)"
    and "\<forall>j p i. mine s (c, j) = Some (p, i) \<longrightarrow> j < length gets \<and> gets ! j = get_of fis p i"
    and "length (commands (client_runs s c)) = length gets"
proof -
  obtain gets where "run_inv (connect c) (nodes c) gets (client_runs s c)"
    "\<forall>j p i. mine s (c, j) = Some (p, i) \<longrightarrow> j < length gets \<and> gets ! j = get_of fis p i"
    using assms unfolding clients_ok_def by blast
  with that run_invD(4) show ?thesis by blast
qed

lemma waits_okD:
  assumes "waits_ok env fis s" and "waits s k = Some (c, j)" and "threads (service s) ! k = op # rest"
  obtains p i where "op = Issue p i" and "c = redis_client_id (fis ! p)" and "clients env c \<noteq> None"
    and "mine s (c, j) = Some (p, i)" and "k < length (threads (service s))"
proof -
  have "k < length (threads (service s)) \<and> (\<exists>p i rest. threads (service s) ! k = Issue p i # rest \<and>
      c = redis_client_id (fis ! p) \<and> clients env c \<noteq> None \<and> mine s (c, j) = Some (p, i))"
    using assms(1,2) unfolding waits_ok_def by blast
  with that assms(3) show ?thesis by auto
qed

lemma mine_bound:
  assumes "clients_ok env connect nodes fis s" and "clients env c \<noteq> None" and "mine s (c, j) = Some (p, i)"
  shows "j < length (commands (client_runs s c))"
  by (rule clients_okD [OF assms(1,2)]) (use assms(3) in fastforce)

text \<open>A command moves alone.\<close>

lemma advance_run:
  assumes "command_step connect (commands r ! j) (the_client r) = Inr y" and "j < length (commands r)"
    and "\<not> has_returned (commands r ! j)"
  shows "run_step connect r (advance j y r)"
  using run_step.intros [OF assms(2,3)] assms(1) by (cases y) (simp add: advance_def)

lemma advance_command:
  assumes "client_runs t = (client_runs s)(c := advance j (cmd, cs, cl) (client_runs s c))" and "in_progress s (c, j)"
  shows "command_of t (c, j) = cmd" and "x \<noteq> (c, j) \<Longrightarrow> command_of t x = command_of s x"
  using assms by (cases x; auto simp: command_of_def advance_def in_progress_def nth_list_update split: if_splits)+

lemma add_command:
  assumes "client_runs t = (client_runs s)(c := add_get g (client_runs s c))"
  shows "command_of t (c, length (commands (client_runs s c))) = ask_get g"
    and "snd x < length (commands (client_runs s (fst x))) \<Longrightarrow> command_of t x = command_of s x"
  using assms by (auto simp: command_of_def add_get_def nth_append split: prod.splits)

text \<open>An \<open>Issue\<close> the service sees is of a client it has.\<close>

lemma issue_client:
  assumes inv: "join_inv env net fis cdv inst inst' (view_service s)" and k: "k < length (threads (service s))"
    and th: "threads (service s) ! k = Issue p i # rest" and nm: "\<not> call_seen s k"
  shows "clients env (redis_client_id (fis ! p)) \<noteq> None"
proof -
  have "threads (view_service s) ! k = Issue p i # rest" using k th nm by (simp add: seen_def)
  then have "Issue p i \<in># ops (threads (view_service s))" using k nth_mem [of k "threads (view_service s)"]
    by (metis in_multiset_in_set list.set_intros(1) set_concat UN_I view_threads(1))
  moreover have "\<forall>op\<in>#ops (threads (view_service s)). op_ok env net fis op"
    using join_invD(2) [OF inv] unfolding counting_def by blast
  ultimately have "op_ok env net fis (Issue p i)" by blast
  then show ?thesis by (auto simp: starts_of_def served_def get_client_def split: if_splits)
qed

section \<open>The service does not notice its clients\<close>

lemma view_same:
  assumes "service t = service s" and "\<And>k. k < length (threads (service s)) \<Longrightarrow> call_seen t k = call_seen s k"
  shows "view_service t = view_service s"
  unfolding view_service_def using assms by (auto simp: seen_def)

lemma made_same:
  "(\<forall>x. waits s k = Some x \<longrightarrow> command_of t x = command_of s x) \<Longrightarrow> waits t k = waits s k \<Longrightarrow> call_seen t k = call_seen s k"
  by (auto simp: call_seen_def)

lemma view_work:
  assumes inv: "send_inv env net connect nodes fis cdv inst inst' s"
    and work: "t = s\<lparr>service := u\<rparr>" "k < length (threads (service s))" "threads (service s) ! k = op # rest"
      "\<forall>p i. op \<noteq> Issue p i" "\<not> blocked op (service s)" "thread_step env net fis k (service s) = Inr u"
  shows "fetch_step env net fis (view_service s) (view_service t)" and "waits s k = None"
    and "call_seen t k' = call_seen s k'" and "length (threads u) = length (threads (service s))"
proof -
  note d = send_invD [OF inv]
  show w: "waits s k = None"
    using waits_okD [OF d(5) _ work(3)] work(4) by (metis not_None_eq surj_pair)
  have sk: "seen s k = op # rest" by (simp add: seen_def call_seen_def w work(3))
  obtain new started v where step: "op_step env net fis op (service s) = Inr (new, started, v)"
    and u': "u = v\<lparr>threads := (threads (service s))[k := new @ rest] @ started\<rparr>"
    using work(3,6) by (auto simp: thread_step_def res_simps)
  have ns: "started = []" by (rule no_thread_started [OF step work(4)])
  have u: "u = v\<lparr>threads := (threads (service s))[k := new @ rest]\<rparr>" using u' ns by simp
  let ?T = "(map (seen s) [0..<length (threads (service s))])[k := new @ rest]"
  have "seen t k' = ?T ! k'" if "k' < length ?T" for k'
    using that w by (cases "k' = k") (auto simp: work(1) u seen_def call_seen_def command_of_def)
  then have s': "view_service t = u\<lparr>threads := ?T\<rparr>" using view_eqI [of t ?T] by (simp add: work(1) u)
  have "thread_step env net fis k (view_service s) = Inr (view_service t)"
    using op_step_view [OF step] work(2) sk by (simp add: thread_step_def s' u ns) (simp add: view_service_def)
  then show "fetch_step env net fis (view_service s) (view_service t)"
    by (intro fetch_step.intros [of k _ op rest]) (use work(2,5) sk in \<open>simp_all add: view_service_def blocked_threads\<close>)
  show "call_seen t k' = call_seen s k'" by (rule made_same) (simp_all add: work(1) command_of_def)
  show "length (threads u) = length (threads (service s))" by (simp add: u)
qed

lemma view_call_fetch:
  assumes inv: "send_inv env net connect nodes fis cdv inst inst' s"
    and call_fetch: "t = s\<lparr>client_runs := (client_runs s)(c := add_get (get_of fis p i) (client_runs s c)),
        mine := (mine s)((c, j) \<mapsto> (p, i)), waits := (waits s)(k \<mapsto> (c, j))\<rparr>"
      "k < length (threads (service s))" "threads (service s) ! k = Issue p i # rest" "waits s k = None"
      "c = redis_client_id (fis ! p)" "j = length (commands (client_runs s c))"
  shows "view_service t = view_service s" and "call_seen t k' = call_seen s k'" and "clients env c \<noteq> None"
proof -
  note d = send_invD [OF inv]
  show "clients env c \<noteq> None"
    using issue_client [OF d(3) call_fetch(2,3)] call_fetch(4,5) by (simp add: call_seen_def)
  have m: "call_seen t k' = call_seen s k'" for k'
  proof (cases "k' = k")
    case True
    then show ?thesis using call_fetch(4) add_command(1) [of t s c "get_of fis p i"] by (simp add: call_seen_def call_fetch(1,6))
  next
    case False
    have "command_of t x = command_of s x" if w: "waits s k' = Some x" for x
    proof -
      obtain c' j' where x: "x = (c', j')" by (cases x)
      obtain p' i' where "clients env c' \<noteq> None" "mine s (c', j') = Some (p', i')"
        using d(5) w unfolding waits_ok_def x by blast
      from mine_bound [OF d(4) this] show ?thesis
        using add_command(2) [of t s c "get_of fis p i" x] by (simp add: call_fetch(1) x)
    qed
    then show ?thesis using False by (auto simp: call_seen_def call_fetch(1))
  qed
  then show "view_service t = view_service s" by (intro view_same) (simp_all add: call_fetch(1))
  show "call_seen t k' = call_seen s k'" by (rule m)
qed

lemma view_in_fetch:
  assumes inv: "send_inv env net connect nodes fis cdv inst inst' s"
    and in_fetch: "t = s\<lparr>client_runs := (client_runs s)(c := advance j (cmd, cs, cl) (client_runs s c)),
        service := (service s)\<lparr>threads := threads (service s) @ (if cs = [] then [] else [[Reply p i, Deep p True]])\<rparr>\<rparr>"
      "k < length (threads (service s))" "threads (service s) ! k = Issue p i # rest" "waits s k = Some (c, j)" "in_progress s (c, j)"
      "command_step (connect c) (command_of s (c, j)) (the_client (client_runs s c)) = Inr (cmd, cs, cl)"
  shows "k' \<noteq> k \<Longrightarrow> call_seen t k' = call_seen s k'" and "call_seen t k \<longleftrightarrow> call_seen s k \<or> cs \<noteq> []"
    and "cs = [] \<Longrightarrow> view_service t = view_service s"
    and "cs \<noteq> [] \<Longrightarrow> \<not> call_seen s k \<and> fetch_step env net fis (view_service s) (view_service t)"
proof -
  note d = send_invD [OF inv]
  have nr: "\<not> has_returned (command_of s (c, j))" using in_fetch(5) by (simp add: in_progress_def command_of_def)
  note mk = command_step_made [OF in_fetch(6) nr]
  have t: "client_runs t = (client_runs s)(c := advance j (cmd, cs, cl) (client_runs s c))" "waits t = waits s"
    by (simp_all add: in_fetch(1))
  note a = advance_command [OF t(1) in_fetch(5)]
  have other: "call_seen t k' = call_seen s k'" if "k' \<noteq> k" for k'
  proof -
    have "waits s k' \<noteq> Some (c, j)" using d(5) in_fetch(4) that unfolding waits_ok_def by blast
    then show ?thesis using a(2) by (auto simp: call_seen_def t(2))
  qed
  have here: "call_seen t k = call_made cmd" "call_seen s k = call_made (command_of s (c, j))"
    using a(1) in_fetch(4) by (simp_all add: call_seen_def t(2))
  show "k' \<noteq> k \<Longrightarrow> call_seen t k' = call_seen s k'" by (rule other)
  show mt: "call_seen t k \<longleftrightarrow> call_seen s k \<or> cs \<noteq> []" using here mk(1) by simp
  show "view_service t = view_service s" if no: "cs = []"
  proof -
    have "call_seen t k' = call_seen s k'" for k' using other [of k'] mt no by (cases "k' = k") simp_all
    then show ?thesis by (intro view_same) (simp_all add: in_fetch(1) no)
  qed
  show "\<not> call_seen s k \<and> fetch_step env net fis (view_service s) (view_service t)" if call: "cs \<noteq> []"
  proof -
    let ?new = "[[Reply p i, Deep p True]]" and ?V = "map (seen s) [0..<length (threads (service s))]"
    have m: "call_seen t k" "\<not> call_seen s k" using here mk call by simp_all
    have sk: "seen s k = Issue p i # rest" using m(2) in_fetch(3) by (simp add: seen_def)
    have "\<not> call_seen t (length (threads (service s)))"
      using d(5) unfolding waits_ok_def call_seen_def t(2) by (metis less_irrefl surj_pair)
    then have "seen t k' = (?V[k := rest] @ ?new) ! k'" if "k' < length (?V[k := rest] @ ?new)" for k'
      using that m(1) other [of k'] in_fetch(2,3)
      by (auto simp: seen_def in_fetch(1) call nth_append nth_list_update less_Suc_eq)
    then have s': "view_service t = (service s)\<lparr>threads := ?V[k := rest] @ ?new\<rparr>"
      using view_eqI [of t "?V[k := rest] @ ?new"] by (simp add: in_fetch(1) call)
    have "thread_step env net fis k (view_service s) = Inr (view_service t)"
      using sk in_fetch(2) d(1) by (simp add: thread_step_def s') (simp add: view_service_def)
    then have "fetch_step env net fis (view_service s) (view_service t)"
      by (intro fetch_step.intros [of k _ "Issue p i" rest]) (use in_fetch(2) sk in \<open>simp_all add: blocked_def\<close>)
    with m(2) show ?thesis by blast
  qed
qed

lemma view_return:
  assumes inv: "send_inv env net connect nodes fis cdv inst inst' s"
    and return: "t = s\<lparr>service := (service s)\<lparr>threads := (threads (service s))[k := (if ret = -1 then [Deep p False] else []) @ rest]\<rparr>,
        waits := (waits s)(k := None)\<rparr>"
      "k < length (threads (service s))" "threads (service s) ! k = Issue p i # rest" "waits s k = Some x"
      "command_of s x = Returned ret"
  shows "view_service t = view_service s" and "ret = 0" and "call_seen s k"
proof -
  note d = send_invD [OF inv]
  obtain c j where x: "x = (c, j)" by (cases x)
  obtain gets where g: "run_inv (connect c) (nodes c) gets (client_runs s c)" "j < length gets"
    using waits_okD [OF d(5) return(4) [unfolded x] return(3)] clients_okD [OF d(4)] by metis
  show r: "ret = 0" using run_invD(5) [OF g] return(5) d(2) by (simp add: command_of_def x)
  show m: "call_seen s k" using return(4,5) r by (simp add: call_seen_def)
  have "seen t k' = seen s k'" if "k' < length (threads (service s))" for k'
    using that m return(2,3) r
    by (cases "k' = k") (auto simp: seen_def call_seen_def return(1) command_of_def nth_list_update)
  then show "view_service t = view_service s" by (simp add: view_service_def return(1) cong: map_cong)
qed

lemma view_other:
  assumes inv: "send_inv env net connect nodes fis cdv inst inst' s"
    and other: "t = s\<lparr>client_runs := (client_runs s)(c := advance j y (client_runs s c))\<rparr>"
      "clients env c \<noteq> None" "mine s (c, j) = None" "in_progress s (c, j)"
      "command_step (connect c) (command_of s (c, j)) (the_client (client_runs s c)) = Inr y"
  shows "view_service t = view_service s" and "call_seen t k = call_seen s k"
proof -
  note d = send_invD [OF inv]
  obtain cmd cs cl where y: "y = (cmd, cs, cl)" by (cases y)
  have t: "client_runs t = (client_runs s)(c := advance j (cmd, cs, cl) (client_runs s c))" "waits t = waits s"
    by (simp_all add: other(1) y)
  note a = advance_command [OF t(1) other(4)]
  have "waits s k \<noteq> Some (c, j)" for k using d(5) other(3) unfolding waits_ok_def by fastforce
  then have m: "call_seen t k = call_seen s k" for k using made_same [of s k t] a(2) t(2) by metis
  then show "view_service t = view_service s" by (intro view_same) (simp_all add: other(1))
  show "call_seen t k = call_seen s k" by (rule m)
qed

lemma send_view:
  assumes inv: "send_inv env net connect nodes fis cdv inst inst' s" and st: "send_step env net connect fis s t"
  shows "view_service t = view_service s \<or> fetch_step env net fis (view_service s) (view_service t)"
  using st
proof cases
  case work
  from view_work(1) [OF inv work] show ?thesis by blast
next
  case call_fetch
  from view_call_fetch(1) [OF inv call_fetch] show ?thesis by blast
next
  case in_fetch
  from view_in_fetch(3,4) [OF inv in_fetch] show ?thesis by blast
next
  case return
  from view_return(1) [OF inv return] show ?thesis by blast
next
  case other
  from view_other(1) [OF inv other] show ?thesis by blast
qed

end
