(* ===== verification/RedisSendRun.thy ===== *)
theory RedisSendRun
  imports RedisSend
begin

text \<open>
  The runs of a redis service that sends with the commands of its clients: what the steps of \<open>RedisSend\<close> keep,
  why they end and when they stop.
\<close>

section \<open>Every step keeps the invariant\<close>

lemma command_of_fun: "command_of s (c, j) = commands (client_runs s c) ! j"
  by (simp add: command_of_def)

lemma clients_ok_advance:
  assumes ok: "clients_ok env connect nodes fis s" and r: "in_progress s (c, j)"
    and st: "command_step (connect c) (command_of s (c, j)) (the_client (client_runs s c)) = Inr y"
    and t: "client_runs t = (client_runs s)(c := advance j y (client_runs s c))" "mine t = mine s"
  shows "clients_ok env connect nodes fis t"
  unfolding clients_ok_def
proof (intro allI impI)
  fix c' assume c': "clients env c' \<noteq> None"
  obtain gets where g: "run_inv (connect c') (nodes c') gets (client_runs s c')"
    "\<forall>j p i. mine s (c', j) = Some (p, i) \<longrightarrow> j < length gets \<and> gets ! j = get_of fis p i"
    "length (commands (client_runs s c')) = length gets"
    by (rule clients_okD [OF ok c']) blast
  have rs: "run_step (connect c) (client_runs s c) (advance j y (client_runs s c))"
    by (rule advance_run) (use st r in \<open>simp_all add: command_of_def in_progress_def\<close>)
  have "run_inv (connect c') (nodes c') gets (client_runs t c')"
  proof (cases "c' = c")
    case True
    with gets.step_inv [OF g(1) [unfolded True] rs] show ?thesis by (simp add: t)
  qed (simp add: t g(1))
  then show "\<exists>gets. run_inv (connect c') (nodes c') gets (client_runs t c') \<and>
      (\<forall>j p i. mine t (c', j) = Some (p, i) \<longrightarrow> j < length gets \<and> gets ! j = get_of fis p i)"
    using g(2) by (auto simp: t)
qed

lemma clients_ok_add:
  assumes ok: "clients_ok env connect nodes fis s"
    and t: "client_runs t = (client_runs s)(c := add_get (get_of fis p i) (client_runs s c))"
      "mine t = (mine s)((c, length (commands (client_runs s c))) \<mapsto> (p, i))"
  shows "clients_ok env connect nodes fis t"
  unfolding clients_ok_def
proof (intro allI impI)
  fix c' assume c': "clients env c' \<noteq> None"
  obtain gets where g: "run_inv (connect c') (nodes c') gets (client_runs s c')"
    "\<forall>j p i. mine s (c', j) = Some (p, i) \<longrightarrow> j < length gets \<and> gets ! j = get_of fis p i"
    "length (commands (client_runs s c')) = length gets"
    by (rule clients_okD [OF ok c']) blast
  show "\<exists>gets. run_inv (connect c') (nodes c') gets (client_runs t c') \<and>
      (\<forall>j p i. mine t (c', j) = Some (p, i) \<longrightarrow> j < length gets \<and> gets ! j = get_of fis p i)"
  proof (cases "c' = c")
    case True
    have "run_inv (connect c') (nodes c') (gets @ [get_of fis p i]) (client_runs t c')"
      using run_inv_add [OF g(1)] by (simp add: t True add_get_def)
    moreover have "j < length (gets @ [get_of fis p i]) \<and> (gets @ [get_of fis p i]) ! j = get_of fis p' i'"
      if "mine t (c', j) = Some (p', i')" for j p' i'
      using that g(2) [rule_format, of j p' i'] g(3) True by (auto simp: t(2) nth_append split: if_splits)
    ultimately show ?thesis by blast
  next
    case False
    with g(1,2) show ?thesis by (auto simp: t)
  qed
qed

lemma clients_kept:
  assumes inv: "send_inv env net connect nodes fis cdv inst inst' s" and st: "send_step env net connect fis s t"
  shows "clients_ok env connect nodes fis t"
  using st
proof cases
  case (call_fetch k p i rest c j)
  show ?thesis by (rule clients_ok_add [OF send_invD(4) [OF inv], of _ c p i]) (simp_all add: call_fetch(1,6))
next
  case (in_fetch k p i rest c j cmd cs cl)
  show ?thesis by (rule clients_ok_advance [OF send_invD(4) [OF inv] in_fetch(5,6)]) (simp_all add: in_fetch(1))
next
  case (other c j y)
  show ?thesis by (rule clients_ok_advance [OF send_invD(4) [OF inv] other(4,5)]) (simp_all add: other(1))
qed (use send_invD(4) [OF inv] in \<open>simp_all add: clients_ok_def\<close>)

text \<open>A thread in a call of \<open>fetch\<close> stays there until the command has returned.\<close>

lemma waits_ok_iff:
  "waits_ok env fis s \<longleftrightarrow>
     (\<forall>k x. waits s k = Some x \<longrightarrow> k < length (threads (service s)) \<and>
       (\<exists>p i rest. threads (service s) ! k = Issue p i # rest \<and> fst x = redis_client_id (fis ! p) \<and>
         clients env (fst x) \<noteq> None \<and> mine s x = Some (p, i))) \<and>
     (\<forall>k k' x. waits s k = Some x \<longrightarrow> waits s k' = Some x \<longrightarrow> k = k')"
  by (simp add: waits_ok_def)

lemma waits_less: "waits_ok env fis s \<Longrightarrow> waits s k \<noteq> None \<Longrightarrow> k < length (threads (service s))"
  by (auto simp: waits_ok_iff)

lemma waits_mine: "waits_ok env fis s \<Longrightarrow> waits s k = Some x \<Longrightarrow> mine s x \<noteq> None"
  unfolding waits_ok_iff by (metis option.distinct(1))

lemma waits_ok_threads:
  assumes ok: "waits_ok env fis s" and t: "waits t = waits s" "mine t = mine s"
    and th: "length (threads (service s)) \<le> length (threads (service t))"
      "\<forall>k. waits s k \<noteq> None \<longrightarrow> threads (service t) ! k = threads (service s) ! k"
  shows "waits_ok env fis t"
proof -
  have "threads (service t) ! k = threads (service s) ! k \<and> k < length (threads (service t))" if "waits s k = Some x" for k x
    using waits_less [OF ok, of k] that th by simp
  then show ?thesis using ok unfolding waits_ok_iff t by simp
qed

lemma waits_kept:
  assumes inv: "send_inv env net connect nodes fis cdv inst inst' s" and st: "send_step env net connect fis s t"
  shows "waits_ok env fis t"
  using st
proof cases
  case (work k op rest u)
  note d = send_invD [OF inv]
  note w = view_work(2) [OF inv work]
  have "threads (service t) ! k' = threads (service s) ! k' \<and> length (threads (service s)) \<le> length (threads (service t))"
    if "waits s k' \<noteq> None" for k'
  proof -
    have "k' < length (threads (service s))" "k' \<noteq> k" using waits_less [OF d(5) that] that w by auto
    then show ?thesis using work(3,6) by (auto simp: work(1) thread_step_def res_simps nth_append)
  qed
  moreover have "length (threads (service s)) \<le> length (threads (service t))"
    using work(3,6) by (auto simp: work(1) thread_step_def res_simps)
  ultimately show ?thesis by (intro waits_ok_threads [OF d(5)]) (simp_all add: work(1))
next
  case (call_fetch k p i rest c j)
  note d = send_invD [OF inv]
  note cl = view_call_fetch(3) [OF inv call_fetch]
  have new: "x \<noteq> (c, j)" if "mine s x \<noteq> None" for x
    using mine_bound [OF d(4) cl, of j] that call_fetch(6) by fastforce
  then have "waits s k' \<noteq> Some (c, j)" for k' using waits_mine [OF d(5)] by blast
  then show ?thesis using d(5) cl call_fetch(2,3,5) unfolding waits_ok_iff by (auto simp: call_fetch(1))
next
  case (in_fetch k p i rest c j cmd cs cl)
  note d = send_invD [OF inv]
  have "k' < length (threads (service s))" if "waits s k' \<noteq> None" for k'
    using waits_less [OF d(5) that] .
  then show ?thesis by (intro waits_ok_threads [OF d(5)]) (simp_all add: in_fetch(1) nth_append)
next
  case (return k p i rest x ret)
  note d = send_invD [OF inv]
  show ?thesis using d(5) unfolding waits_ok_iff by (simp add: return(1))
next
  case (other c j y)
  show ?thesis by (rule waits_ok_threads [OF send_invD(5) [OF inv]]) (simp_all add: other(1))
qed

text \<open>The batches that are sent are those that were or will be answered.\<close>

lemma op_step_replies:
  "op_step env net fis op u = Inr (new, started, v) \<Longrightarrow> (\<forall>p i. op \<noteq> Issue p i) \<Longrightarrow>
   replied (fetch_log v) = replied (fetch_log u) + reply_of op \<and> (\<Sum>x\<in>#mset new. reply_of x) = {#}"
  by (cases op)
    (auto simp: res_simps Let_def parse_cached_def split: sum.splits prod.splits cxx_error.splits option.splits list.splits if_splits)

lemma answerable_update:
  assumes "k < length (threads u)" and "threads u ! k = op # rest"
    and "threads v = (threads u)[k := new @ rest] @ started"
    and "replied (fetch_log v) + (\<Sum>x\<in>#mset new + mset (concat started). reply_of x) = replied (fetch_log u) + reply_of op + A"
  shows "answerable v = answerable u + A"
proof -
  obtain M where M: "ops (threads u) = add_mset op M" "ops (threads v) = mset new + mset (concat started) + M"
    using ops_split [OF assms(1,2)] unfolding assms(3) by metis
  have "answerable v = replied (fetch_log v) + (\<Sum>x\<in>#mset new + mset (concat started). reply_of x) + (\<Sum>x\<in>#M. reply_of x)"
    unfolding answerable_def M(2) by (simp add: ac_simps)
  also have "\<dots> = answerable u + A" unfolding answerable_def M(1) assms(4) by (simp add: ac_simps)
  finally show ?thesis .
qed

lemma calls_okD:
  assumes "calls_ok env fis s"
  shows "finite (dom (mine s))"
    and "mine s (c, j) = Some (p, i) \<Longrightarrow> c = redis_client_id (fis ! p)"
    and "mine s (c, j) = Some (p, i) \<Longrightarrow> clients env c \<noteq> None"
    and "mine s x = Some y \<Longrightarrow> (\<exists>k. waits s k = Some x) \<or> command_of s x = Returned 0"
    and "image_mset (\<lambda>x. the (mine s x)) (mset_set (made_calls s)) = answerable (service s)"
  using assms unfolding calls_ok_def by (blast, blast, blast, metis surj_pair, blast)

lemma calls_okI:
  assumes ok: "calls_ok env fis s" and m: "mine t = mine s"
    and w: "\<forall>x. mine s x \<noteq> None \<longrightarrow> (\<exists>k. waits t k = Some x) \<or> command_of t x = Returned 0"
    and made: "image_mset (\<lambda>x. the (mine s x)) (mset_set (made_calls t)) = answerable (service t)"
  shows "calls_ok env fis t"
  unfolding calls_ok_def m using ok w made unfolding calls_ok_def by (metis option.distinct(1))

lemma made_calls_same:
  assumes "mine t = mine s" and "\<forall>x. mine s x \<noteq> None \<longrightarrow> call_made (command_of t x) = call_made (command_of s x)"
  shows "made_calls t = made_calls s"
  using assms by (auto simp: made_calls_def)

lemma mine_run:
  assumes inv: "send_inv env net connect nodes fis cdv inst inst' s" and m: "mine s (c, j) = Some (p, i)"
  obtains gets where "run_inv (connect c) (nodes c) gets (client_runs s c)" and "j < length gets"
    and "gets ! j = get_of fis p i" and "j < length (commands (client_runs s c))"
proof -
  note d = send_invD [OF inv]
  obtain gets where "run_inv (connect c) (nodes c) gets (client_runs s c)"
    "\<forall>j p i. mine s (c, j) = Some (p, i) \<longrightarrow> j < length gets \<and> gets ! j = get_of fis p i"
    "length (commands (client_runs s c)) = length gets"
    by (rule clients_okD [OF d(4) calls_okD(3) [OF d(6) m]]) blast
  with that m show ?thesis by metis
qed

lemma calls_kept_call:
  assumes inv: "send_inv env net connect nodes fis cdv inst inst' s"
    and k: "waits s k = None" "c = redis_client_id (fis ! p)" "j = length (commands (client_runs s c))" "clients env c \<noteq> None"
    and t: "t = s\<lparr>client_runs := (client_runs s)(c := add_get (get_of fis p i) (client_runs s c)),
         mine := (mine s)((c, j) \<mapsto> (p, i)), waits := (waits s)(k \<mapsto> (c, j))\<rparr>"
  shows "calls_ok env fis t"
proof -
  note d = send_invD [OF inv] and e = calls_okD [OF send_invD(6) [OF inv]]
  have tc: "client_runs t = (client_runs s)(c := add_get (get_of fis p i) (client_runs s c))" by (simp add: t)
  have less: "snd x < length (commands (client_runs s (fst x)))" if "mine s x = Some y" for x y
    using mine_bound [OF d(4)] e(3) that by (cases x; cases y) simp
  have new: "mine s (c, j) = None" using less [of "(c, j)"] k(3) by (cases "mine s (c, j)") auto
  have same: "command_of t x = command_of s x" if "mine s x = Some y" for x y
    by (rule add_command(2) [OF tc less [OF that]])
  have "\<not> call_made (command_of t (c, j))" using add_command(1) [OF tc] k(3) by simp
  then have mt: "made_calls t = made_calls s" using same new by (auto simp: made_calls_def t split: if_splits)
  have fin: "finite (made_calls s)" using e(1) by (simp add: made_calls_def)
  have "image_mset (\<lambda>x. the (mine t x)) (mset_set (made_calls s)) = image_mset (\<lambda>x. the (mine s x)) (mset_set (made_calls s))"
    using new fin by (intro image_mset_cong) (auto simp: t made_calls_def)
  moreover have "(\<exists>k'. waits t k' = Some x) \<or> command_of t x = Returned 0" if m: "mine t x \<noteq> None" for x
  proof (cases "x = (c, j)")
    case True
    then show ?thesis by (auto simp: t)
  next
    case False
    then obtain y where y: "mine s x = Some y" using m by (auto simp: t)
    from e(4) [OF y] show ?thesis
    proof
      assume "\<exists>k'. waits s k' = Some x"
      then obtain k' where "waits s k' = Some x" "k' \<noteq> k" using k(1) by (metis option.distinct(1))
      then have "waits t k' = Some x" by (simp add: t)
      then show ?thesis by blast
    qed (simp add: same [OF y])
  qed
  ultimately show ?thesis using e(1,2,3,5) k(2,4) unfolding calls_ok_def mt by (auto simp: t split: if_splits)
qed

lemma calls_kept_work:
  assumes inv: "send_inv env net connect nodes fis cdv inst inst' s"
    and work: "t = s\<lparr>service := u\<rparr>" "k < length (threads (service s))" "threads (service s) ! k = op # rest"
      "\<forall>p i. op \<noteq> Issue p i" "\<not> blocked op (service s)" "thread_step env net fis k (service s) = Inr u"
  shows "calls_ok env fis t"
proof -
  note d = send_invD [OF inv] and e = calls_okD [OF send_invD(6) [OF inv]]
  obtain new started v where step: "op_step env net fis op (service s) = Inr (new, started, v)"
    and u: "u = v\<lparr>threads := (threads (service s))[k := new @ rest] @ started\<rparr>"
    using work(3,6) by (auto simp: thread_step_def res_simps)
  have ns: "started = []" by (rule no_thread_started [OF step work(4)])
  have "answerable u = answerable (service s) + {#}"
    using op_step_replies [OF step work(4)] by (intro answerable_update [OF work(2,3), of u new started]) (simp_all add: u ns)
  moreover have c: "command_of t x = command_of s x" for x by (simp add: command_of_def work(1))
  moreover have "(\<exists>k. waits t k = Some x) \<or> command_of t x = Returned 0" if "mine s x \<noteq> None" for x
    using that e(4) [of x] unfolding c by (auto simp: work(1))
  ultimately show ?thesis
    using e(5) made_calls_same [of t s] by (intro calls_okI [OF d(6)]) (simp_all add: work(1))
qed

lemma calls_kept_in_fetch:
  assumes inv: "send_inv env net connect nodes fis cdv inst inst' s"
    and in_fetch: "t = s\<lparr>client_runs := (client_runs s)(c := advance j (cmd, cs, cl) (client_runs s c)),
        service := (service s)\<lparr>threads := threads (service s) @ (if cs = [] then [] else [[Reply p i, Deep p True]])\<rparr>\<rparr>"
      "k < length (threads (service s))" "threads (service s) ! k = Issue p i # rest" "waits s k = Some (c, j)" "in_progress s (c, j)"
      "command_step (connect c) (command_of s (c, j)) (the_client (client_runs s c)) = Inr (cmd, cs, cl)"
  shows "calls_ok env fis t"
proof -
  note d = send_invD [OF inv] and e = calls_okD [OF send_invD(6) [OF inv]]
  have nr: "\<not> has_returned (command_of s (c, j))" using in_fetch(5) by (simp add: in_progress_def command_of_def)
  note mk = command_step_made [OF in_fetch(6) nr]
  have "client_runs t = (client_runs s)(c := advance j (cmd, cs, cl) (client_runs s c))" by (simp add: in_fetch(1))
  note a = advance_command [OF this in_fetch(5)]
  have m: "mine s (c, j) = Some (p, i)"
    using waits_okD [OF d(5) in_fetch(4,3)] by (metis fetch_op.inject(2))
  have w: "(\<exists>k. waits t k = Some x) \<or> command_of t x = Returned 0" if "mine s x \<noteq> None" for x
    using that e(4) [of x] a(2) [of x] in_fetch(4) by (cases "x = (c, j)") (auto simp: in_fetch(1))
  have fin: "finite (made_calls s)" using e(1) by (simp add: made_calls_def)
  have mt: "made_calls t = (if cs = [] then made_calls s else insert (c, j) (made_calls s))"
  proof (rule set_eqI)
    fix x
    have "mine t = mine s" by (simp add: in_fetch(1))
    then show "x \<in> made_calls t \<longleftrightarrow> x \<in> (if cs = [] then made_calls s else insert (c, j) (made_calls s))"
      using a(1) a(2) [of x] mk m by (cases "x = (c, j)") (auto simp: made_calls_def)
  qed
  have new: "(c, j) \<notin> made_calls s" if "cs \<noteq> []" using mk(2) [OF that] by (simp add: made_calls_def)
  have "answerable (service t) = answerable (service s) + (if cs = [] then {#} else {#(p, i)#})"
    using in_fetch(3) list_update_id [of "threads (service s)" k]
    by (intro answerable_update [OF in_fetch(2,3), of _ "[Issue p i]" "if cs = [] then [] else [[Reply p i, Deep p True]]"])
      (simp_all add: in_fetch(1))
  then have "image_mset (\<lambda>x. the (mine s x)) (mset_set (made_calls t)) = answerable (service t)"
    using e(5) new fin m by (simp add: mt)
  then show ?thesis using w by (intro calls_okI [OF d(6)]) (simp_all add: in_fetch(1))
qed

lemma calls_kept_return:
  assumes inv: "send_inv env net connect nodes fis cdv inst inst' s"
    and return: "t = s\<lparr>service := (service s)\<lparr>threads := (threads (service s))[k := (if ret = -1 then [Deep p False] else []) @ rest]\<rparr>,
        waits := (waits s)(k := None)\<rparr>"
      "k < length (threads (service s))" "threads (service s) ! k = Issue p i # rest" "waits s k = Some x"
      "command_of s x = Returned ret"
  shows "calls_ok env fis t"
proof -
  note d = send_invD [OF inv] and e = calls_okD [OF send_invD(6) [OF inv]]
  note r = view_return(2) [OF inv return]
  have c: "command_of t y = command_of s y" for y by (simp add: command_of_def return(1))
  have "answerable (service t) = answerable (service s) + {#}"
    by (intro answerable_update [OF return(2,3), of _ "if ret = -1 then [Deep p False] else []" "[]"]) (simp_all add: return(1))
  moreover have "(\<exists>k. waits t k = Some y) \<or> command_of t y = Returned 0" if m: "mine s y \<noteq> None" for y
  proof (cases "y = x")
    case True
    then show ?thesis using return(5) r by (simp add: c)
  next
    case False
    obtain z where "mine s y = Some z" using m by blast
    from e(4) [OF this] show ?thesis
    proof
      assume "\<exists>k'. waits s k' = Some y"
      then obtain k' where "waits s k' = Some y" "k' \<noteq> k" using return(4) False by (metis option.inject)
      then have "waits t k' = Some y" by (simp add: return(1))
      then show ?thesis by blast
    qed (simp add: c)
  qed
  ultimately show ?thesis
    using e(5) made_calls_same [of t s] c by (intro calls_okI [OF d(6)]) (simp_all add: return(1))
qed

lemma calls_kept:
  assumes inv: "send_inv env net connect nodes fis cdv inst inst' s" and st: "send_step env net connect fis s t"
  shows "calls_ok env fis t"
  using st
proof cases
  case work
  show ?thesis by (rule calls_kept_work [OF inv work])
next
  case (call_fetch k p i rest c j)
  show ?thesis by (rule calls_kept_call [OF inv call_fetch(4,5,6) view_call_fetch(3) [OF inv call_fetch] call_fetch(1)])
next
  case in_fetch
  show ?thesis by (rule calls_kept_in_fetch [OF inv in_fetch])
next
  case return
  show ?thesis by (rule calls_kept_return [OF inv return])
next
  case (other c j y)
  note d = send_invD [OF inv] and e = calls_okD [OF send_invD(6) [OF inv]]
  have c: "command_of t x = command_of s x" if "mine s x \<noteq> None" for x
    using other(3) that advance_command(2) [OF _ other(4), of t "fst y" "fst (snd y)" "snd (snd y)" x]
    by (cases "x = (c, j)") (simp_all add: other(1))
  then have "(\<exists>k. waits t k = Some x) \<or> command_of t x = Returned 0" if "mine s x \<noteq> None" for x
    using that e(4) [of x] by (auto simp: other(1))
  with c show ?thesis
    using e(5) made_calls_same [of t s] by (intro calls_okI [OF d(6)]) (simp_all add: other(1))
qed

lemma send_kept:
  assumes inv: "send_inv env net connect nodes fis cdv inst inst' s" and st: "send_step env net connect fis s t"
  shows "send_inv env net connect nodes fis cdv inst inst' t"
proof -
  have "join_inv env net fis cdv inst inst' (view_service t)"
    using send_view [OF inv st] send_invD(3) [OF inv] fetching.step_inv by metis
  then show ?thesis
    using inv clients_kept [OF inv st] waits_kept [OF inv st] calls_kept [OF inv st] by (simp add: send_inv_def)
qed

section \<open>Every step brings the end nearer\<close>

text \<open>A step of the service counts ten. The call of \<open>fetch\<close> pays with the 4 of its thread for the 3 steps of the command;
  sending the batch pays for the callback's thread and for the return.\<close>

definition call_cost :: "('m, 'c) sending \<Rightarrow> nat \<Rightarrow> nat" where
  "call_cost s k = (if waits s k = None then 4 else if call_seen s k then 5 else 0)"

definition call_costs :: "('m, 'c) sending \<Rightarrow> nat" where
  "call_costs s = (\<Sum>k<length (threads (service s)). call_cost s k)"

definition clients_mu :: "('m, 'c) service_env \<Rightarrow> (string \<Rightarrow> 'c client_run) \<Rightarrow> nat" where
  "clients_mu env runs = (\<Sum>c\<in>dom (clients env). run_mu (runs c))"

definition send_mu :: "('m, 'c) service_env \<Rightarrow> fetch_info list \<Rightarrow> ('m, 'c) sending \<Rightarrow> nat" where
  "send_mu env fis s = 10 * join_mu env fis (view_service s) + clients_mu env (client_runs s) + call_costs s"

lemma clients_mu_update:
  assumes "finite (dom (clients env))" and "clients env c \<noteq> None"
  shows "clients_mu env (runs(c := r)) + run_mu (runs c) = clients_mu env runs + run_mu r"
  using sum_point [OF assms(1), of c "\<lambda>c'. run_mu ((runs(c := r)) c')" "\<lambda>c'. run_mu (runs c')"] assms(2)
  by (auto simp: clients_mu_def)

lemma clients_mu_advance:
  assumes inv: "send_inv env net connect nodes fis cdv inst inst' s" and c: "clients env c \<noteq> None" and r: "in_progress s (c, j)"
    and st: "command_step (connect c) (command_of s (c, j)) (the_client (client_runs s c)) = Inr y"
  shows "clients_mu env ((client_runs s)(c := advance j y (client_runs s c))) < clients_mu env (client_runs s)"
proof -
  note d = send_invD [OF inv]
  obtain gets where g: "run_inv (connect c) (nodes c) gets (client_runs s c)" by (rule clients_okD [OF d(4) c])
  have "run_step (connect c) (client_runs s c) (advance j y (client_runs s c))"
    by (rule advance_run) (use st r in \<open>simp_all add: command_of_def in_progress_def\<close>)
  from gets.step_mu [OF g this] clients_mu_update [OF d(7) c, of "client_runs s" "advance j y (client_runs s c)"]
  show ?thesis by linarith
qed

lemma call_costs_same:
  assumes "length (threads (service t)) = length (threads (service s))"
    and "\<forall>k. (waits t k = None \<longleftrightarrow> waits s k = None) \<and> call_seen t k = call_seen s k"
  shows "call_costs t = call_costs s"
proof -
  have "call_cost t k = call_cost s k" for k using assms(2) by (simp add: call_cost_def)
  then show ?thesis using assms(1) by (simp add: call_costs_def)
qed

lemma call_costs_point:
  assumes "length (threads (service t)) = length (threads (service s))" and "k < length (threads (service s))"
    and "\<forall>k'. k' \<noteq> k \<longrightarrow> waits t k' = waits s k' \<and> call_seen t k' = call_seen s k'"
  shows "call_costs t + call_cost s k = call_costs s + call_cost t k"
  unfolding call_costs_def assms(1) by (rule sum_point) (use assms(2,3) in \<open>auto simp: call_cost_def\<close>)

lemma call_costs_add:
  assumes "threads (service t) = threads (service s) @ T" and "\<forall>k. length (threads (service s)) \<le> k \<longrightarrow> waits t k = None"
  shows "call_costs t = (\<Sum>k<length (threads (service s)). call_cost t k) + 4 * length T"
proof -
  have "call_cost t k = 4" if "length (threads (service s)) \<le> k" for k using assms(2) that by (simp add: call_cost_def)
  then have "(\<Sum>k\<in>{length (threads (service s))..<length (threads (service s)) + length T}. call_cost t k) = 4 * length T" by simp
  then show ?thesis unfolding call_costs_def assms(1)
    by (simp add: sum.atLeastLessThan_concat [of 0 "length (threads (service s))" "length (threads (service s)) + length T" "call_cost t", symmetric] lessThan_atLeast0)
qed

lemma run_mu_add: "run_mu (add_get g r) = run_mu r + 3"
  by (cases g) (simp add: run_mu_def add_get_def togo_def)

lemma mu_in_fetch:
  assumes inv: "send_inv env net connect nodes fis cdv inst inst' s"
    and in_fetch: "t = s\<lparr>client_runs := (client_runs s)(c := advance j (cmd, cs, cl) (client_runs s c)),
        service := (service s)\<lparr>threads := threads (service s) @ (if cs = [] then [] else [[Reply p i, Deep p True]])\<rparr>\<rparr>"
      "k < length (threads (service s))" "threads (service s) ! k = Issue p i # rest" "waits s k = Some (c, j)" "in_progress s (c, j)"
      "command_step (connect c) (command_of s (c, j)) (the_client (client_runs s c)) = Inr (cmd, cs, cl)"
  shows "send_mu env fis t < send_mu env fis s"
proof -
  note d = send_invD [OF inv] and v = view_in_fetch [OF inv in_fetch]
  have "clients env c \<noteq> None" using waits_okD [OF d(5) in_fetch(4,3)] by metis
  from clients_mu_advance [OF inv this in_fetch(5,6)]
  have c: "clients_mu env (client_runs t) < clients_mu env (client_runs s)" by (simp add: in_fetch(1))
  show ?thesis
  proof (cases "cs = []")
    case True
    have "call_seen t k' = call_seen s k'" for k' using v(1,2) True by (cases "k' = k") simp_all
    then have "call_costs t = call_costs s" by (intro call_costs_same) (simp_all add: in_fetch(1) True)
    with c v(3) [OF True] show ?thesis by (simp add: send_mu_def)
  next
    case False
    have w: "waits t k' = None" if "length (threads (service s)) \<le> k'" for k'
      using waits_less [OF d(5), of k'] that by (cases "waits s k'") (simp_all add: in_fetch(1))
    have "call_costs t = (\<Sum>k<length (threads (service s)). call_cost t k) + 4"
      using call_costs_add [of t s "[[Reply p i, Deep p True]]"] w by (simp add: in_fetch(1) False)
    moreover have "waits t = waits s" by (simp add: in_fetch(1))
    then have "call_cost t k' = call_cost s k'" if "k' \<noteq> k" for k' using v(1) [OF that] by (simp add: call_cost_def)
    then have "(\<Sum>k<length (threads (service s)). call_cost t k) + call_cost s k = call_costs s + call_cost t k"
      unfolding call_costs_def using in_fetch(2) by (intro sum_point) auto
    moreover have "call_cost s k = 0" "call_cost t k = 5" using v(2,4) False in_fetch(4) by (simp_all add: call_cost_def in_fetch(1))
    moreover have "join_mu env fis (view_service t) < join_mu env fis (view_service s)"
      using fetching.step_mu [OF d(3)] v(4) [OF False] by blast
    ultimately show ?thesis using c by (simp add: send_mu_def)
  qed
qed

lemma send_step_mu:
  assumes inv: "send_inv env net connect nodes fis cdv inst inst' s" and st: "send_step env net connect fis s t"
  shows "send_mu env fis t < send_mu env fis s"
  using st
proof cases
  case work
  note v = view_work [OF inv work]
  have "call_costs t = call_costs s" by (intro call_costs_same) (use v(3,4) in \<open>simp_all add: work(1)\<close>)
  with fetching.step_mu [OF send_invD(3) [OF inv] v(1)] show ?thesis by (simp add: send_mu_def work(1))
next
  case (call_fetch k p i rest c j)
  note v = view_call_fetch [OF inv call_fetch]
  have "call_costs t + call_cost s k = call_costs s + call_cost t k"
    by (rule call_costs_point) (use call_fetch(2) v(2) in \<open>simp_all add: call_fetch(1)\<close>)
  moreover have "call_cost s k = 4" "call_cost t k = 0" using v(2) [of k] call_fetch(4) by (simp_all add: call_cost_def call_fetch(1) call_seen_def)
  moreover have "clients_mu env (client_runs t) = clients_mu env (client_runs s) + 3"
    using clients_mu_update [OF send_invD(7) [OF inv] v(3), of "client_runs s" "add_get (get_of fis p i) (client_runs s c)"]
    by (simp add: call_fetch(1) run_mu_add)
  ultimately show ?thesis using v(1) by (simp add: send_mu_def)
next
  case in_fetch
  show ?thesis by (rule mu_in_fetch [OF inv in_fetch])
next
  case (return k p i rest x ret)
  note v = view_return [OF inv return]
  have "call_seen t k' = call_seen s k' \<and> waits t k' = waits s k'" if "k' \<noteq> k" for k'
    using that by (simp add: return(1) call_seen_def command_of_def)
  then have "call_costs t + call_cost s k = call_costs s + call_cost t k" by (intro call_costs_point) (use return(2) in \<open>simp_all add: return(1)\<close>)
  moreover have "call_cost s k = 5" "call_cost t k = 4" using return(4) v(3) by (simp_all add: call_cost_def return(1))
  ultimately show ?thesis using v(1) by (simp add: send_mu_def return(1))
next
  case (other c j y)
  note v = view_other [OF inv other]
  have "call_costs t = call_costs s" by (intro call_costs_same) (use v(2) in \<open>simp_all add: other(1)\<close>)
  with clients_mu_advance [OF inv other(2,4,5)] v(1) show ?thesis by (simp add: send_mu_def other(1))
qed

interpretation sending: terminating_system "send_step env net connect fis" "send_inv env net connect nodes fis cdv inst inst'"
    "send_mu env fis" for env :: "('m, 'c) service_env" and net connect nodes fis cdv inst inst'
  by unfold_locales (fact send_kept send_step_mu)+

text \<open>The service and its clients implement the service, which implements its specification.\<close>

interpretation sending: simulation_chain "send_step env net connect fis" "send_inv env net connect nodes fis cdv inst inst'"
    "fetch_step env net fis" view_service "join_inv env net fis cdv inst inst'"
    "fetch_spec (mset (all_sent env net fis)) (cdv \<noteq> [])" view_fetch
  for env :: "('m, 'c) service_env" and net connect nodes fis cdv inst inst'
proof unfold_locales
  show "(fetch_step env net fis)\<^sup>*\<^sup>* (view_service s) (view_service t)"
    if "send_inv env net connect nodes fis cdv inst inst' s" "send_step env net connect fis s t" for s t
    using send_view [OF that] by auto
qed (fact send_invD(3))

end
