(* ===== verification/RedisSendSpec.thy ===== *)
theory RedisSendSpec
  imports RedisSendRun
begin

text \<open>
  When a redis service and its clients stop, and what they have done then: every key was asked for once, at the node
  that owns its slot.
\<close>

section \<open>The start\<close>

text \<open>A client whose constructor read the nodes of its cluster, and could build their pools.\<close>

definition built_from :: "(string \<Rightarrow> nat \<Rightarrow> 'c option) \<Rightarrow> node_info list \<Rightarrow> 'c redis_client \<Rightarrow> bool" where
  "built_from connect nodes cl \<longleftrightarrow>
     nodes \<noteq> [] \<and> length nodes < 2 ^ 31 \<and> ranges_ok nodes \<and> (\<forall>node\<in>set nodes. node_address node \<noteq> None) \<and>
     (\<exists>b valid reply addr bal timeout psize mpsize retry.
        parse_lines b (split b [CHR 0x0A] (trim b reply)) = Inr (valid, nodes) \<and>
        unat (word_of_int psize :: 32 word) \<le> 100 \<and>
        new_client b connect (Nodes reply) addr bal timeout psize mpsize retry = Inr cl)"

definition one_to_one :: "(string \<Rightarrow> nat \<Rightarrow> 'c option) \<Rightarrow> bool" where
  \<comment> \<open>every channel is opened once\<close>
  "one_to_one connect \<longleftrightarrow> (\<forall>a b i j c. connect a i = Some c \<longrightarrow> connect b j = Some c \<longrightarrow> a = b \<and> i = j)"

lemma built_run:
  assumes "built_from connect nodes cl" and "one_to_one connect"
  shows "run_inv connect nodes gets (start_gets cl gets)" and "run_mu (start_gets cl gets) = 3 * length gets"
proof -
  obtain b valid reply addr bal timeout psize mpsize retry where c:
    "nodes \<noteq> []" "length nodes < 2 ^ 31" "ranges_ok nodes" "\<forall>node\<in>set nodes. node_address node \<noteq> None"
    "parse_lines b (split b [CHR 0x0A] (trim b reply)) = Inr (valid, nodes)" "unat (word_of_int psize :: 32 word) \<le> 100"
    "new_client b connect (Nodes reply) addr bal timeout psize mpsize retry = Inr cl"
    using assms(1) unfolding built_from_def by blast
  have "\<forall>node\<in>set nodes. port node \<noteq> None" using c(4) by (auto simp: node_address_def split: option.splits)
  from new_client_serves [where connect = connect and addr = addr and bal = bal and timeout = timeout
      and mpsize = mpsize and retry = retry, OF c(5,1-3) this c(6)] c(7)
  have sv: "serves connect nodes cl" "list_all (entry_built connect) (m_channel_list (get_cur_channel_pool cl))" by auto
  from start_run [OF sv(1) c(1,4) sv(2) assms(2) [unfolded one_to_one_def]]
  show "run_inv connect nodes gets (start_gets cl gets)" "run_mu (start_gets cl gets) = 3 * length gets" .
qed

lemma view_start: "view_service (start_sending env others u) = u"
proof -
  have "map (seen (start_sending env others u)) [0..<length (threads u)] = threads u"
    by (rule nth_equalityI) (simp_all add: seen_def call_seen_def start_sending_def)
  then show ?thesis by (simp add: view_service_def start_sending_def)
qed

lemma send_start:
  assumes u: "u = first_run fis cdv inst" "join_inv env net fis cdv inst inst' u"
    and fin: "finite (dom (clients env))" and ret: "\<forall>p i. send_ret net p i = 0" and up: "\<forall>c a n. connect c a n \<noteq> None"
    and cl: "\<forall>c cl. clients env c = Some cl \<longrightarrow> built_from (connect c) (nodes c) cl \<and> one_to_one (connect c)"
  shows "send_inv env net connect nodes fis cdv inst inst' (start_sending env others u)"
    and "send_mu env fis (start_sending env others u) =
      10 * join_mu env fis u + (\<Sum>c\<in>dom (clients env). 3 * length (others c)) + 4"
proof -
  let ?s = "start_sending env others u"
  have run: "run_inv (connect c) (nodes c) (others c) (client_runs ?s c) \<and> run_mu (client_runs ?s c) = 3 * length (others c)"
    if "clients env c \<noteq> None" for c
  proof -
    obtain cl where "clients env c = Some cl" using \<open>clients env c \<noteq> None\<close> by blast
    with cl built_run [of "connect c" "nodes c" cl "others c"] show ?thesis by (simp add: start_sending_def)
  qed
  have "clients_ok env connect nodes fis ?s"
    unfolding clients_ok_def using run by (auto simp: start_sending_def)
  moreover have "waits_ok env fis ?s" by (simp add: waits_ok_def start_sending_def)
  moreover have "(\<Sum>op\<in>#mset (map Info ps). reply_of op) = {#}" for ps by (induction ps) auto
  then have "answerable u = {#}" by (simp add: answerable_def u(1) first_run_def)
  then have "calls_ok env fis ?s" by (simp add: calls_ok_def start_sending_def made_calls_def)
  ultimately show "send_inv env net connect nodes fis cdv inst inst' ?s"
    using u(2) fin ret up by (simp add: send_inv_def view_start)
  have "clients_mu env (client_runs ?s) = (\<Sum>c\<in>dom (clients env). 3 * length (others c))"
    unfolding clients_mu_def using run by (intro sum.cong) auto
  moreover have "call_costs ?s = 4" by (simp add: call_costs_def call_cost_def start_sending_def u(1) first_run_def)
  ultimately show "send_mu env fis ?s = 10 * join_mu env fis u + (\<Sum>c\<in>dom (clients env). 3 * length (others c)) + 4"
    by (simp add: send_mu_def view_start)
qed

section \<open>The end\<close>

lemma command_can:
  assumes inv: "send_inv env net connect nodes fis cdv inst inst' s" and c: "clients env c \<noteq> None" and r: "in_progress s (c, j)"
  obtains cmd cs cl where
    "command_step (connect c) (command_of s (c, j)) (the_client (client_runs s c)) = Inr (cmd, cs, cl)"
proof -
  obtain gets where g: "run_inv (connect c) (nodes c) gets (client_runs s c)"
    "length (commands (client_runs s c)) = length gets" by (rule clients_okD [OF send_invD(4) [OF inv] c])
  have "goes_on (connect c) (nodes c) gets (client_runs s c) j"
    using r g(2) by (intro command_goes_on [OF g(1)]) (simp_all add: in_progress_def)
  then show ?thesis using that by (auto simp: goes_on_def command_of_def)
qed

lemma nobody_waits:
  assumes inv: "send_inv env net connect nodes fis cdv inst inst' s" and stop: "\<forall>t. \<not> send_step env net connect fis s t"
  shows "waits s k = None"
proof (rule ccontr)
  assume "waits s k \<noteq> None"
  note d = send_invD [OF inv]
  from \<open>waits s k \<noteq> None\<close> obtain c j where w: "waits s k = Some (c, j)" by auto
  then obtain p i rest where th: "k < length (threads (service s))" "threads (service s) ! k = Issue p i # rest"
    and c: "clients env c \<noteq> None" "mine s (c, j) = Some (p, i)" using d(5) unfolding waits_ok_def by meson
  show False
  proof (cases "in_progress s (c, j)")
    case True
    then obtain cmd cs cl where
      "command_step (connect c) (command_of s (c, j)) (the_client (client_runs s c)) = Inr (cmd, cs, cl)"
      by (rule command_can [OF inv c(1)])
    from send_step.in_fetch [where connect = connect, OF th w True this] stop show False by blast
  next
    case False
    then have "has_returned (command_of s (c, j))" using mine_bound [OF d(4) c] by (simp add: in_progress_def command_of_def)
    then obtain ret where "command_of s (c, j) = Returned ret" by (cases "command_of s (c, j)") auto
    from send_step.return [OF th w this] stop show False by blast
  qed
qed

lemma send_stopped:
  assumes inv: "send_inv env net connect nodes fis cdv inst inst' s" and stop: "\<forall>t. \<not> send_step env net connect fis s t"
  shows "view_service s = service s" and "\<not> fetch_step env net fis (service s) u"
    and "clients env c \<noteq> None \<Longrightarrow> \<not> run_step (connect c) (client_runs s c) r"
proof -
  note d = send_invD [OF inv] and w = nobody_waits [OF inv stop]
  have "map (seen s) [0..<length (threads (service s))] = threads (service s)"
    by (rule nth_equalityI) (simp_all add: seen_def call_seen_def w)
  then show "view_service s = service s" by (simp add: view_service_def)
  show "\<not> fetch_step env net fis (service s) u"
  proof
    assume "fetch_step env net fis (service s) u"
    then obtain k op rest where k: "k < length (threads (service s))" "threads (service s) ! k = op # rest"
      "\<not> blocked op (service s)" "thread_step env net fis k (service s) = Inr u" by (rule fetch_stepE)
    show False
    proof (cases "\<exists>p i. op = Issue p i")
      case True
      then obtain p i where "op = Issue p i" by blast
      with send_step.call_fetch [OF k(1) _ w refl refl] k(2) stop show False by blast
    next
      case False
      then show False using send_step.work [OF k(1,2) _ k(3,4)] stop by blast
    qed
  qed
  show "\<not> run_step (connect c) (client_runs s c) r" if c: "clients env c \<noteq> None"
  proof
    assume "run_step (connect c) (client_runs s c) r"
    then obtain j where j: "j < length (commands (client_runs s c))" "\<not> has_returned (commands (client_runs s c) ! j)"
      by (rule run_stepE) blast
    then have r: "in_progress s (c, j)" by (simp add: in_progress_def)
    have "mine s (c, j) = None" using calls_okD(4) [OF d(6), of "(c, j)"] w j(2) by (cases "mine s (c, j)") (auto simp: command_of_def)
    with r command_can [OF inv c r] send_step.other [OF c] stop show False by metis
  qed
qed

section \<open>Every key\<close>

definition key_places :: "('m, 'c) service_env \<Rightarrow> fetch_info list \<Rightarrow> (info_ptr \<times> nat) set" where
  "key_places env fis = {(p, i). p < length fis \<and> served env fis p \<and> i < length (keys (fis ! p))}"

lemma single_starts:
  assumes "workable env net fis cdv inst inst'" and "\<not> enable_multi_get env" and "p < length fis"
  shows "starts_of env fis p = (if served env fis p then [0..<length (keys (fis ! p))] else [])"
proof (cases "served env fis p")
  case True
  note w = workable_plan [OF assms(1,3) True]
  have "plan env fis p = (length (keys (fis ! p)), 1)" using w(1) assms(2) by (simp add: batch_plan_def)
  with w(2) True show ?thesis by simp
qed (simp add: starts_of_def)

lemma sent_places:
  assumes w: "workable env net fis cdv inst inst'" and "\<not> enable_multi_get env" and "\<forall>p i. send_ret net p i = 0"
  shows "set (all_sent env net fis) = key_places env fis"
proof -
  have "set (sent_pairs env net fis p) = {(p, i) |i. served env fis p \<and> i < length (keys (fis ! p))}" if "p < length fis" for p
    using single_starts [OF w assms(2) that] assms(3) by (auto simp: sent_pairs_def sent_def)
  then show ?thesis by (auto simp: all_sent_def key_places_def)
qed

lemma made_good:
  assumes inv: "send_inv env net connect nodes fis cdv inst inst' s" and m: "mine s (c, j) = Some (p, i)"
    and made: "call_made (command_of s (c, j))"
  obtains call where "(j, call) \<in> set (issued (client_runs s c))"
    and "good_call (connect c) (nodes c) (keys (fis ! p) ! i, -1, -1) call"
proof -
  obtain gets where g: "run_inv (connect c) (nodes c) gets (client_runs s c)" "j < length gets" "gets ! j = get_of fis p i"
    by (rule mine_run [OF inv m])
  then have lo: "log_ok (connect c) (nodes c) gets (commands (client_runs s c)) (issued (client_runs s c))" by (simp add: run_inv_def)
  then have "j \<in> fst ` set (issued (client_runs s c))" using made g(2) by (simp add: log_ok_def command_of_def)
  then obtain call where "(j, call) \<in> set (issued (client_runs s c))" by force
  with lo g(3) that show ?thesis by (auto simp: log_ok_def get_of_def)
qed

lemma calls_end:
  assumes inv: "send_inv env net connect nodes fis cdv inst inst' s" and stop: "\<forall>t. \<not> send_step env net connect fis s t"
  shows "view_fetch (service s) = (mset (all_sent env net fis), 3, cdv \<noteq> [])"
    and "bij_betw (\<lambda>x. the (mine s x)) (dom (mine s)) (set (all_sent env net fis))"
    and "mine s (c, j) = Some y \<Longrightarrow> j \<in> fst ` set (issued (client_runs s c))"
proof -
  note d = send_invD [OF inv] and e = calls_okD [OF send_invD(6) [OF inv]]
  note z = send_stopped [OF inv stop]
  have j: "join_inv env net fis cdv inst inst' (service s)" using d(3) z(1) by simp
  show v: "view_fetch (service s) = (mset (all_sent env net fis), 3, cdv \<noteq> [])" by (rule stopped_view [OF j z(2)])
  have made: "command_of s x = Returned 0" if "mine s x = Some y" for x y using e(4) [OF that] nobody_waits [OF inv stop] by simp
  then have M: "made_calls s = dom (mine s)" by (auto simp: made_calls_def)
  have "answerable (service s) = mset (all_sent env net fis)"
    using v unfolding answerable_def join_final(1) [OF j z(2)] by (simp add: view_fetch_def)
  then have eq: "image_mset (\<lambda>x. the (mine s x)) (mset_set (dom (mine s))) = mset (all_sent env net fis)" using e(5) by (simp add: M)
  then have "set (all_sent env net fis) = (\<lambda>x. the (mine s x)) ` dom (mine s)"
    using e(1) by (metis finite_set_mset_mset_set set_image_mset set_mset_mset)
  moreover have "card (dom (mine s)) = length (all_sent env net fis)" using arg_cong [OF eq, of size] by simp
  then have "inj_on (\<lambda>x. the (mine s x)) (dom (mine s))"
    using calculation distinct_all_sent [OF join_invD(1) [OF j]] e(1) by (metis distinct_card eq_card_imp_inj_on)
  ultimately show "bij_betw (\<lambda>x. the (mine s x)) (dom (mine s)) (set (all_sent env net fis))" by (simp add: bij_betw_def)
  show "j \<in> fst ` set (issued (client_runs s c))" if m: "mine s (c, j) = Some y"
  proof -
    obtain p i where y: "y = (p, i)" by (cases y)
    show ?thesis by (rule made_good [OF inv m [unfolded y]]) (use made [OF m] in force)+
  qed
qed

lemma pools_end:
  assumes inv: "send_inv env net connect nodes fis cdv inst inst' s" and stop: "\<forall>t. \<not> send_step env net connect fis s t"
    and c: "clients env c \<noteq> None"
  shows "nothing_lent (the_client (client_runs s c))"
proof -
  obtain gets where "run_inv (connect c) (nodes c) gets (client_runs s c)" by (rule clients_okD [OF send_invD(4) [OF inv] c])
  from all_returned(3) [OF this] send_stopped(3) [OF inv stop c] show ?thesis using inv by (simp add: send_inv_def)
qed

section \<open>A request that is ready\<close>

text \<open>What the environment owes a request that sends its keys one by one.\<close>

definition send_ready ::
  "('m, 'c) service_env \<Rightarrow> net \<Rightarrow> (string \<Rightarrow> string \<Rightarrow> nat \<Rightarrow> 'c option) \<Rightarrow> (string \<Rightarrow> node_info list) \<Rightarrow> fetch_info list \<Rightarrow>
   'm fetch_run \<Rightarrow> 'm cache_manager \<Rightarrow> bool"
where
  "send_ready renv net connect nodes fis u inst' \<longleftrightarrow>
     workable renv net fis (cached u) (shared_cache u) inst' \<and> (\<forall>p i. send_ret net p i = 0) \<and>
     \<not> enable_multi_get renv \<and> finite (dom (clients renv)) \<and> (\<forall>c a n. connect c a n \<noteq> None) \<and>
     (\<forall>c cl. clients renv c = Some cl \<longrightarrow> built_from (connect c) (nodes c) cl \<and> one_to_one (connect c))"

definition send_bound :: "('m, 'c) service_env \<Rightarrow> fetch_info list \<Rightarrow> (string \<Rightarrow> get list) \<Rightarrow> nat" where
  "send_bound renv fis others =
     10 * (1 + 7 * length fis + 9 * (\<Sum>p<length fis. length (keys (fis ! p)))) +
     (\<Sum>c\<in>dom (clients renv). 3 * length (others c)) + 4"

lemma send_ready_start:
  assumes "redis_do_service renv now fis0 inst = Inr (rc, fis, u)" and "send_ready renv net connect nodes fis u inst'"
  shows "send_inv renv net connect nodes fis (cached u) (shared_cache u) inst' (start_sending renv others u)"
    and "send_mu renv fis (start_sending renv others u) \<le> send_bound renv fis others"
    and "fetch_log (service (start_sending renv others u)) = []"
proof -
  have r: "workable renv net fis (cached u) (shared_cache u) inst'" "\<forall>p i. send_ret net p i = 0" "\<not> enable_multi_get renv"
    "finite (dom (clients renv))" "\<forall>c a n. connect c a n \<noteq> None"
    "\<forall>c cl. clients renv c = Some cl \<longrightarrow> built_from (connect c) (nodes c) cl \<and> one_to_one (connect c)"
    using assms(2) by (simp_all add: send_ready_def)
  note st = do_service_start [OF assms(1) r(1)]
  note s0 = send_start [OF st(2,3) r(4,2,5,6), of others]
  show "send_inv renv net connect nodes fis (cached u) (shared_cache u) inst' (start_sending renv others u)" by (rule s0(1))
  have "join_mu renv fis u = 1 + 7 * length fis + 9 * (\<Sum>p<length fis. length (starts_of renv fis p))"
    using join_start(2) [OF r(1)] st(2) by simp
  moreover have "(\<Sum>p<length fis. length (starts_of renv fis p)) \<le> (\<Sum>p<length fis. length (keys (fis ! p)))"
    using single_starts [OF r(1,3)] by (intro sum_mono) simp
  ultimately show "send_mu renv fis (start_sending renv others u) \<le> send_bound renv fis others"
    unfolding s0(2) send_bound_def by simp
  have "fetch_log u = []" using st(2) by (metis fetch_run.select_convs(9) first_run_def)
  then show "fetch_log (service (start_sending renv others u)) = []" by (simp add: start_sending_def)
qed

section \<open>The property\<close>

text \<open>C3: A request that fetches its keys one by one is sent by commands of its redis clients, whose steps interleave
  with the callbacks, with each other and with whatever GETs the clients run for others. Every such run is a run of the
  specification of the request and ends after a bounded number of steps; every call of the request is the GET of
  its key on a channel to the node that owns the slot of the key; at the end all batches are answered and the output nodes
  notified, exactly one command of the request belongs to each key of each served \<open>FetchInfo\<close> and has made its call, and
  the pools of the clients count no channel as lent. The node that owns a slot is the last one of the reply that claims it.\<close>

theorem keys_reach_owners:
  assumes "redis_do_service env now fis inst = Inr (rc, fis1, u)" and "send_ready env net connect nodes fis1 u inst'"
    and "(send_step env net connect fis1 ^^ n) (start_sending env others u) s"
  shows "n \<le> send_bound env fis1 others \<and>
    (fetch_spec (mset (all_sent env net fis1)) (cached u \<noteq> []))\<^sup>*\<^sup>* ({#}, 0, False) (view_fetch (service s)) \<and>
    (\<forall>c j p i call. mine s (c, j) = Some (p, i) \<longrightarrow> (j, call) \<in> set (issued (client_runs s c)) \<longrightarrow>
       c = redis_client_id (fis1 ! p) \<and> good_call (connect c) (nodes c) (keys (fis1 ! p) ! i, -1, -1) call) \<and>
    ((\<forall>t. \<not> send_step env net connect fis1 s t) \<longrightarrow>
       view_fetch (service s) = (mset (all_sent env net fis1), 3, cached u \<noteq> []) \<and>
       bij_betw (\<lambda>x. the (mine s x)) (dom (mine s)) (key_places env fis1) \<and>
       (\<forall>(c, j)\<in>dom (mine s). j \<in> fst ` set (issued (client_runs s c))) \<and>
       (\<forall>c\<in>dom (clients env). nothing_lent (the_client (client_runs s c))))"
proof -
  note s0 = send_ready_start [OF assms(1,2), of others]
  have inv: "send_inv env net connect nodes fis1 (cached u) (shared_cache u) inst' s" by (rule sending.relpow_inv [OF assms(3) s0(1)])
  have n: "n \<le> send_bound env fis1 others" using sending.run_bound [OF assms(3) s0(1)] s0(2) by linarith
  have "view_fetch (view_service s) = view_fetch (service s)" by (simp add: view_fetch_def)
  with s0(3) have spec: "(fetch_spec (mset (all_sent env net fis1)) (cached u \<noteq> []))\<^sup>*\<^sup>* ({#}, 0, False) (view_fetch (service s))"
    using sending.chain.runs_sim [OF relpowp_imp_rtranclp [OF assms(3)] s0(1)] by (simp add: view_start view_fetch_def start_sending_def)
  have "c = redis_client_id (fis1 ! p) \<and> good_call (connect c) (nodes c) (keys (fis1 ! p) ! i, -1, -1) call"
    if m: "mine s (c, j) = Some (p, i)" and call: "(j, call) \<in> set (issued (client_runs s c))" for c j p i call
  proof -
    obtain gets where "run_inv (connect c) (nodes c) gets (client_runs s c)" "gets ! j = get_of fis1 p i" by (rule mine_run [OF inv m])
    with run_invD(7) [OF this(1)] call calls_okD(2) [OF send_invD(6) [OF inv] m] show ?thesis
      by (auto simp: log_ok_def get_of_def)
  qed
  moreover have "view_fetch (service s) = (mset (all_sent env net fis1), 3, cached u \<noteq> []) \<and>
      bij_betw (\<lambda>x. the (mine s x)) (dom (mine s)) (key_places env fis1) \<and>
      (\<forall>(c, j)\<in>dom (mine s). j \<in> fst ` set (issued (client_runs s c))) \<and>
      (\<forall>c\<in>dom (clients env). nothing_lent (the_client (client_runs s c)))"
    if stop: "\<forall>t. \<not> send_step env net connect fis1 s t"
  proof -
    have "set (all_sent env net fis1) = key_places env fis1"
      by (rule sent_places [of env net fis1 "cached u" "shared_cache u" inst']) (use assms(2) in \<open>simp_all add: send_ready_def\<close>)
    note e = calls_end [OF inv stop, unfolded this]
    have "j \<in> fst ` set (issued (client_runs s c))" if "(c, j) \<in> dom (mine s)" for c j
      using that e(3) by blast
    moreover have "nothing_lent (the_client (client_runs s c))"
      if "c \<in> dom (clients env)" for c by (rule pools_end [OF inv stop]) (use that in blast)
    ultimately show ?thesis using e(1,2) by blast
  qed
  ultimately show ?thesis using n spec by blast
qed

section \<open>The service of the unit test, without batches\<close>

definition single_net :: net where
  "single_net = \<lparr>send_ret = (\<lambda>p i. 0),
     answer = (\<lambda>p i. (test_cntl, Some (answers False test_db (take 1 (drop i test_keys))))), merge_time = 0\<rparr>"

lemma single_outcomes:
  "case outcome (test_env_of cl False) single_net (plain_fis test_keys) 0 0 of Inr (item, calls) \<Rightarrow> item_info item = Some 0 | _ \<Rightarrow> False"
  "case outcome (test_env_of cl False) single_net (plain_fis test_keys) 0 1 of Inr (item, calls) \<Rightarrow> item_info item = Some 0 | _ \<Rightarrow> False"
  "case outcome (test_env_of cl False) single_net (plain_fis test_keys) 0 2 of Inr (item, calls) \<Rightarrow> item_info item = Some 0 | _ \<Rightarrow> False"
  by code_simp+

lemma single_starts_of: "starts_of (test_env_of cl False) (plain_fis test_keys) 0 = [0, 1, 2]"
proof -
  have "batch_starts (length test_keys) 1 0 = [0, 1, 2]" by (simp add: batch_starts.simps test_keys_def)
  moreover have "test_keys \<noteq> []" by (simp add: test_keys_def)
  ultimately show ?thesis by (simp add: starts_of_def served_def plan_def get_client_def batch_plan_def)
qed

lemma single_workable: "workable (test_env_of cl False) single_net (plain_fis test_keys) [] None None"
proof -
  let ?env = "test_env_of cl False" and ?fis = "plain_fis test_keys"
  let ?items = "map (item_after ?env single_net ?fis 0) [0, 1, 2]"
  have out: "outcome ?env single_net ?fis 0 i \<in> range Inr" if "i \<in> {0, 1, 2}" for i
    using single_outcomes [of cl] that by (auto split: sum.splits)
  have "item_info (item_after ?env single_net ?fis 0 0) = Some 0"
    using single_outcomes(1) [of cl] by (auto simp: item_after_def sent_def single_net_def split: sum.splits prod.splits)
  then have m: "merge_cache_data ?env 0 ?fis (Some [(''0'', ?items)]) None = Inr None"
    by (simp add: merge_cache_data_def cache_results_def)
  have f: "final_results ?env single_net ?fis = [?items]" by (simp add: final_results_def single_starts_of)
  have "merge_time single_net = 0" by (simp add: single_net_def)
  moreover have "map fi_id ?fis = [''0'']" by (simp add: plain_fis_def)
  moreover have "batch_plan ?env (length (keys (?fis ! 0))) \<in> range Inr" by (simp add: batch_plan_def)
  moreover have "length (keys (?fis ! 0)) < 2 ^ 31" by (simp add: test_keys_def)
  ultimately show ?thesis using m out by (simp add: workable_def f single_starts_of)
qed

lemma single_run: "redis_do_service (test_env_of cl False) 0 [plain_info] None =
    Inr (0, plain_fis test_keys, first_run (plain_fis test_keys) [] None)"
  by (simp add: redis_do_service_def first_request)

lemma single_places: "key_places (test_env_of cl False) (plain_fis test_keys) = {(0, 0), (0, 1), (0, 2)}"
  by (auto simp: key_places_def served_def get_client_def) (auto simp: test_keys_def)

lemma single_sent: "all_sent (test_env_of cl False) single_net (plain_fis test_keys) = [(0, 0), (0, 1), (0, 2)]"
  by (simp add: all_sent_def sent_pairs_def single_starts_of sent_def single_net_def)

lemma single_ready:
  obtains cl where "new_client boost_doc (\<lambda>a k. Some (a, k)) (Nodes two_masters) ''10.0.0.1:7000'' [] 100 10 20 0 = Inr cl"
    and "send_ready (test_env_of cl False) single_net (\<lambda>c a k. Some (a, k)) (\<lambda>c. [master1, master2]) (plain_fis test_keys)
      (first_run (plain_fis test_keys) [] None) None"
proof -
  obtain cl where cl: "new_client boost_doc (\<lambda>a k. Some (a, k)) (Nodes two_masters) ''10.0.0.1:7000'' [] 100 10 20 0 = Inr cl"
    using new_client_serves [OF two_masters_parse two_masters_ok, of "\<lambda>a k. Some (a, k)"] by blast
  then have "built_from (\<lambda>a k. Some (a, k)) [master1, master2] cl"
    unfolding built_from_def using two_masters_parse two_masters_ok masters_addresses(1) by blast
  then have "send_ready (test_env_of cl False) single_net (\<lambda>c a k. Some (a, k)) (\<lambda>c. [master1, master2]) (plain_fis test_keys)
      (first_run (plain_fis test_keys) [] None) None"
    using single_workable by (simp add: send_ready_def one_to_one_def single_net_def first_run_def)
  with cl that show ?thesis by blast
qed

theorem keys_reach_owners_witness:
  "\<exists>cl n s. new_client boost_doc (\<lambda>a k. Some (a, k)) (Nodes two_masters) ''10.0.0.1:7000'' [] 100 10 20 0 = Inr cl \<and>
     (send_step (test_env_of cl False) single_net (\<lambda>c a k. Some (a, k)) (plain_fis test_keys) ^^ n)
       (start_sending (test_env_of cl False) (\<lambda>c. [(''foo'', 50, -1)]) (first_run (plain_fis test_keys) [] None)) s \<and>
     view_fetch (service s) = ({#(0, 0), (0, 1), (0, 2)#}, 3, False) \<and>
     bij_betw (\<lambda>x. the (mine s x)) (dom (mine s)) {(0, 0), (0, 1), (0, 2)}"
proof -
  let ?connect = "\<lambda>(c :: string) (a :: string) (k :: nat). Some (a, k)" and ?nodes = "\<lambda>c :: string. [master1, master2]"
  let ?others = "\<lambda>c :: string. [(''foo'', 50, -1)] :: get list" and ?fis = "plain_fis test_keys"
  let ?u = "first_run ?fis [] None :: (string \<times> string \<times> int) list fetch_run"
  obtain cl where cl: "new_client boost_doc (?connect []) (Nodes two_masters) ''10.0.0.1:7000'' [] 100 10 20 0 = Inr cl"
    and ready: "send_ready (test_env_of cl False) single_net ?connect ?nodes ?fis ?u None" by (rule single_ready)
  let ?step = "send_step (test_env_of cl False) single_net ?connect ?fis" and ?s0 = "start_sending (test_env_of cl False) ?others ?u"
  obtain s where s: "?step\<^sup>*\<^sup>* ?s0 s" "\<forall>t. \<not> ?step s t"
    using sending.ends [OF send_ready_start(1) [OF single_run ready, of ?others]] by blast
  obtain n where n: "(?step ^^ n) ?s0 s" using rtranclp_imp_relpowp [OF s(1)] by blast
  have "view_fetch (service s) = ({#(0, 0), (0, 1), (0, 2)#}, 3, False) \<and>
      bij_betw (\<lambda>x. the (mine s x)) (dom (mine s)) {(0, 0), (0, 1), (0, 2)}"
    using keys_reach_owners [OF single_run ready n] s(2) by (simp add: single_sent single_places first_run_def)
  with cl n show ?thesis by blast
qed

end
