(* ===== verification/SendGraph.thy ===== *)
theory SendGraph
  imports AsyncNode RedisSendSpec
begin

text \<open>
  A graph with a redis node that sends with its clients: the tasks of the graph interleave with the threads and
  callbacks of the node's request and with the commands of the clients.
\<close>

section \<open>The node and its work\<close>

definition sends_done :: "('m, 'c) sending \<Rightarrow> bool" where
  \<comment> \<open>\<open>run_output_nodes_if_ready\<close> was called\<close>
  "sends_done w \<longleftrightarrow> Notified \<in> set (fetch_log (service w))"

abbreviation sending_step ::
  "bool \<Rightarrow> exec_env \<Rightarrow> node list \<Rightarrow> ptr \<Rightarrow> ('m, 'c) sending \<Rightarrow> ('m, 'c) service_env \<Rightarrow> net \<Rightarrow>
   (string \<Rightarrow> string \<Rightarrow> nat \<Rightarrow> 'c option) \<Rightarrow> fetch_info list \<Rightarrow>
   ('m, 'c) sending async_state \<Rightarrow> ('m, 'c) sending async_state \<Rightarrow> bool"
where
  "sending_step fatal env h q w0 renv net connect fis \<equiv>
     async_step fatal env h [q \<mapsto> Inr w0] (\<lambda>_. send_step renv net connect fis) (\<lambda>_. sends_done)"

lemma send_step_log:
  assumes "send_step renv net connect fis s t" and "sends_done s"
  shows "sends_done t"
  using assms(1)
proof cases
  case (work k op rest u)
  then obtain new started v where "op_step renv net fis op (service s) = Inr (new, started, v)" "fetch_log u = fetch_log v"
    by (auto simp: thread_step_def res_simps)
  then have "set (fetch_log (service s)) \<subseteq> set (fetch_log u)"
    by (cases op) (auto simp: res_simps parse_cached_def Let_def split: case_splits sum.splits cxx_error.splits)
  then show ?thesis using assms(2) work(1) by (auto simp: sends_done_def)
qed (use assms(2) in \<open>simp_all add: sends_done_def\<close>)

lemma stopped_done:
  assumes "send_inv renv net connect nodes fis cdv inst inst' w" and "\<forall>v. \<not> send_step renv net connect fis w v"
  shows "sends_done w"
proof -
  have j: "join_inv renv net fis cdv inst inst' (service w)"
    using send_invD(3) [OF assms(1)] send_stopped(1) [OF assms] by simp
  from join_final(2) [OF this send_stopped(2) [OF assms]] show ?thesis by (auto simp: sends_done_def)
qed

interpretation redis: async_nodes "\<lambda>_. send_step renv net connect fis" "\<lambda>_. send_inv renv net connect nodes fis cdv inst inst'"
    "\<lambda>_. send_mu renv fis" "\<lambda>_. sends_done"
  for renv :: "('m, 'c) service_env" and net connect nodes fis cdv inst inst'
proof (rule async_nodes.intro)
  show "terminating_system (send_step renv net connect fis) (send_inv renv net connect nodes fis cdv inst inst') (send_mu renv fis)"
    by (rule sending.terminating_system_axioms)
qed (use send_step_log stopped_done in blast)+

section \<open>What the end of the node says\<close>

definition keys_answered ::
  "('m, 'c) service_env \<Rightarrow> (string \<Rightarrow> string \<Rightarrow> nat \<Rightarrow> 'c option) \<Rightarrow> (string \<Rightarrow> node_info list) \<Rightarrow> fetch_info list \<Rightarrow>
   ('m, 'c) sending \<Rightarrow> bool"
where
  \<comment> \<open>each key was asked for at the owner of its slot, each answer has come, and \<open>process_response\<close> was called\<close>
  "keys_answered renv connect nodes fis w \<longleftrightarrow>
     (\<forall>(p, i)\<in>key_places renv fis. let c = redis_client_id (fis ! p) in
        \<exists>j call. mine w (c, j) = Some (p, i) \<and> (j, call) \<in> set (issued (client_runs w c)) \<and>
          good_call (connect c) (nodes c) (keys (fis ! p) ! i, -1, -1) call) \<and>
     set_mset (replied (fetch_log (service w))) = key_places renv fis \<and> Responded \<in> set (fetch_log (service w))"

lemma done_answered:
  assumes inv: "send_inv renv net connect nodes fis cdv inst inst' w" and d: "sends_done w"
    and one: "\<not> enable_multi_get renv"
  shows "keys_answered renv connect nodes fis w"
proof -
  note s = send_invD [OF inv] and e = calls_okD [OF send_invD(6) [OF inv]]
  have "Notified \<in> set (fetch_log (view_service w))" using d by (simp add: sends_done_def)
  note r = notified_responded [OF s(3) this]
  have places: "set (all_sent renv net fis) = key_places renv fis"
    by (rule sent_places [OF join_invD(1) [OF s(3)] one]) (use s(1) in blast)
  have rep: "set_mset (replied (fetch_log (service w))) = key_places renv fis" using r(3) places by simp
  have "\<exists>j call. mine w (redis_client_id (fis ! p), j) = Some (p, i) \<and>
      (j, call) \<in> set (issued (client_runs w (redis_client_id (fis ! p)))) \<and>
      good_call (connect (redis_client_id (fis ! p))) (nodes (redis_client_id (fis ! p))) (keys (fis ! p) ! i, -1, -1) call"
    if pi: "(p, i) \<in> key_places renv fis" for p i
  proof -
    have "(p, i) \<in># answerable (service w)" using pi rep by (simp add: answerable_def)
    then have "(p, i) \<in> (\<lambda>x. the (mine w x)) ` made_calls w" using e(1) by (simp flip: e(5) add: made_calls_def)
    then obtain c j where m: "mine w (c, j) = Some (p, i)" "call_made (command_of w (c, j))" by (auto simp: made_calls_def)
    show ?thesis using e(2) [OF m(1)] made_good [OF inv m] m(1) by metis
  qed
  then show ?thesis using rep r(1) by (auto simp: keys_answered_def Let_def)
qed

section \<open>The property\<close>

lemma sending_start:
  assumes "prepared g h r n" and "run fatal g h = Inr (0, Some s0)"
    and "redis_do_service renv now fis0 inst = Inr (rc, fis, u)" and "send_ready renv net connect nodes fis u inst'"
  shows "async_inv h r n [q \<mapsto> Inr (start_sending renv others u)]
      (\<lambda>_. send_inv renv net connect nodes fis (cached u) (shared_cache u) inst') (\<lambda>_. sends_done) (s0, Map.empty)"
    and "view_exec s0 = ({}, {})" and "exec_mu h n s0 = (\<Sum>p<n. cost h p)"
proof -
  let ?start = "[q \<mapsto> Inr (start_sending renv others u)]"
  note rs = send_ready_start [OF assms(3,4), of others]
  have starts: "\<exists>w. ?start p = Some (Inr w) \<and> send_inv renv net connect nodes fis (cached u) (shared_cache u) inst' w \<and> \<not> sends_done w"
    if "p \<in> dom ?start" for p using that rs(1,3) by (simp add: sends_done_def)
  note g = redis.graph_start [where start = ?start, OF assms(1,2) starts]
  show "async_inv h r n ?start (\<lambda>_. send_inv renv net connect nodes fis (cached u) (shared_cache u) inst') (\<lambda>_. sends_done)
      (s0, Map.empty)" by (rule g(1))
  show "view_exec s0 = ({}, {})" by (rule g(2))
  show "exec_mu h n s0 = (\<Sum>p<n. cost h p)" by (rule g(3))
qed

text \<open>C2: A graph with a redis node whose request is sent by commands of its clients, under every interleaving of the
  tasks of the graph, the threads and callbacks of the request, and the commands of the clients: the graph runs as the
  scheduler allows, so nothing that depends on the redis node starts before every key of the request was asked for at the
  node that owns its slot, every answer has come and \<open>process_response\<close> was called; the number of steps is bounded, and the
  graph stops only when every node ran once, the request is over and no client counts a channel as lent.
  The keys are fetched one by one (\<open>enable_multi_get\<close> is off), and the node that owns a slot is the last one of the reply
  that claims it.\<close>

theorem graph_sends_to_owners:
  assumes "prepared g h r n" and "run fatal g h = Inr (0, Some s0)" and "q < n"
    and "redis_do_service renv now fis0 inst = Inr (rc, fis, u)" and "send_ready renv net connect nodes fis u inst'"
    and "(sending_step fatal env h q (start_sending renv others u) renv net connect fis ^^ m) (s0, Map.empty) (s, f)"
  shows "m \<le> (\<Sum>p<n. cost h p) + send_bound renv fis others \<and>
    (dag_step h n)\<^sup>*\<^sup>* ({}, {}) (view_exec s) \<and>
    (q \<in> ended (trace s) \<longrightarrow> (\<exists>w. f q = Some w \<and> keys_answered renv connect nodes fis w)) \<and>
    ((\<forall>y. \<not> sending_step fatal env h q (start_sending renv others u) renv net connect fis (s, f) y) \<longrightarrow>
       tasks s = [] \<and> begun (trace s) = mset_set {..<n} \<and>
       (\<exists>w. f q = Some w \<and> keys_answered renv connect nodes fis w \<and>
         view_fetch (service w) = (mset (all_sent renv net fis), 3, cached u \<noteq> []) \<and>
         (\<forall>c\<in>dom (clients renv). nothing_lent (the_client (client_runs w c)))))"
proof (intro conjI impI)
  let ?w0 = "start_sending renv others u" and ?winv = "send_inv renv net connect nodes fis (cached u) (shared_cache u) inst'"
  note rs = send_ready_start [OF assms(4,5), of others]
  note st = sending_start(1) [where q = q and others = others, OF assms(1,2,4,5)] sending_start(2,3) [OF assms(1,2,4,5)]
  note run = redis.graph.relpow_inv [OF assms(6) st(1)] redis.graph.run_bound [OF assms(6) st(1)]
  note i = async_invD [OF run(1)]
  have one: "\<not> enable_multi_get renv" using assms(5) by (simp add: send_ready_def)
  have "{p. p < n \<and> p \<in> dom [q \<mapsto> Inr ?w0]} = {q}" using assms(3) by auto
  then have "work_mu [q \<mapsto> Inr ?w0] (\<lambda>_. send_mu renv fis) n Map.empty = send_mu renv fis ?w0" by (simp add: work_mu_def)
  with run(2) st(3) rs(2) show "m \<le> (\<Sum>p<n. cost h p) + send_bound renv fis others" by simp
  show "(dag_step h n)\<^sup>*\<^sup>* ({}, {}) (view_exec s)"
    using redis.schedule.chain.runs_sim [OF relpowp_imp_rtranclp [OF assms(6)] st(1)] by (simp add: st(2))
  show "\<exists>w. f q = Some w \<and> keys_answered renv connect nodes fis w" if q: "q \<in> ended (trace s)"
  proof -
    have "q \<in># begun (trace s)" using ended_begun [OF i(1), of q] q by (simp add: started_eq)
    then obtain w where w: "f q = Some w" using i(6) [of q] by (cases "f q") auto
    from done_answered [OF i(7) [OF w] _ one] i(8) [OF w] q w show ?thesis by blast
  qed
  assume stop: "\<forall>y. \<not> sending_step fatal env h q ?w0 renv net connect fis (s, f) y"
  note e = redis.graph_stops [OF run(1)]
  show t: "tasks s = []" by (rule e(1)) (use stop in blast)
  show "begun (trace s) = mset_set {..<n}" by (rule exec_final(1) [OF i(1) t])
  have "\<exists>w. f q = Some w \<and> ?winv w \<and> (\<forall>v. \<not> send_step renv net connect fis w v)"
    by (rule e(2)) (use stop assms(3) in auto)
  then obtain w where w: "f q = Some w" "?winv w" "\<forall>v. \<not> send_step renv net connect fis w v" by blast
  have "keys_answered renv connect nodes fis w" by (rule done_answered [OF w(2) stopped_done [OF w(2,3)] one])
  with w calls_end(1) [OF w(2,3)] pools_end [OF w(2,3)]
  show "\<exists>w. f q = Some w \<and> keys_answered renv connect nodes fis w \<and>
      view_fetch (service w) = (mset (all_sent renv net fis), 3, cached u \<noteq> []) \<and>
      (\<forall>c\<in>dom (clients renv). nothing_lent (the_client (client_runs w c)))"
    by blast
qed

text \<open>The graph of the unit test, whose node 1 is the redis node, which fetches three keys.\<close>

theorem graph_sends_to_owners_witness:
  "\<exists>cl m s f w. new_client boost_doc (\<lambda>a k. Some (a, k)) (Nodes two_masters) ''10.0.0.1:7000'' [] 100 10 20 0 = Inr cl \<and>
     (sending_step False unit_env unit_nodes 1
        (start_sending (test_env_of cl False) (\<lambda>c. [(''foo'', 50, -1)]) (first_run (plain_fis test_keys) [] None))
        (test_env_of cl False) single_net (\<lambda>c a k. Some (a, k)) (plain_fis test_keys) ^^ m) (unit_start, Map.empty) (s, f) \<and>
     begun (trace s) = mset_set {..<4} \<and> f 1 = Some w \<and>
     keys_answered (test_env_of cl False) (\<lambda>c a k. Some (a, k)) (\<lambda>c. [master1, master2]) (plain_fis test_keys) w \<and>
     view_fetch (service w) = ({#(0, 0), (0, 1), (0, 2)#}, 3, False)"
proof -
  let ?connect = "\<lambda>(c :: string) (a :: string) (k :: nat). Some (a, k)" and ?nodes = "\<lambda>c :: string. [master1, master2]"
  let ?others = "\<lambda>c :: string. [(''foo'', 50, -1)] :: get list" and ?fis = "plain_fis test_keys"
  let ?u = "first_run ?fis [] None :: (string \<times> string \<times> int) list fetch_run"
  obtain cl where cl: "new_client boost_doc (?connect []) (Nodes two_masters) ''10.0.0.1:7000'' [] 100 10 20 0 = Inr cl"
    and ready: "send_ready (test_env_of cl False) single_net ?connect ?nodes ?fis ?u None"
    by (rule single_ready)
  let ?env = "test_env_of cl False"
  let ?step = "sending_step False unit_env unit_nodes 1 (start_sending ?env ?others ?u) ?env single_net ?connect ?fis"
  obtain x where x: "?step\<^sup>*\<^sup>* (unit_start, Map.empty) x" "\<forall>y. \<not> ?step x y"
    using redis.graph.ends [OF sending_start(1) [OF unit_prepared unit_run single_run ready]] by blast
  obtain s f where sf: "x = (s, f)" by (cases x)
  obtain m where m: "(?step ^^ m) (unit_start, Map.empty) (s, f)" using rtranclp_imp_relpowp [OF x(1)] sf by blast
  have "(1 :: nat) < 4" "cached ?u = []" by (simp_all add: first_run_def)
  with graph_sends_to_owners [OF unit_prepared unit_run _ single_run ready m] x(2) cl m show ?thesis
    by (simp add: sf single_sent) blast
qed

end
