(* ===== verification/ThreadPool.thy ===== *)
theory ThreadPool
  imports CString
begin

text \<open>
  \<open>frame/ThreadPool.h\<close>: worker threads that serve a queue of tasks under a mutex and a condition
  variable. What happens while the mutex is held is one step; the notifications, which are sent
  after it was released, are steps of their own, so that a worker may go to sleep between the
  insertion of a task and its notification. A waiting thread may wake up without a notification.
  Tasks are packaged tasks: they do not throw into the worker.
\<close>

section \<open>Workers and queue\<close>

datatype 'j worker =
    Ready \<comment> \<open>about to take the mutex and to look at the queue\<close>
  | Waiting \<comment> \<open>asleep in \<open>condition.wait\<close>\<close>
  | Running 'j \<comment> \<open>inside \<open>task()\<close>\<close>
  | Exited

datatype phase =
    Open \<comment> \<open>the destructor was not called\<close>
  | Stopping \<comment> \<open>\<open>stop\<close> is set, \<open>notify_all\<close> not yet called\<close>
  | Joining \<comment> \<open>\<open>notify_all\<close> was called, the workers are joined\<close>

record 'j thread_pool =
  jobs :: "'j list" \<comment> \<open>\<open>tasks\<close>\<close>
  stop :: bool
  workers :: "'j worker list"
  pending :: nat \<comment> \<open>calls of \<open>enqueue\<close> between the insertion and \<open>notify_one\<close>\<close>
  destr :: phase
  accepted :: "'j list" \<comment> \<open>what \<open>enqueue\<close> took, in order\<close>
  started :: "'j list" \<comment> \<open>what workers took from the queue, in order\<close>
  finished :: "'j list"

definition new_thread_pool :: "nat \<Rightarrow> 'j thread_pool" where
  "new_thread_pool threads =
     \<lparr>jobs = [], stop = False, workers = replicate threads Ready, pending = 0, destr = Open,
      accepted = [], started = [], finished = []\<rparr>"

definition thread_name :: "string \<Rightarrow> nat \<Rightarrow> string" where
  "thread_name nm i =
     (let trunc_thread_name = nm @ to_string i
      in if length trunc_thread_name \<ge> 16 then take 15 trunc_thread_name else trunc_thread_name)"

definition queue_size :: "'j thread_pool \<Rightarrow> int" where
  "queue_size s = int32 (int (length (jobs s)))"

definition enqueue :: "'j \<Rightarrow> 'j thread_pool \<Rightarrow> 'j thread_pool res" where
  "enqueue j s =
     (if stop s then Inl (Thrown ''enqueue on stopped ThreadPool'')
      else Inr (s\<lparr>jobs := jobs s @ [j], pending := Suc (pending s), accepted := accepted s @ [j]\<rparr>))"

text \<open>A worker that holds the mutex: it leaves, takes the first task, or waits.\<close>

definition look :: "nat \<Rightarrow> 'j thread_pool \<Rightarrow> 'j thread_pool" where
  "look i s =
     (if stop s \<and> jobs s = [] then s\<lparr>workers := (workers s)[i := Exited]\<rparr>
      else case jobs s of
             [] \<Rightarrow> s\<lparr>workers := (workers s)[i := Waiting]\<rparr>
           | j # js \<Rightarrow> s\<lparr>jobs := js, workers := (workers s)[i := Running j], started := started s @ [j]\<rparr>)"

definition finish :: "nat \<Rightarrow> 'j \<Rightarrow> 'j thread_pool \<Rightarrow> 'j thread_pool" where
  "finish i j s = s\<lparr>workers := (workers s)[i := Ready], finished := finished s @ [j]\<rparr>"

definition wake :: "nat \<Rightarrow> 'j thread_pool \<Rightarrow> 'j thread_pool" where
  "wake i s = s\<lparr>workers := (workers s)[i := Ready]\<rparr>"

definition set_stop :: "'j thread_pool \<Rightarrow> 'j thread_pool" where
  "set_stop s = s\<lparr>stop := True, destr := Stopping\<rparr>"

definition notify_all :: "'j thread_pool \<Rightarrow> 'j thread_pool" where
  "notify_all s =
     s\<lparr>workers := map (\<lambda>w. case w of Waiting \<Rightarrow> Ready | _ \<Rightarrow> w) (workers s), destr := Joining\<rparr>"

definition joined :: "'j thread_pool \<Rightarrow> bool" where
  \<comment> \<open>every \<open>join\<close> of the destructor returns\<close>
  "joined s \<longleftrightarrow> destr s = Joining \<and> (\<forall>w\<in>set (workers s). w = Exited)"

inductive pool_step :: "'j thread_pool \<Rightarrow> 'j thread_pool \<Rightarrow> bool" where
  enqueue: "enqueue j s = Inr t \<Longrightarrow> pool_step s t"
| notify_one: "0 < pending s \<Longrightarrow> i < length (workers s) \<Longrightarrow> workers s ! i = Waiting \<Longrightarrow>
    pool_step s (wake i (s\<lparr>pending := pending s - 1\<rparr>))"
| notify_none: "0 < pending s \<Longrightarrow> Waiting \<notin> set (workers s) \<Longrightarrow>
    pool_step s (s\<lparr>pending := pending s - 1\<rparr>)"
| look: "i < length (workers s) \<Longrightarrow> workers s ! i = Ready \<Longrightarrow> pool_step s (look i s)"
| spurious: "i < length (workers s) \<Longrightarrow> workers s ! i = Waiting \<Longrightarrow> pool_step s (wake i s)"
| finish: "i < length (workers s) \<Longrightarrow> workers s ! i = Running j \<Longrightarrow> pool_step s (finish i j s)"
| set_stop: "destr s = Open \<Longrightarrow> pool_step s (set_stop s)"
| notify_all: "destr s = Stopping \<Longrightarrow> pool_step s (notify_all s)"

inductive_cases pool_stepE: "pool_step s t"

section \<open>The invariant\<close>

fun running :: "'j worker \<Rightarrow> 'j multiset" where
  "running (Running j) = {#j#}"
| "running _ = {#}"

definition in_work :: "'j worker list \<Rightarrow> 'j multiset" where
  "in_work ws = sum_list (map running ws)"

fun awake :: "'j worker \<Rightarrow> bool" where
  "awake Ready = True"
| "awake (Running j) = True"
| "awake _ = False"

definition pool_inv :: "'j thread_pool \<Rightarrow> bool" where
  "pool_inv s \<longleftrightarrow>
     accepted s = started s @ jobs s \<and>
     mset (started s) = in_work (workers s) + mset (finished s) \<and>
     (Exited \<in> set (workers s) \<longrightarrow> stop s \<and> jobs s = []) \<and>
     (stop s \<longleftrightarrow> destr s \<noteq> Open) \<and>
     (destr s = Joining \<longrightarrow> Waiting \<notin> set (workers s)) \<and>
     (jobs s \<noteq> [] \<longrightarrow> Waiting \<in> set (workers s) \<longrightarrow>
        0 < pending s \<or> (\<exists>w\<in>set (workers s). awake w) \<or> destr s = Stopping)"

lemma in_work_update:
  assumes "i < length ws"
  shows "in_work (ws[i := w]) + running (ws ! i) = in_work ws + running w"
  using assms
proof (induction ws arbitrary: i)
  case (Cons a ws)
  then show ?case by (cases i) (auto simp: in_work_def ac_simps)
qed simp

lemma in_work_quiet:
  "i < length ws \<Longrightarrow> running (ws ! i) = {#} \<Longrightarrow> running w = {#} \<Longrightarrow> in_work (ws[i := w]) = in_work ws"
  using in_work_update [of i ws w] by simp

lemma in_work_notify_all:
  "in_work (map (\<lambda>w. case w of Waiting \<Rightarrow> Ready | _ \<Rightarrow> w) ws) = in_work ws"
  by (induction ws) (auto simp: in_work_def split: worker.splits)

lemma new_threads_inv: "pool_inv (new_thread_pool n)"
proof -
  have "in_work (replicate n Ready) = {#}" by (induction n) (simp_all add: in_work_def)
  then show ?thesis by (auto simp: pool_inv_def new_thread_pool_def)
qed

lemma in_set_update: "i < length ws \<Longrightarrow> w \<in> set (ws[i := w])"
  by (rule set_update_memI)

lemma set_update_cases: "v \<in> set (ws[i := w]) \<Longrightarrow> v = w \<or> v \<in> set ws"
  using set_update_subset_insert [of ws i w] by auto

lemma wake_inv:
  assumes "pool_inv s" and "i < length (workers s)" and "workers s ! i = Waiting"
    and "p \<le> pending s"
  shows "pool_inv (wake i (s\<lparr>pending := p\<rparr>))"
proof -
  let ?ws = "(workers s)[i := Ready]"
  have work: "in_work ?ws = in_work (workers s)" using assms by (simp add: in_work_quiet)
  have up: "\<exists>w\<in>set ?ws. awake w" using in_set_update [OF assms(2), of Ready] by force
  have old: "Exited \<in> set ?ws \<Longrightarrow> Exited \<in> set (workers s)" "Waiting \<in> set ?ws \<Longrightarrow> Waiting \<in> set (workers s)"
    using set_update_cases [of _ "workers s" i Ready] by blast+
  show ?thesis
    using assms(1) up old unfolding pool_inv_def wake_def by (simp add: work) blast
qed

lemma enqueue_inv:
  assumes "pool_inv s" and "enqueue j s = Inr t"
  shows "pool_inv t"
  using assms by (auto simp: pool_inv_def enqueue_def split: if_splits)

lemma look_inv:
  assumes inv: "pool_inv s" and i: "i < length (workers s)" "workers s ! i = Ready"
  shows "pool_inv (look i s)"
proof -
  have sub: "v \<in> set ((workers s)[i := w]) \<Longrightarrow> v = w \<or> v \<in> set (workers s)" for v w
    by (rule set_update_cases)
  show ?thesis
  proof (cases "jobs s")
    case Nil
    have w: "in_work ((workers s)[i := w]) = in_work (workers s)" if "running w = {#}" for w
      using that i by (simp add: in_work_quiet)
    show ?thesis
    proof (cases "stop s")
      case True
      then show ?thesis using Nil inv w [of Exited] sub [of _ Exited] unfolding pool_inv_def look_def by auto
    next
      case False
      then have "destr s = Open" using inv by (auto simp: pool_inv_def)
      then show ?thesis using Nil False inv w [of Waiting] sub [of _ Waiting] unfolding pool_inv_def look_def by auto
    qed
  next
    case (Cons j js)
    have "in_work ((workers s)[i := Running j]) = in_work (workers s) + {#j#}"
      using in_work_update [OF i(1), of "Running j"] i(2) by simp
    moreover have "\<exists>w\<in>set ((workers s)[i := Running j]). awake w"
      using in_set_update [OF i(1), of "Running j"] by force
    ultimately show ?thesis using Cons inv sub [of _ "Running j"] unfolding pool_inv_def look_def by auto
  qed
qed

lemma finish_inv:
  assumes inv: "pool_inv s" and i: "i < length (workers s)" "workers s ! i = Running j"
  shows "pool_inv (finish i j s)"
proof -
  have "in_work ((workers s)[i := Ready]) + {#j#} = in_work (workers s)"
    using in_work_update [OF i(1), of Ready] i(2) by simp
  then have m: "mset (started s) = in_work ((workers s)[i := Ready]) + (add_mset j (mset (finished s)))"
    using inv unfolding pool_inv_def by (metis add_mset_add_single union_assoc union_commute)
  have "\<exists>w\<in>set ((workers s)[i := Ready]). awake w"
    using in_set_update [OF i(1), of Ready] by force
  with m show ?thesis
    using inv set_update_cases [of _ "workers s" i Ready] unfolding pool_inv_def finish_def by auto
qed

lemma pool_step_inv:
  assumes inv: "pool_inv s" and step: "pool_step s t"
  shows "pool_inv t"
  using step
proof cases
  case (enqueue j)
  then show ?thesis using enqueue_inv [OF inv] by blast
next
  case (notify_one i)
  then show ?thesis using wake_inv [OF inv, of i "pending s - 1"] by simp
next
  case notify_none
  then show ?thesis using inv by (auto simp: pool_inv_def)
next
  case (look i)
  then show ?thesis using look_inv [OF inv] by blast
next
  case (spurious i)
  then show ?thesis using wake_inv [OF inv, of i "pending s"] by simp
next
  case (finish i j)
  then show ?thesis using finish_inv [OF inv] by blast
next
  case set_stop
  then show ?thesis using inv by (auto simp: pool_inv_def set_stop_def)
next
  case notify_all
  have "v \<in> set (map (\<lambda>w. case w of Waiting \<Rightarrow> Ready | _ \<Rightarrow> w) ws) \<Longrightarrow> v \<noteq> Waiting \<and> (v \<in> set ws \<or> v = Ready)"
    for v :: "'a worker" and ws
    by (auto split: worker.splits)
  with notify_all show ?thesis
    using inv unfolding pool_inv_def notify_all_def by (auto simp: in_work_notify_all)
qed

section \<open>The pool stops\<close>

fun effort :: "'j worker \<Rightarrow> nat" where
  "effort Ready = 1"
| "effort Waiting = 2"
| "effort (Running j) = 2"
| "effort Exited = 0"

definition pool_mu :: "'j thread_pool \<Rightarrow> nat" where
  "pool_mu s = 2 * length (jobs s) + sum_list (map effort (workers s)) + pending s +
     (case destr s of Open \<Rightarrow> 2 | Stopping \<Rightarrow> 1 | Joining \<Rightarrow> 0)"

lemma effort_update:
  "i < length ws \<Longrightarrow> sum_list (map effort (ws[i := w])) + effort (ws ! i) = sum_list (map effort ws) + effort w"
  by (rule sum_list_list_update)

lemma effort_notify_all:
  "sum_list (map effort (map (\<lambda>w. case w of Waiting \<Rightarrow> Ready | _ \<Rightarrow> w) ws)) \<le> sum_list (map effort ws)"
proof (induction ws)
  case (Cons w ws)
  then show ?case by (cases w) simp_all
qed simp

lemma pool_step_stopped:
  assumes inv: "pool_inv s" and st: "stop s" and step: "pool_step s t"
  shows "stop t \<and> pool_mu t < pool_mu s"
  using step
proof cases
  case (enqueue j)
  then show ?thesis using st by (simp add: enqueue_def)
next
  case (notify_one i)
  then show ?thesis using st effort_update [of i "workers s" Ready] by (simp add: pool_mu_def wake_def)
next
  case notify_none
  then show ?thesis using st by (simp add: pool_mu_def)
next
  case (look i)
  show ?thesis
  proof (cases "jobs s")
    case Nil
    then show ?thesis using look st effort_update [of i "workers s" Exited]
      by (simp add: pool_mu_def look_def)
  next
    case (Cons j js)
    then show ?thesis using look st effort_update [of i "workers s" "Running j"]
      by (simp add: pool_mu_def look_def)
  qed
next
  case (spurious i)
  then show ?thesis using st effort_update [of i "workers s" Ready] by (simp add: pool_mu_def wake_def)
next
  case (finish i j)
  then show ?thesis using st effort_update [of i "workers s" Ready] by (simp add: pool_mu_def finish_def)
next
  case set_stop
  then show ?thesis using st inv by (simp add: pool_inv_def)
next
  case notify_all
  then show ?thesis using st effort_notify_all [of "workers s"] by (simp add: pool_mu_def notify_all_def)
qed

interpretation pool_run: invariant_system pool_step pool_inv
  by unfold_locales (rule pool_step_inv)

interpretation stopping: terminating_system pool_step "\<lambda>s. pool_inv s \<and> stop s" pool_mu
  by unfold_locales (blast intro: pool_step_inv dest: pool_step_stopped)+

text \<open>While anything is left to do, some worker or the destructor can move.\<close>

lemma pool_progress:
  assumes inv: "pool_inv s" and st: "stop s" and stuck: "\<forall>t. \<not> pool_step s t"
  shows "joined s \<and> jobs s = [] \<and> mset (finished s) = mset (accepted s) \<or> (workers s = [] \<and> destr s = Joining)"
proof -
  have "destr s \<noteq> Stopping" using stuck pool_step.notify_all by blast
  then have j: "destr s = Joining" using inv st by (cases "destr s") (auto simp: pool_inv_def)
  have ex: "w = Exited" if w: "w \<in> set (workers s)" for w
  proof -
    obtain i where i: "i < length (workers s)" "workers s ! i = w" using w by (auto simp: in_set_conv_nth)
    show ?thesis
    proof (cases w)
      case Ready
      then show ?thesis using i stuck pool_step.look by blast
    next
      case Waiting
      then show ?thesis using w inv j by (simp add: pool_inv_def)
    next
      case (Running j)
      then have "workers s ! i = Running j" using i(2) by simp
      from pool_step.finish [OF i(1) this] show ?thesis using stuck by simp
    qed
  qed
  show ?thesis
  proof (cases "workers s = []")
    case False
    then have "Exited \<in> set (workers s)" using ex by (metis list.set_intros(1) neq_Nil_conv)
    then have "jobs s = []" using inv by (simp add: pool_inv_def)
    moreover have "in_work ws = {#}" if "\<forall>w\<in>set ws. w = Exited" for ws :: "'a worker list"
      using that by (induction ws) (auto simp: in_work_def)
    then have "in_work (workers s) = {#}" using ex by blast
    ultimately show ?thesis using inv ex j by (simp add: pool_inv_def joined_def)
  qed (use j in simp)
qed


lemma pool_step_workers: "pool_step s t \<Longrightarrow> length (workers t) = length (workers s)"
  by (erule pool_step.cases)
    (auto simp: enqueue_def wake_def look_def finish_def set_stop_def notify_all_def split: if_splits list.splits)

lemma pool_steps_workers: "pool_step\<^sup>*\<^sup>* s t \<Longrightarrow> length (workers t) = length (workers s)"
  by (induction rule: rtranclp_induct) (simp_all add: pool_step_workers)

lemma stopped_steps_accepted: "pool_step\<^sup>*\<^sup>* s t \<Longrightarrow> pool_inv s \<Longrightarrow> stop s \<Longrightarrow> accepted t = accepted s"
proof (induction rule: rtranclp_induct)
  case (step t u)
  have "stop t" using stopping.steps_inv [OF step.hyps(1)] step.prems by simp
  with step.hyps(2) have "accepted u = accepted t"
    by cases (auto simp: enqueue_def wake_def look_def finish_def set_stop_def notify_all_def split: list.splits)
  with step show ?case by simp
qed simp

section \<open>The pool serves its queue\<close>

text \<open>The steps that the pool makes by itself, with no new task, no destructor that begins and
  no wake-up without a notification: a worker that looks or returns from its task, and the
  notifications that are still to be sent.\<close>

inductive serve_step :: "'j thread_pool \<Rightarrow> 'j thread_pool \<Rightarrow> bool" where
  notify_one: "0 < pending s \<Longrightarrow> i < length (workers s) \<Longrightarrow> workers s ! i = Waiting \<Longrightarrow>
    serve_step s (wake i (s\<lparr>pending := pending s - 1\<rparr>))"
| notify_none: "0 < pending s \<Longrightarrow> Waiting \<notin> set (workers s) \<Longrightarrow>
    serve_step s (s\<lparr>pending := pending s - 1\<rparr>)"
| look: "i < length (workers s) \<Longrightarrow> workers s ! i = Ready \<Longrightarrow> serve_step s (look i s)"
| finish: "i < length (workers s) \<Longrightarrow> workers s ! i = Running j \<Longrightarrow> serve_step s (finish i j s)"
| notify_all: "destr s = Stopping \<Longrightarrow> serve_step s (notify_all s)"

lemma serve_pool_step: "serve_step s t \<Longrightarrow> pool_step s t"
  by (induction rule: serve_step.induct) (erule (2) pool_step.intros | erule (1) pool_step.intros | erule pool_step.intros)+

lemma serve_pool_steps: "serve_step\<^sup>*\<^sup>* s t \<Longrightarrow> pool_step\<^sup>*\<^sup>* s t"
  by (induction rule: rtranclp_induct) (auto dest: serve_pool_step)

lemma serve_steps_accepted: "serve_step\<^sup>*\<^sup>* s t \<Longrightarrow> accepted t = accepted s"
proof (induction rule: rtranclp_induct)
  case (step t u)
  from step.hyps(2) have "accepted u = accepted t"
    by cases (auto simp: wake_def look_def finish_def notify_all_def split: list.splits)
  with step.IH show ?case by simp
qed simp

fun serve_effort :: "'j worker \<Rightarrow> nat" where
  "serve_effort Ready = 1"
| "serve_effort Waiting = 0"
| "serve_effort (Running j) = 2"
| "serve_effort Exited = 0"

definition serve_mu :: "'j thread_pool \<Rightarrow> nat" where
  "serve_mu s = 2 * length (jobs s) + sum_list (map serve_effort (workers s)) + 2 * pending s +
     (if destr s = Stopping then Suc (length (workers s)) else 0)"

lemma serve_effort_update:
  "i < length ws \<Longrightarrow> sum_list (map serve_effort (ws[i := w])) + serve_effort (ws ! i) =
    sum_list (map serve_effort ws) + serve_effort w"
  by (rule sum_list_list_update)

lemma serve_effort_notify_all:
  "sum_list (map serve_effort (map (\<lambda>w. case w of Waiting \<Rightarrow> Ready | _ \<Rightarrow> w) ws)) \<le>
    sum_list (map serve_effort ws) + length ws"
proof (induction ws)
  case (Cons w ws)
  then show ?case by (cases w) simp_all
qed simp

lemma serve_step_mu: "serve_step s t \<Longrightarrow> serve_mu t < serve_mu s"
proof (induction rule: serve_step.induct)
  case (notify_one s i)
  then show ?case using serve_effort_update [of i "workers s" Ready] by (simp add: serve_mu_def wake_def)
next
  case (look i s)
  have "serve_effort w \<le> 2 \<and> (w = Waiting \<or> w = Exited \<longrightarrow> serve_effort w = 0)" for w :: "'a worker"
    by (cases w) auto
  with look show ?case
    using serve_effort_update [of i "workers s" Exited] serve_effort_update [of i "workers s" Waiting]
      serve_effort_update [of i "workers s" "Running (hd (jobs s))"]
    by (cases "jobs s") (simp_all add: serve_mu_def look_def)
next
  case (finish i s j)
  then show ?case using serve_effort_update [of i "workers s" Ready] by (simp add: serve_mu_def finish_def)
next
  case (notify_all s)
  then show ?case using serve_effort_notify_all [of "workers s"] by (simp add: serve_mu_def notify_all_def)
qed (simp add: serve_mu_def)

interpretation serving: terminating_system serve_step pool_inv serve_mu
  by unfold_locales (blast intro: pool_step_inv serve_pool_step serve_step_mu)+

lemma pool_awake:
  assumes inv: "pool_inv s" and "workers s \<noteq> []" and "jobs s \<noteq> []"
  shows "(\<exists>w\<in>set (workers s). awake w) \<or> 0 < pending s \<or> destr s = Stopping"
proof -
  obtain w where w: "w \<in> set (workers s)" using assms(2) by (cases "workers s") auto
  show ?thesis
  proof (cases w)
    case Waiting
    then show ?thesis using w inv assms(3) by (auto simp: pool_inv_def)
  next
    case Exited
    then show ?thesis using w inv assms(3) by (auto simp: pool_inv_def)
  qed (use w in force)+
qed

lemma served_idle:
  assumes stuck: "\<forall>u. \<not> serve_step s u"
  shows "\<forall>w\<in>set (workers s). w = Waiting \<or> w = Exited" and "pending s = 0" and "destr s \<noteq> Stopping"
proof -
  show "\<forall>w\<in>set (workers s). w = Waiting \<or> w = Exited"
  proof
    fix w assume "w \<in> set (workers s)"
    then obtain i where i: "i < length (workers s)" "workers s ! i = w" by (auto simp: in_set_conv_nth)
    show "w = Waiting \<or> w = Exited"
    proof (cases w)
      case Ready
      then show ?thesis using serve_step.look [of i s] i stuck by blast
    next
      case (Running j)
      then show ?thesis using serve_step.finish [of i s j] i stuck by blast
    qed simp_all
  qed
  show "pending s = 0"
    using stuck serve_step.notify_one [of s] serve_step.notify_none [of s] by (metis gr0I in_set_conv_nth)
  show "destr s \<noteq> Stopping" using stuck serve_step.notify_all [of s] by blast
qed

lemma served_all:
  assumes inv: "pool_inv s" and "workers s \<noteq> []" and stuck: "\<forall>u. \<not> serve_step s u"
  shows "jobs s = [] \<and> mset (finished s) = mset (accepted s)"
proof -
  note idle = served_idle [OF stuck]
  have "awake w \<Longrightarrow> w \<notin> set (workers s)" for w using idle(1) by auto
  then have "jobs s = []" using pool_awake [OF inv assms(2)] idle(2,3) by auto
  moreover have "in_work ws = {#}" if "\<forall>w\<in>set ws. w = Waiting \<or> w = Exited" for ws :: "'a worker list"
    using that by (induction ws) (auto simp: in_work_def)
  then have "in_work (workers s) = {#}" using idle(1) by blast
  ultimately show ?thesis using inv by (simp add: pool_inv_def)
qed

section \<open>Properties\<close>

text \<open>C27: Tasks are taken in the order in which they were enqueued, and none is lost or run twice:
  at every moment what was accepted is what was started followed by the queue, and what was
  started is what the workers are running together with what is finished.\<close>

theorem pool_fifo:
  assumes "pool_step\<^sup>*\<^sup>* (new_thread_pool n) s"
  shows "accepted s = started s @ jobs s \<and> mset (started s) = in_work (workers s) + mset (finished s)"
  using pool_run.steps_inv [OF assms new_threads_inv] by (simp add: pool_inv_def)

text \<open>C28: No wake-up is lost, although \<open>notify_one\<close> is called after the mutex was released. While
  a task waits in the queue of a pool with a worker, a worker is awake, or a notification of
  \<open>enqueue\<close> or of the destructor is still to be sent. From there the pool serves the queue by
  itself, with no further task and with no wake-up that nobody sent: its own steps are bounded,
  and where they end every accepted task was run.\<close>

theorem no_lost_wakeup:
  assumes "pool_step\<^sup>*\<^sup>* (new_thread_pool n) s" and "0 < n"
  shows "(jobs s \<noteq> [] \<longrightarrow> (\<exists>w\<in>set (workers s). awake w) \<or> 0 < pending s \<or> destr s = Stopping) \<and>
    ((serve_step ^^ k) s t \<longrightarrow> k \<le> serve_mu s) \<and>
    (serve_step\<^sup>*\<^sup>* s t \<and> (\<forall>u. \<not> serve_step t u) \<longrightarrow>
       jobs t = [] \<and> mset (finished t) = mset (accepted s)) \<and>
    (\<exists>t. serve_step\<^sup>*\<^sup>* s t \<and> (\<forall>u. \<not> serve_step t u))"
proof -
  have inv: "pool_inv s" using pool_run.steps_inv [OF assms(1) new_threads_inv] .
  have "length (workers s) = n"
    using pool_steps_workers [OF assms(1)] by (simp add: new_thread_pool_def)
  then have ws: "workers s \<noteq> []" using assms(2) by auto
  have "jobs t = [] \<and> mset (finished t) = mset (accepted s)"
    if t: "serve_step\<^sup>*\<^sup>* s t" "\<forall>u. \<not> serve_step t u"
  proof -
    have "workers t \<noteq> []" using pool_steps_workers [OF serve_pool_steps [OF t(1)]] ws by auto
    from served_all [OF serving.steps_inv [OF t(1) inv] this t(2)]
    show ?thesis by (simp add: serve_steps_accepted [OF t(1)])
  qed
  moreover have "k \<le> serve_mu s" if "(serve_step ^^ k) s t"
    using serving.run_bound [OF that inv] by simp
  ultimately show ?thesis using pool_awake [OF inv ws] serving.ends [OF inv] by blast
qed

text \<open>C29: The destructor drains the queue: once \<open>stop\<close> is set, nothing is accepted any more, every
  run ends within a number of steps that the state bounds, and where it ends all workers have
  returned, the joins are over and every accepted task was run.\<close>

theorem destructor_drains:
  assumes "pool_step\<^sup>*\<^sup>* (new_thread_pool n) s" and "0 < n" and "stop s"
  shows "((pool_step ^^ k) s t \<longrightarrow> k \<le> pool_mu s) \<and>
    (pool_step\<^sup>*\<^sup>* s t \<and> (\<forall>u. \<not> pool_step t u) \<longrightarrow>
       joined t \<and> jobs t = [] \<and> mset (finished t) = mset (accepted s)) \<and>
    (\<exists>t. pool_step\<^sup>*\<^sup>* s t \<and> (\<forall>u. \<not> pool_step t u))"
proof -
  have inv: "pool_inv s" using pool_run.steps_inv [OF assms(1) new_threads_inv] .
  have "joined t \<and> jobs t = [] \<and> mset (finished t) = mset (accepted s)"
    if t: "pool_step\<^sup>*\<^sup>* s t" "\<forall>u. \<not> pool_step t u"
  proof -
    have "pool_inv t" "stop t" using stopping.steps_inv [OF t(1)] inv assms(3) by auto
    note p = pool_progress [OF this t(2)]
    have "length (workers t) = n"
      using pool_steps_workers [OF t(1)] pool_steps_workers [OF assms(1)] by (simp add: new_thread_pool_def)
    then show ?thesis using p assms(2) stopped_steps_accepted [OF t(1) inv assms(3)] by auto
  qed
  moreover have "(pool_step ^^ k) s t \<Longrightarrow> k \<le> pool_mu s"
    using stopping.run_bound [of k s t] inv assms(3) by simp
  ultimately show ?thesis using stopping.ends [of s] inv assms(3) by blast
qed

text \<open>A thread's name fits the 16 bytes of the system, its terminating null included.\<close>

lemma thread_name_fits: "length (thread_name nm i) \<le> 15"
  by (simp add: thread_name_def Let_def del: take_append)

section \<open>Witnesses\<close>

definition one_worker :: "nat thread_pool" where
  "one_worker = \<lparr>jobs = [7], stop = True, workers = [Ready], pending = 1, destr = Stopping,
     accepted = [7], started = [], finished = []\<rparr>"

definition one_worker_done :: "nat thread_pool" where
  "one_worker_done = \<lparr>jobs = [], stop = True, workers = [Exited], pending = 0, destr = Joining,
     accepted = [7], started = [7], finished = [7]\<rparr>"

lemma one_worker_reached: "pool_step\<^sup>*\<^sup>* (new_thread_pool 1) one_worker"
proof -
  let ?a = "(new_thread_pool 1)\<lparr>jobs := [7], pending := 1, accepted := [7]\<rparr> :: nat thread_pool"
  have "pool_step (new_thread_pool 1) ?a"
    by (rule pool_step.enqueue [of 7]) (simp add: enqueue_def new_thread_pool_def)
  moreover have "pool_step ?a (set_stop ?a)"
    by (rule pool_step.set_stop) (simp add: new_thread_pool_def)
  ultimately show ?thesis
    by (simp add: one_worker_def set_stop_def new_thread_pool_def)
qed

lemma one_worker_runs: "pool_step\<^sup>*\<^sup>* one_worker one_worker_done"
proof -
  define a b c d e where defs: "a = notify_all one_worker" "b = look 0 a" "c = finish 0 7 b"
    "d = look 0 c" "e = d\<lparr>pending := 0\<rparr>"
  have "pool_step one_worker a" unfolding defs by (rule pool_step.notify_all) (simp add: one_worker_def)
  moreover have "pool_step a b" unfolding defs
    by (rule pool_step.look) (simp_all add: notify_all_def one_worker_def)
  moreover have "pool_step b c" unfolding defs
    by (rule pool_step.finish) (simp_all add: notify_all_def one_worker_def look_def)
  moreover have "pool_step c d" unfolding defs
    by (rule pool_step.look) (simp_all add: notify_all_def one_worker_def look_def finish_def)
  moreover have "pool_step d e"
    using pool_step.notify_none [of d]
    by (simp add: defs notify_all_def one_worker_def look_def finish_def)
  moreover have "e = one_worker_done"
    by (simp add: defs notify_all_def one_worker_def look_def finish_def one_worker_done_def)
  ultimately show ?thesis by (meson converse_rtranclp_into_rtranclp rtranclp.rtrancl_refl)
qed

theorem pool_fifo_witness: "accepted one_worker = started one_worker @ jobs one_worker \<and> jobs one_worker = [7]"
  using pool_fifo [OF one_worker_reached] by (simp add: one_worker_def)

text \<open>A worker that went to sleep before the task came, and the notification that is not yet sent.\<close>

definition asleep :: "nat thread_pool" where
  "asleep = \<lparr>jobs = [7], stop = False, workers = [Waiting], pending = 1, destr = Open,
     accepted = [7], started = [], finished = []\<rparr>"

definition asleep_done :: "nat thread_pool" where
  "asleep_done = \<lparr>jobs = [], stop = False, workers = [Waiting], pending = 0, destr = Open,
     accepted = [7], started = [7], finished = [7]\<rparr>"

lemma asleep_reached: "pool_step\<^sup>*\<^sup>* (new_thread_pool 1) asleep"
proof -
  let ?a = "look 0 (new_thread_pool 1) :: nat thread_pool"
  have "pool_step (new_thread_pool 1) ?a"
    by (rule pool_step.look) (simp_all add: new_thread_pool_def)
  moreover have "pool_step ?a asleep"
    by (rule pool_step.enqueue [of 7]) (simp add: enqueue_def look_def new_thread_pool_def asleep_def)
  ultimately show ?thesis by simp
qed

lemma asleep_served: "serve_step\<^sup>*\<^sup>* asleep asleep_done"
proof -
  define a b c d where defs: "a = wake 0 (asleep\<lparr>pending := pending asleep - 1\<rparr>)" "b = look 0 a"
    "c = finish 0 7 b" "d = look 0 c"
  have "serve_step asleep a" unfolding defs by (rule serve_step.notify_one) (simp_all add: asleep_def)
  moreover have "serve_step a b" unfolding defs
    by (rule serve_step.look) (simp_all add: wake_def asleep_def)
  moreover have "serve_step b c" unfolding defs
    by (rule serve_step.finish) (simp_all add: wake_def asleep_def look_def)
  moreover have "serve_step c d" unfolding defs
    by (rule serve_step.look) (simp_all add: wake_def asleep_def look_def finish_def)
  moreover have "d = asleep_done"
    by (simp add: defs wake_def asleep_def look_def finish_def asleep_done_def)
  ultimately show ?thesis by (meson converse_rtranclp_into_rtranclp rtranclp.rtrancl_refl)
qed

theorem no_lost_wakeup_witness:
  "((\<exists>w\<in>set (workers asleep). awake w) \<or> 0 < pending asleep \<or> destr asleep = Stopping) \<and>
   jobs asleep = [7] \<and> jobs asleep_done = [] \<and> mset (finished asleep_done) = mset (accepted asleep)"
proof -
  have "\<not> serve_step asleep_done u" for u
    by (auto simp: asleep_done_def elim!: serve_step.cases)
  then show ?thesis
    using no_lost_wakeup [OF asleep_reached, of 0 asleep_done] asleep_served
    by (simp add: asleep_def)
qed

theorem destructor_drains_witness:
  "joined one_worker_done \<and> jobs one_worker_done = [] \<and> mset (finished one_worker_done) = mset (accepted one_worker)"
proof -
  have "\<not> pool_step one_worker_done u" for u
    by (auto simp: one_worker_done_def enqueue_def elim!: pool_stepE)
  then show ?thesis
    using destructor_drains [OF one_worker_reached, of 0 one_worker_done] one_worker_runs
    by (simp add: one_worker_def)
qed

end
