(* ===== verification/Util.thy ===== *)
theory Util
  imports RedisRouting
begin

text \<open>
  The protobuf helpers of \<open>frame/util.cpp\<close>: making a message of a named type, finding the fields a
  dotted name stands for, and filling a message from serialised parts. Descriptors, the factory, the
  parser and the JSON printer of protobuf are parameters; a message is the list of sub messages each of
  its fields holds.
\<close>

section \<open>Descriptors and messages\<close>

record field_descriptor =
  field_name :: string
  is_repeated :: bool
  is_map :: bool
  message_type :: "string option" \<comment> \<open>none for a field that holds no message\<close>

type_synonym descriptor = "field_descriptor list" \<comment> \<open>by \<open>index()\<close>\<close>

type_synonym 'm message = "nat \<Rightarrow> 'm list"

text \<open>The pool of descriptors, the factory of the prototypes, and \<open>New\<close>.\<close>

record ('d, 'p, 'o) generated =
  FindMessageTypeByName :: "string \<Rightarrow> 'd option"
  GetPrototype :: "'d \<Rightarrow> 'p option"
  New :: "'p \<Rightarrow> 'o"

definition createMessage :: "('d, 'p, 'o) generated \<Rightarrow> string \<Rightarrow> 'o option" where
  \<comment> \<open>the null pointer where there is no such type or no prototype of it\<close>
  "createMessage pool typeName =
     (case FindMessageTypeByName pool typeName of
        None \<Rightarrow> None
      | Some descriptor \<Rightarrow>
          (case GetPrototype pool descriptor of None \<Rightarrow> None | Some prototype \<Rightarrow> Some (New pool prototype)))"

record json_options =
  add_whitespace :: bool
  always_print_primitive_fields :: bool
  preserve_proto_field_names :: bool

definition message_to_json :: "(json_options \<Rightarrow> 'o \<Rightarrow> string \<Rightarrow> bool \<times> string) \<Rightarrow> 'o \<Rightarrow> string" where
  \<comment> \<open>the status of \<open>MessageToJsonString\<close> is not looked at\<close>
  "message_to_json MessageToJsonString message =
     (let options = \<lparr>add_whitespace = True, always_print_primitive_fields = True, preserve_proto_field_names = True\<rparr>;
          (status, json_string) = MessageToJsonString options message []
      in json_string)"

section \<open>Tags\<close>

fun FindFieldByName :: "string \<Rightarrow> descriptor \<Rightarrow> nat option" where
  "FindFieldByName fname [] = None"
| "FindFieldByName fname (f # d) =
     (if field_name f = fname then Some 0 else map_option Suc (FindFieldByName fname d))"

fun tags_of :: "bool \<Rightarrow> descriptor \<Rightarrow> string list \<Rightarrow> int list \<Rightarrow> int list res" where
  \<comment> \<open>the loop over the names: all of them are looked up in the descriptor of the message itself\<close>
  "tags_of fatal d [] tagVec = Inr tagVec"
| "tags_of fatal d (fname # vec) tagVec =
     (case FindFieldByName fname d of
        None \<Rightarrow> log_fatal fatal tagVec
      | Some i \<Rightarrow> tags_of fatal d vec (tagVec @ [int i]))"

definition getTagSeqByName :: "bool \<Rightarrow> boost \<Rightarrow> descriptor \<Rightarrow> string \<Rightarrow> int list res" where
  "getTagSeqByName fatal b d nm = tags_of fatal d (split b ''.'' nm) []"

section \<open>Filling\<close>

fun last_field :: "descriptor \<Rightarrow> int list \<Rightarrow> nat option \<Rightarrow> nat option res" where
  \<comment> \<open>\<open>field(i)\<close> is no null pointer, and is not defined for an index that is no field\<close>
  "last_field d [] fd = Inr fd"
| "last_field d (i # tagVec) fd =
     (if 0 \<le> i \<and> i < int (length d) then last_field d tagVec (Some (nat i)) else Inl Bad_Ptr)"

definition fillMessage ::
  "bool \<Rightarrow> (string \<Rightarrow> string \<Rightarrow> 'm) \<Rightarrow> descriptor \<Rightarrow> int list \<Rightarrow> string list \<Rightarrow> 'm message \<Rightarrow> 'm message res"
where
  \<comment> \<open>\<open>ParseFromArray\<close> is the parameter \<open>parse\<close>: the message of a type that the bytes give, whether or
      not they are well formed; protobuf ends a process that asks for the messages of another field\<close>
  "fillMessage fatal parse d tagVec data msg =
     (if length data \<le> 0 then Inr msg
      else bind_res (last_field d tagVec None) (\<lambda>fd.
        case fd of
          None \<Rightarrow> Inl Null_Deref
        | Some i \<Rightarrow>
            if is_repeated (d ! i)
            then (case message_type (d ! i) of
                    None \<Rightarrow> Inl Fatal_Abort
                  | Some ty \<Rightarrow> Inr (msg(i := msg i @ map (parse ty) data)))
            else if is_map (d ! i) then log_fatal fatal msg
            else case message_type (d ! i) of
                   Some ty \<Rightarrow> Inr (msg(i := [parse ty (data ! 0)]))
                 | None \<Rightarrow> log_fatal fatal msg))"

section \<open>What a name stands for\<close>

lemma FindFieldByName_Some:
  "FindFieldByName f d = Some i \<Longrightarrow> i < length d \<and> field_name (d ! i) = f"
proof (induction d arbitrary: i)
  case (Cons a d)
  then show ?case by (cases i) (auto split: if_splits)
qed simp

lemma FindFieldByName_None: "FindFieldByName f d = None \<longleftrightarrow> f \<notin> field_name ` set d"
  by (induction d) auto

definition known :: "descriptor \<Rightarrow> string list \<Rightarrow> string list" where
  \<comment> \<open>the names up to the first one that is no field\<close>
  "known d = takeWhile (\<lambda>f. f \<in> field_name ` set d)"

lemma tags_of_known:
  "tags_of fatal d ns ts =
     (let fs = known d ns; r = ts @ map (\<lambda>f. int (the (FindFieldByName f d))) fs
      in if fs = ns then Inr r else log_fatal fatal r)"
proof (induction ns arbitrary: ts)
  case (Cons f ns)
  show ?case
  proof (cases "FindFieldByName f d")
    case None
    then have "f \<notin> field_name ` set d" by (simp add: FindFieldByName_None)
    then show ?thesis using None by (simp add: known_def)
  next
    case (Some i)
    then have "f \<in> field_name ` set d" by (metis FindFieldByName_None option.distinct(1))
    then show ?thesis using Some Cons.IH by (simp add: known_def Let_def)
  qed
qed (simp add: known_def)

lemma last_field_tags:
  assumes "set fs \<subseteq> field_name ` set d"
  shows "last_field d (map (\<lambda>f. int (the (FindFieldByName f d))) fs) fd =
    Inr (if fs = [] then fd else FindFieldByName (last fs) d)"
  using assms
proof (induction fs arbitrary: fd)
  case (Cons f fs)
  then obtain i where i: "FindFieldByName f d = Some i" using FindFieldByName_None [of f d] by auto
  with Cons FindFieldByName_Some [OF i] show ?case by simp
qed simp

lemma known_fields: "set (known d ns) \<subseteq> field_name ` set d"
  by (auto simp: known_def dest: set_takeWhileD)

lemma fill_tags:
  assumes "data \<noteq> []"
  shows "fillMessage fatal parse d (map (\<lambda>f. int (the (FindFieldByName f d))) (known d ns)) data msg =
    (if known d ns = [] then Inl Null_Deref
     else fillMessage fatal parse d [int (the (FindFieldByName (last (known d ns)) d))] data msg)"
  using assms last_field_tags [OF known_fields, of d ns None] last_field_tags [of "[last (known d ns)]" d None]
    known_fields [of d ns]
  by (auto simp: fillMessage_def subset_iff)

section \<open>The property\<close>

text \<open>With a logging library that does not abort, filling a message by a dotted name is filling one field of
  the message itself, the one named by the last part before the first part that is no field; the fields the
  earlier parts name are not entered, and a name whose first part is unknown dereferences a null pointer.\<close>

lemma fill_by_name:
  assumes "data \<noteq> []"
  shows "bind_res (getTagSeqByName False b d nm) (\<lambda>tagVec. fillMessage False parse d tagVec data msg) =
    (case rev (takeWhile (\<lambda>f. f \<in> field_name ` set d) (split b ''.'' nm)) of
       [] \<Rightarrow> Inl Null_Deref
     | f # _ \<Rightarrow> fillMessage False parse d [int (the (FindFieldByName f d))] data msg)"
proof -
  let ?fs = "known d (split b ''.'' nm)"
  have "getTagSeqByName False b d nm = Inr (map (\<lambda>f. int (the (FindFieldByName f d))) ?fs)"
    by (simp add: getTagSeqByName_def tags_of_known log_fatal_def Let_def)
  then show ?thesis using fill_tags [OF assms, of False parse d "split b ''.'' nm" msg]
    by (cases "?fs" rule: rev_cases) (simp_all add: known_def)
qed

text \<open>A request with a user that has a name: \<open>user.name\<close> is the field \<open>name\<close> of the request.\<close>

definition test_fields :: descriptor where
  "test_fields =
     [\<lparr>field_name = ''user'', is_repeated = False, is_map = False, message_type = Some ''User''\<rparr>,
      \<lparr>field_name = ''name'', is_repeated = False, is_map = False, message_type = Some ''Name''\<rparr>]"

lemma test_names: "split boost_doc ''.'' ''user.name'' = [''user'', ''name'']"
  by (simp add: boost_doc_def)

lemma fill_by_name_example:
  "\<exists>msg. bind_res (getTagSeqByName False boost_doc test_fields ''user.name'')
       (\<lambda>tagVec. fillMessage False (\<lambda>ty bytes. (ty, bytes)) test_fields tagVec [''x''] (\<lambda>i. [])) = Inr msg \<and>
     msg 0 = [] \<and> msg 1 = [(''Name'', ''x'')]"
  by (subst fill_by_name) (simp_all add: test_names test_fields_def fillMessage_def)

end
