(* ===== verification/Spec2Isabelle.thy ===== *)
theory Spec2Isabelle
  imports IoGraph Process SendGraph ThreadPool Util
begin

text \<open>
  A verification library for graphize, a C++ framework that serves the requests of a server by running
  graphs of nodes on bthreads.

  \<^bold>\<open>The program.\<close> At start-up (\<open>main.cpp\<close>, \<open>init_graph_frame\<close> of \<open>frame/graph_manager.cpp\<close>) the process fills
  its registries from configuration files: node classes register their factories (\<open>frame/register.h\<close>), redis
  clients, RPC channels and node configurations are read, and the graph manager builds a graph of nodes for each
  entry of the graph file and checks that it has no cycle. A call of \<open>Echo\<close> (\<open>server/server_impl.cpp\<close>) runs a
  graph: a context with one counter per node is made, and the root node runs; a node that is done counts
  its outputs down, and the ones that reach zero run in bthreads of their own. A node may split its work
  into slices (\<open>service/base/concurrent_service.cpp\<close>), call a service by brpc or http
  (\<open>brpc_service\<close>, \<open>http_service\<close>), or fetch keys from a redis cluster (\<open>redis_service\<close>), which goes through a
  cache in shared memory (\<open>frame/cache_manager.cpp\<close>), groups the keys by slot, sends them in batches to the
  node that owns the slot (\<open>frame/client/redis\<close>) and joins the replies before its outputs run.

  \<^bold>\<open>Theories and sources.\<close> Definitions carry the names of the source, with its early returns and branches.
  \<^item> \<open>Prelude\<close>: results (\<open>res\<close>: a value, or what ended the operation: a thrown exception, \<open>std::terminate\<close>, an
    aborting \<open>LOG(FATAL)\<close>, or undefined behaviour made visible), loops over them, the locales \<open>registry\<close>,
    \<open>countdown\<close>, \<open>invariant_system\<close>, \<open>terminating_system\<close>, \<open>simulation\<close> and \<open>simulation_chain\<close>, and the collection
    \<open>res_simps\<close>. Each locale is interpreted where a component provides it.
  \<^item> \<open>Graph\<close>, \<open>GraphSpec\<close> (\<open>frame/graph.h\<close>): nodes in a heap, \<open>init\<close>, the breadth-first collection, \<open>check\<close>; a graph
    is accepted if and only if its reachable part is acyclic with the root as only source.
  \<^item> \<open>GraphExec\<close>, \<open>GraphRun\<close> (\<open>frame/graph.cpp\<close>, \<open>Graph::run\<close>): tasks that interleave step by step, 32-bit counters,
    that a run starts with the in-degrees as counters, or fails at an id that is too large, the invariant, termination,
    and that every node runs once and after its inputs. \<open>Schedule\<close> states this as a refinement of an
    abstract scheduler. \<open>Request\<close>: the node classes of the example (\<open>start_service.cpp\<close>, \<open>done.cpp\<close>,
    \<open>common/context.h\<close>) in such a run.
  \<^item> \<open>Managers\<close>, \<open>ManagersSpec\<close> (\<open>register.h\<close>, \<open>gtransport_manager.cpp\<close>, \<open>redis_client_manager.cpp\<close>,
    \<open>node_manager.cpp\<close>), \<open>GraphManager\<close>, \<open>GraphBuild\<close> (\<open>graph_manager.cpp\<close>): the registries, and the graphs built from a configuration: exactly
    the declared edges, in-degrees as counters, unique names.
  \<^item> \<open>CString\<close>, \<open>ConnectPool\<close>, \<open>ChannelPool\<close>, \<open>RedisClient\<close>, \<open>RedisClientSpec\<close>, \<open>RedisRouting\<close>
    (\<open>frame/client/redis\<close>): string functions, the pool of connections, CRC-16 slots and hash tags, the parsing
    of \<open>cluster nodes\<close>, the detection of changes, and the routing of each command to the owner of its slot, which is
    the last node of the reply that claims it (the configuration epoch is not read).
    \<open>ClientRun\<close>: the steps of the commands that many bthreads run on one client, and what their interleavings keep.
  \<^item> \<open>CacheManager\<close>, \<open>RedisService\<close>, \<open>RedisData\<close>, \<open>RedisKeys\<close>, \<open>RedisReply\<close>, \<open>RedisReplySpec\<close> (\<open>objectcache.h\<close>,
    \<open>cache_manager.cpp\<close>, \<open>redis_service.cpp\<close>, the service of the unit test): the cache, the keys of a request,
    batches, replies, parsing, and the merge into the cache.
  \<^item> \<open>RedisJoin\<close>, \<open>RedisJoinCount\<close>, \<open>RedisJoinSpec\<close>, \<open>RedisJoinRun\<close> (\<open>RedisService::do_service\<close>): the thread of the node
    and the callbacks with their two levels of counters and the promise. \<open>FetchSpec\<close> is the abstract machine they
    implement. \<open>RedisSend\<close>, \<open>RedisSendRun\<close>, \<open>RedisSendSpec\<close>: a service without batches together with the commands of its
    clients, which refines the service that takes what the clients return as a parameter.
  \<^item> \<open>Concurrent\<close> (\<open>concurrent_service.cpp\<close>), \<open>Rpc\<close> (\<open>call_mothod_util.h\<close>, \<open>brpc_service.cpp\<close>, \<open>http_service.cpp\<close>) and
    \<open>RpcNode\<close>, one node of the latter.
  \<^item> \<open>AsyncNode\<close>: nodes of type \<open>io\<close> in a graph, their work a parameter, and the locale \<open>async_nodes\<close> of what a graph needs of it.
    \<open>IoGraph\<close> interprets it on the redis, concurrent, brpc and http nodes: a graph with them. \<open>SendGraph\<close> interprets it
    on a redis node together with the clients it sends with.
  \<^item> \<open>ThreadPool\<close> (\<open>ThreadPool.h\<close>): workers, tasks and notifications as separate steps; tasks start in order, no wake-up
    is lost (the steps \<open>serve_step\<close> the pool makes by itself empty the queue), the destructor drains it. \<open>Util\<close> (\<open>util.cpp\<close>).
  \<^item> \<open>Process\<close> (\<open>main.cpp\<close>, \<open>server_impl.cpp\<close>, \<open>init_graph_frame\<close>): the process from its start to the run of a request.

  \<^bold>\<open>State.\<close> Objects the code shares by pointer (nodes, \<open>FetchInfo\<close>s, connections) live in lists, and a pointer is an
  index; an access outside the list or through null is a value of \<open>cxx_error\<close>. Singletons are components of the state. Concurrent code
  is a step relation: a task or thread is the list of the shared effects it has still to perform, and a step lets any
  one perform its next effect, so that a run is any interleaving. Executable schedules (\<open>run_schedule\<close> and its
  like) serve as examples and in the witnesses.

  \<^bold>\<open>What the groups of lemmas show.\<close> For every concurrent component: an invariant that each step keeps, a measure that each step
  decreases (so no fuel is used: the bound of a run is the measure of its start), progress until the end, and the
  final state. For the sequential ones: the result on every branch, errors included. The refinements relate the runs to
  the abstract machines \<open>dag_step\<close> and \<open>fetch_spec\<close>, \<open>io_graph_completes\<close> composes the graph with the work of its nodes, and
  \<open>keys_reach_owners\<close> the redis service with its clients (one key per call only: \<open>multi_fetch\<close> reads pieces of
  keys that are gone, \<open>multi_fetch_dangling\<close>).

  \<^bold>\<open>Bounds.\<close> Counters are 32-bit words; the properties assume fewer than \<open>2 ^ 31\<close> nodes, inputs of a node,
  \<open>FetchInfo\<close>s and keys, and the loops of the redis service count in \<open>nat\<close>, so requests of \<open>2 ^ 30\<close> keys or more, where the
  \<open>int\<close> of the loops could overflow, are out of scope. The cycle check recurs on the number of positive
  counters. Of the endless loop that polls the cluster one round is modelled, and any number of commands between rounds.

  \<^bold>\<open>Parameters.\<close> Code that is not in the repository is an argument: the configuration library (\<open>hocon\<close>), boost's string
  functions (\<open>boost\<close>), the RPC library and its replies (\<open>net\<close>, \<open>cntl\<close>), the shared memory cache (\<open>shmcache\<close>), snappy,
  protobuf, the iteration order of unordered maps, the clock, and whether \<open>LOG(FATAL)\<close> aborts. The same holds for the
  virtual functions that applications override (\<open>skip\<close>, \<open>type\<close>, key generators, parse functions).
  Hypotheses about them name their documented behaviour, and each witness instantiates them.

  \<^bold>\<open>Not modelled.\<close> Logging, flags and monitoring times; the options of RPC channels beyond those the registry
  reads; the memory model below the atomic effects (data races inside one effect); the lifetime of \<open>shared_ptr\<close>s where no
  raw pointer outlives them; \<open>get_cur_time\<close>; the global vectors of \<open>global.cpp\<close> and \<open>graph_context.cpp\<close>, which nothing reads; the drivers of the
  unit tests, whose configurations are the examples of the witnesses.
\<close>

end
